(* ===== verification/Kernel_Prelude.thy ===== *)
theory Kernel_Prelude
  imports Main "HOL-Library.Word"
begin

unbundle bit_operations_syntax

text \<open>
  The vocabulary shared by the components of the kernel.

  \<^item> C's fixed-width integers are words; a C \<open>int\<close> is a 32-bit word read with \<open>sint\<close>
    wherever the source compares it signed, so that wrap-around is the machine's.
  \<^item> An operation that may not return to its caller has a value of type \<open>'a result\<close>:
    \<open>Inl\<close> carries the reason (\<open>fail\<close> with its message, a divide fault, an access
    outside an object, a loop that never ends), \<open>Inr\<close> the value.
  \<^item> Little-endian access to byte buffers, as the casts \<open>*(uint16_t *)(buf + i)\<close> and
    \<open>*(uint32_t *)(buf + i)\<close> of the source do it.
\<close>

named_theorems result_simps \<open>evaluation of sequenced results\<close>
named_theorems le_simps \<open>little-endian loads and stores\<close>
named_theorems unat_simps \<open>words read as natural numbers\<close>

type_synonym u8 = "8 word"
type_synonym u16 = "16 word"
type_synonym u32 = "32 word"
type_synonym u64 = "64 word"
type_synonym c_int = "32 word"
type_synonym bytes = "u8 list"

section \<open>Results\<close>

text \<open>
  \<open>Panic msg\<close> is \<open>fail(msg)\<close> of io.c, which prints and spins; \<open>DivideError\<close> is the
  processor's divide fault; \<open>OutOfBounds\<close> an access outside a C object (undefined
  behaviour); \<open>Diverges\<close> a loop or recursion that never ends.
\<close>

datatype kerror = Panic string | DivideError | OutOfBounds | Diverges

type_synonym 'a result = "kerror + 'a"

definition bind :: "'a result \<Rightarrow> ('a \<Rightarrow> 'b result) \<Rightarrow> 'b result" where
  "bind r f = (case r of Inl e \<Rightarrow> Inl e | Inr a \<Rightarrow> f a)"

lemma bind_Inl [simp, result_simps]: "bind (Inl e) f = Inl e"
  by (simp add: bind_def)

lemma bind_Inr [simp, result_simps]: "bind (Inr a) f = f a"
  by (simp add: bind_def)

lemma bind_eq_Inr_iff [result_simps]:
  "bind r f = Inr b \<longleftrightarrow> (\<exists>a. r = Inr a \<and> f a = Inr b)"
  by (simp add: bind_def split: sum.split)

lemma bind_eq_Inl_iff [result_simps]:
  "bind r f = Inl e \<longleftrightarrow> r = Inl e \<or> (\<exists>a. r = Inr a \<and> f a = Inl e)"
  by (auto simp: bind_def split: sum.split)

lemma bind_InrE [elim]:
  assumes "bind r f = Inr b"
  obtains a where "r = Inr a" "f a = Inr b"
  using assms by (auto simp: bind_eq_Inr_iff)

lemma bind_cong [fundef_cong]:
  "r = r' \<Longrightarrow> (\<And>a. r' = Inr a \<Longrightarrow> f a = g a) \<Longrightarrow> bind r f = bind r' g"
  by (cases r') (simp_all add: bind_def)

text \<open>A loop that may run forever is a partial function; running forever is \<open>Diverges\<close>.\<close>

definition of_loop :: "'a result option \<Rightarrow> 'a result" where
  "of_loop r = (case r of None \<Rightarrow> Inl Diverges | Some x \<Rightarrow> x)"

lemma of_loop_simps [simp, result_simps]:
  "of_loop None = Inl Diverges" "of_loop (Some x) = x"
  by (simp_all add: of_loop_def)

lemma of_loop_eq_Inr_iff: "of_loop r = Inr x \<longleftrightarrow> r = Some (Inr x)"
  by (cases r) simp_all

section \<open>Words as natural numbers\<close>

lemma unat_add_nat [unat_simps]:
  "unat a + unat b < 2 ^ LENGTH('a) \<Longrightarrow> unat (a + b) = unat a + unat b"
  for a b :: "'a::len word"
  by (simp add: unat_word_ariths)

lemma unat_mult_nat [unat_simps]:
  "unat a * unat b < 2 ^ LENGTH('a) \<Longrightarrow> unat (a * b) = unat a * unat b"
  for a b :: "'a::len word"
  by (simp add: unat_word_ariths)

lemma unat_diff_nat [unat_simps]:
  "unat b \<le> unat a \<Longrightarrow> unat (a - b) = unat a - unat b"
  for a b :: "'a::len word"
  by (simp add: unat_sub word_le_nat_alt)

lemma unat_of_nat_small [unat_simps]:
  "n < 2 ^ LENGTH('a) \<Longrightarrow> unat (of_nat n :: 'a::len word) = n"
  by (simp add: unat_of_nat)

lemma unat_shiftr [unat_simps]: "unat (drop_bit n a) = unat a div 2 ^ n"
  for a :: "'a::len word"
  by (simp add: unat_drop_bit_eq drop_bit_eq_div [of n "unat a"] del: drop_bit_eq_div)

lemma sint_eq_unat [unat_simps]:
  "unat a < 2 ^ (LENGTH('a) - 1) \<Longrightarrow> sint a = int (unat a)"
  for a :: "'a::len word"
proof -
  assume a: "unat a < 2 ^ (LENGTH('a) - 1)"
  have "int (unat a) < 2 ^ (LENGTH('a) - 1)"
    using a by (metis of_nat_less_iff of_nat_numeral of_nat_power)
  then have "uint a < 2 ^ (LENGTH('a) - 1)" by simp
  then have "signed_take_bit (LENGTH('a) - 1) (uint a) = uint a"
    by (intro signed_take_bit_int_eq_self) (simp_all add: order_trans [of _ 0])
  then show ?thesis by (simp add: sint_uint)
qed

lemma unat_lt_2p: "unat a < 2 ^ LENGTH('a)" for a :: "'a::len word"
  by simp

lemma unat_ucast [unat_simps]:
  "unat (ucast a :: 'b::len word) = unat a mod 2 ^ LENGTH('b)" for a :: "'a::len word"
  by (simp add: unsigned_ucast_eq take_bit_eq_mod)

lemma ucast_eq_of_nat: "(ucast a :: 'b::len word) = of_nat (unat a)" for a :: "'a::len word"
  by (simp add: word_unat_eq_iff unat_ucast unat_of_nat)

section \<open>Little-endian encoding\<close>

text \<open>\<open>le_enc n v\<close> is the \<open>n\<close>-byte little-endian image of \<open>v\<close>, \<open>le_dec\<close> its inverse.\<close>

primrec le_enc :: "nat \<Rightarrow> nat \<Rightarrow> bytes" where
  "le_enc 0 v = []"
| "le_enc (Suc n) v = of_nat v # le_enc n (v div 256)"

primrec le_dec :: "bytes \<Rightarrow> nat" where
  "le_dec [] = 0"
| "le_dec (x # xs) = unat x + 256 * le_dec xs"

lemma length_le_enc [simp, le_simps]: "length (le_enc n v) = n"
  by (induction n arbitrary: v) simp_all

lemma le_dec_enc [le_simps]: "le_dec (le_enc n v) = v mod 256 ^ n"
proof (induction n arbitrary: v)
  case 0
  then show ?case by simp
next
  case (Suc n)
  have "v mod 256 + 256 * (v div 256 mod 256 ^ n) = v mod (256 * 256 ^ n)"
    by (simp add: mod_mult2_eq)
  then show ?case by (simp add: Suc.IH unat_of_nat)
qed

lemma le_enc_dec [le_simps]: "length xs = n \<Longrightarrow> le_enc n (le_dec xs) = xs"
proof (induction xs arbitrary: n)
  case Nil
  then show ?case by simp
next
  case (Cons x xs)
  moreover have "(unat x + 256 * le_dec xs) div 256 = le_dec xs"
    using unat_lt_2p [of x] by simp
  moreover have "(of_nat (unat x + 256 * le_dec xs) :: u8) = x"
  proof -
    have "(256 :: u8) = 0" by simp
    then show ?thesis by (simp only: of_nat_add of_nat_mult of_nat_numeral) simp
  qed
  ultimately show ?case by auto
qed

lemma le_dec_bound: "le_dec xs < 256 ^ length xs"
proof (induction xs)
  case Nil
  then show ?case by simp
next
  case (Cons x xs)
  then show ?case using unat_lt_2p [of x] by simp
qed

text \<open>Reading \<open>n\<close> bytes at offset \<open>i\<close> of a buffer, and overwriting a run of bytes.\<close>

definition peek :: "nat \<Rightarrow> nat \<Rightarrow> bytes \<Rightarrow> bytes" where
  "peek n i b = take n (drop i b)"

definition poke :: "nat \<Rightarrow> bytes \<Rightarrow> bytes \<Rightarrow> bytes" where
  "poke i xs b = take i b @ xs @ drop (i + length xs) b"

lemma length_peek [simp]: "i + n \<le> length b \<Longrightarrow> length (peek n i b) = n"
  by (simp add: peek_def)

lemma length_poke [simp]: "i + length xs \<le> length b \<Longrightarrow> length (poke i xs b) = length b"
  by (simp add: poke_def)

lemma peek_poke_same [le_simps]:
  "i + n \<le> length b \<Longrightarrow> length xs = n \<Longrightarrow> peek n i (poke i xs b) = xs"
  by (simp add: peek_def poke_def)

lemma peek_nth: "i + n \<le> length b \<Longrightarrow> k < n \<Longrightarrow> peek n i b ! k = b ! (i + k)"
  by (simp add: peek_def)

lemma nth_poke:
  assumes "i + length xs \<le> length b" "k < length b"
  shows "poke i xs b ! k = (if i \<le> k \<and> k < i + length xs then xs ! (k - i) else b ! k)"
  using assms by (auto simp: poke_def nth_append min_def)

lemma peek_poke_other [le_simps]:
  assumes "i + length xs \<le> length b" "j + n \<le> length b" "j + n \<le> i \<or> i + length xs \<le> j"
  shows "peek n j (poke i xs b) = peek n j b"
  using assms by (intro nth_equalityI) (auto simp: peek_nth nth_poke)

definition load16 :: "bytes \<Rightarrow> nat \<Rightarrow> u16" where
  "load16 b i = of_nat (le_dec (peek 2 i b))"

definition load32 :: "bytes \<Rightarrow> nat \<Rightarrow> u32" where
  "load32 b i = of_nat (le_dec (peek 4 i b))"

definition store16 :: "bytes \<Rightarrow> nat \<Rightarrow> u16 \<Rightarrow> bytes" where
  "store16 b i v = poke i (le_enc 2 (unat v)) b"

definition store32 :: "bytes \<Rightarrow> nat \<Rightarrow> u32 \<Rightarrow> bytes" where
  "store32 b i v = poke i (le_enc 4 (unat v)) b"

lemma length_store [simp, le_simps]:
  "i + 2 \<le> length b \<Longrightarrow> length (store16 b i v) = length b"
  "i + 4 \<le> length b \<Longrightarrow> length (store32 b i w) = length b"
  by (simp_all add: store16_def store32_def)

lemma load_store_same [le_simps]:
  "i + 2 \<le> length b \<Longrightarrow> load16 (store16 b i v) i = v"
  "i + 4 \<le> length b \<Longrightarrow> load32 (store32 b i w) i = w"
  using unat_lt_2p [of v] unat_lt_2p [of w]
  by (simp_all add: load16_def load32_def store16_def store32_def peek_poke_same le_dec_enc)

lemma load32_store32_other [le_simps]:
  "i + 4 \<le> length b \<Longrightarrow> j + 4 \<le> length b \<Longrightarrow> j + 4 \<le> i \<or> i + 4 \<le> j \<Longrightarrow>
   load32 (store32 b i w) j = load32 b j"
  by (simp add: load32_def store32_def peek_poke_other)

lemma nth_store16_other [le_simps]:
  "i + 2 \<le> length b \<Longrightarrow> k < length b \<Longrightarrow> k < i \<or> i + 2 \<le> k \<Longrightarrow> store16 b i v ! k = b ! k"
  by (auto simp: store16_def nth_poke)

lemma nth_store32_other [le_simps]:
  "i + 4 \<le> length b \<Longrightarrow> k < length b \<Longrightarrow> k < i \<or> i + 4 \<le> k \<Longrightarrow> store32 b i w ! k = b ! k"
  by (auto simp: store32_def nth_poke)

lemma peek_cong: "(\<And>k. k < n \<Longrightarrow> b ! (i + k) = c ! (i + k)) \<Longrightarrow> i + n \<le> length b \<Longrightarrow>
  i + n \<le> length c \<Longrightarrow> peek n i b = peek n i c"
  by (intro nth_equalityI) (auto simp: peek_nth)

lemma load_cong:
  "(\<And>k. k < 2 \<Longrightarrow> b ! (i + k) = c ! (i + k)) \<Longrightarrow> i + 2 \<le> length b \<Longrightarrow> i + 2 \<le> length c \<Longrightarrow>
    load16 b i = load16 c i"
  "(\<And>k. k < 4 \<Longrightarrow> b ! (i + k) = c ! (i + k)) \<Longrightarrow> i + 4 \<le> length b \<Longrightarrow> i + 4 \<le> length c \<Longrightarrow>
    load32 b i = load32 c i"
  by (simp_all add: load16_def load32_def cong: peek_cong)

section \<open>Loops over arrays\<close>

text \<open>A loop that stores \<open>f i\<close> at index \<open>k + i\<close> for \<open>i\<close> below \<open>n\<close>.\<close>

lemma fold_store:
  assumes "k + n \<le> length b"
  shows "fold (\<lambda>i b. b[k + i := f i]) [0..<n] b = poke k (map f [0..<n]) b"
  using assms
proof (induction n)
  case 0
  then show ?case by (simp add: poke_def)
next
  case (Suc n)
  then have "fold (\<lambda>i b. b[k + i := f i]) [0..<Suc n] b = (poke k (map f [0..<n]) b)[k + n := f n]"
    by simp
  also have "\<dots> = poke k (map f [0..<Suc n]) b"
    using Suc.prems by (intro nth_equalityI) (auto simp: nth_list_update nth_poke nth_append less_Suc_eq)
  finally show ?case .
qed

lemma fold_store_0:
  "n \<le> length b \<Longrightarrow> fold (\<lambda>i b. b[i := f i]) [0..<n] b = map f [0..<n] @ drop n b"
  for b :: bytes
  using fold_store [of 0 n b f] by (simp add: poke_def)

end
