(* ===== verification/Console.thy ===== *)
theory Console
  imports Kernel_Prelude
begin

text \<open>
  kernel/io.c: the VGA text console, the serial port and the translation of keyboard
  scan codes. The VGA buffer at 0xB8000 is the function \<open>vga\<close> from cell indices to
  cells; writes to I/O ports are the log \<open>ports\<close>, oldest first. A \<open>char\<close> is a byte,
  sign-extended where the source widens it. \<open>fail\<close> never returns: its effect on the
  screen is \<open>fail_screen\<close>, and a caller stops with \<open>Panic\<close>.
\<close>

section \<open>Definitions\<close>

record io =
  vga :: "int \<Rightarrow> u16"
  ports :: "(u16 \<times> u8) list"

definition outb :: "u16 \<Rightarrow> u8 \<Rightarrow> io \<Rightarrow> io" where
  "outb port value s = s\<lparr>ports := ports s @ [(port, value)]\<rparr>"

text \<open>The tables are UTF-8 in the source: the accented characters are two bytes each.\<close>

definition lowercase_caracters_row0 :: bytes where
  "lowercase_caracters_row0 =
     [0x26, 0x65, 0x22, 0x27, 0x28, 0x2D, 0x65, 0x5F, 0x63, 0x61, 0x29, 0x3D, 0]"

definition lowercase_caracters_row1 :: bytes where
  "lowercase_caracters_row1 =
     [0x61, 0x7A, 0x65, 0x72, 0x74, 0x79, 0x75, 0x69, 0x6F, 0x70, 0x5E, 0x24, 0]"

definition lowercase_caracters_row2 :: bytes where
  "lowercase_caracters_row2 =
     [0x71, 0x73, 0x64, 0x66, 0x67, 0x68, 0x6A, 0x6B, 0x6C, 0x6D, 0xC3, 0xB9, 0x2A, 0]"

definition lowercase_caracters_row3 :: bytes where
  "lowercase_caracters_row3 = [0x77, 0x78, 0x63, 0x76, 0x62, 0x6E, 0x2C, 0x3B, 0x3A, 0x21, 0]"

definition uppercase_caracters_row0 :: bytes where
  "uppercase_caracters_row0 =
     [0x31, 0x32, 0x33, 0x34, 0x35, 0x36, 0x37, 0x38, 0x39, 0x30, 0xC2, 0xB0, 0x2B, 0]"

definition uppercase_caracters_row1 :: bytes where
  "uppercase_caracters_row1 =
     [0x41, 0x5A, 0x45, 0x52, 0x54, 0x59, 0x55, 0x49, 0x4F, 0x50, 0xC2, 0xA8, 0xC2, 0xA3, 0]"

definition uppercase_caracters_row2 :: bytes where
  "uppercase_caracters_row2 =
     [0x51, 0x53, 0x44, 0x46, 0x47, 0x48, 0x4A, 0x4B, 0x4C, 0x4D, 0x25, 0xC2, 0xB5, 0]"

definition uppercase_caracters_row3 :: bytes where
  "uppercase_caracters_row3 =
     [0x57, 0x58, 0x43, 0x56, 0x42, 0x4E, 0x3F, 0x2E, 0x2F, 0xC2, 0xA7, 0]"

definition keyboard_to_ascii :: "u8 \<Rightarrow> c_int \<Rightarrow> u8" where
  "keyboard_to_ascii c is_shifted =
     (if 0x02 \<le> c \<and> c \<le> 0x0B then
        (if is_shifted \<noteq> 0 then uppercase_caracters_row0 ! unat (c - 0x02)
         else lowercase_caracters_row0 ! unat (c - 0x02))
      else if 0x10 \<le> c \<and> c \<le> 0x1B then
        (if is_shifted \<noteq> 0 then uppercase_caracters_row1 ! unat (c - 0x10)
         else lowercase_caracters_row1 ! unat (c - 0x10))
      else if 0x1E \<le> c \<and> c \<le> 0x27 then
        (if is_shifted \<noteq> 0 then uppercase_caracters_row2 ! unat (c - 0x1E)
         else lowercase_caracters_row2 ! unat (c - 0x1E))
      else if 0x2C \<le> c \<and> c \<le> 0x33 then
        (if is_shifted \<noteq> 0 then uppercase_caracters_row3 ! unat (c - 0x2C)
         else lowercase_caracters_row3 ! unat (c - 0x2C))
      else if c = 0x39 then 0x20
      else if c = 0x1C then 0x0A
      else if c = 0x0F then 0x09
      else if c = 0x0E then c
      else 0)"

definition cleanScreen :: "io \<Rightarrow> io" where
  "cleanScreen s = s\<lparr>vga := fold (\<lambda>i v. v(int i := 0x0F00)) [0..<80 * 25] (vga s)\<rparr>"

text \<open>
  \<open>console_print\<close> on the bytes of the string before its terminator; the position
  arithmetic is \<open>uint32_t\<close>.
\<close>

primrec print_loop :: "u32 \<Rightarrow> bytes \<Rightarrow> (int \<Rightarrow> u16) \<Rightarrow> (int \<Rightarrow> u16)" where
  "print_loop p [] v = v"
| "print_loop p (c # cs) v = print_loop (p + 1) cs (v(uint (p mod (80 * 25)) := scast c OR 0x0F00))"

definition console_print :: "u32 \<Rightarrow> u32 \<Rightarrow> bytes \<Rightarrow> io \<Rightarrow> io" where
  "console_print l c str s = s\<lparr>vga := print_loop (l * 80 + c) str (vga s)\<rparr>"

text \<open>
  \<open>console_print_int\<close> fills its 64-byte buffer from the right. The loop is given the
  buffer and the cursor; a cursor below 0 would be a write outside the buffer.
\<close>

function digits_loop :: "bytes \<Rightarrow> int \<Rightarrow> u32 \<Rightarrow> (bytes \<times> int) result" where
  "digits_loop buffer cursor n =
     (if n \<noteq> 0 \<or> cursor = 62 then
        if cursor < 0 \<or> int (length buffer) \<le> cursor then Inl OutOfBounds
        else digits_loop (buffer[nat cursor := ucast (48 + n mod 10)]) (cursor - 1) (n div 10)
      else Inr (buffer, cursor))"
  by pat_completeness auto
termination
  by (relation "measure (\<lambda>(b, cursor, n). nat (cursor + 1))") auto

definition console_print_int :: "u32 \<Rightarrow> u32 \<Rightarrow> u32 \<Rightarrow> bytes \<Rightarrow> io \<Rightarrow> io result" where
  "console_print_int l c n buffer s =
     bind (digits_loop (buffer[63 := 0]) 62 n) (\<lambda>(buffer, cursor).
     Inr (console_print l c (takeWhile (\<lambda>b. b \<noteq> 0) (drop (nat (cursor + 1)) buffer)) s))"

definition console_print_int_wrapper :: "u32 \<Rightarrow> bytes \<Rightarrow> io \<Rightarrow> io result" where
  "console_print_int_wrapper n buffer s = console_print_int 0 0 n buffer s"

definition ascii :: "string \<Rightarrow> bytes" where
  "ascii = map of_char"

definition fail_screen :: "string \<Rightarrow> io \<Rightarrow> io" where
  "fail_screen errorMsg s = console_print 0 0 (ascii errorMsg) (cleanScreen s)"

definition kassert :: "bool \<Rightarrow> string \<Rightarrow> unit result" where
  "kassert b msg = (if \<not> b then Inl (Panic msg) else Inr ())"

definition serial_write_char :: "u8 \<Rightarrow> io \<Rightarrow> io" where
  "serial_write_char c s = outb 0x3F8 c s"

primrec serial_write :: "bytes \<Rightarrow> io \<Rightarrow> io" where
  "serial_write [] s = s"
| "serial_write (c # cs) s = serial_write cs (serial_write_char c s)"

definition serial_init :: "io \<Rightarrow> io" where
  "serial_init s =
     outb (0x3F8 + 4) 0x0B (outb (0x3F8 + 2) 0xC7 (outb (0x3F8 + 3) 0x03
       (outb (0x3F8 + 1) 0x00 (outb (0x3F8 + 0) 0x03 (outb (0x3F8 + 3) 0x80
         (outb (0x3F8 + 1) 0x00 s))))))"

text \<open>A cursor outside of the 80 * 25 cells is an access outside of the array of the screen.\<close>

definition shell_print_char :: "c_int \<Rightarrow> u8 \<Rightarrow> io \<Rightarrow> io result" where
  "shell_print_char cursor c s =
     (if 0 \<le> sint cursor \<and> sint cursor < 80 * 25
      then Inr (s\<lparr>vga := (vga s)(sint cursor := 0x0F00 OR scast c)\<rparr>)
      else Inl OutOfBounds)"

lemmas keyboard_rows =
  lowercase_caracters_row0_def lowercase_caracters_row1_def
  lowercase_caracters_row2_def lowercase_caracters_row3_def
  uppercase_caracters_row0_def uppercase_caracters_row1_def
  uppercase_caracters_row2_def uppercase_caracters_row3_def

declare digits_loop.simps [simp del]

section \<open>The screen\<close>

lemma fold_clear:
  "fold (\<lambda>i v. v(int i := x)) [0..<n] v j = (if 0 \<le> j \<and> j < int n then x else v j)"
  by (induction n) auto

lemma vga_cleanScreen:
  "vga (cleanScreen s) j = (if 0 \<le> j \<and> j < 2000 then 0x0F00 else vga s j)"
  by (simp add: cleanScreen_def fold_clear)

lemma ports_cleanScreen [simp]: "ports (cleanScreen s) = ports s"
  by (simp add: cleanScreen_def)

text \<open>The cell that position \<open>p\<close> is wrapped to is always one of the 80 * 25 cells.\<close>

lemma cell_bounds: "0 \<le> uint (p mod 2000 :: u32) \<and> uint (p mod 2000 :: u32) < 2000"
  by (simp add: uint_mod)

lemma print_loop_frame:
  "j < 0 \<or> 2000 \<le> j \<Longrightarrow> print_loop p cs v j = v j"
proof (induction cs arbitrary: p v)
  case Nil
  then show ?case by simp
next
  case (Cons c cs)
  then show ?case using cell_bounds [of p] by auto
qed

text \<open>
  When the text fits before the end of the screen, character \<open>k\<close> is in cell \<open>p + k\<close>
  and no other cell changes.
\<close>

lemma print_loop_cells:
  assumes "p + length cs \<le> 2000"
  shows "print_loop (of_nat p) cs v j =
    (if int p \<le> j \<and> j < int (p + length cs) then scast (cs ! nat (j - int p)) OR 0x0F00 else v j)"
  using assms
proof (induction cs arbitrary: p v)
  case Nil
  then show ?case by auto
next
  case (Cons c cs)
  have "unat (of_nat p :: u32) = p" using Cons.prems by (simp add: unat_of_nat)
  then have "uint (of_nat p :: u32) = int p" by (metis uint_nat)
  then have cell: "uint (of_nat p mod 2000 :: u32) = int p"
    using Cons.prems by (simp add: uint_mod)
  have IH: "print_loop (1 + of_nat p) cs w j =
      (if int p + 1 \<le> j \<and> j < int p + 1 + int (length cs)
       then scast (cs ! nat (j - (int p + 1))) OR 0x0F00 else w j)" for w
    using Cons.IH [of "Suc p" w] Cons.prems by (simp add: ac_simps)
  have shift: "nat (j - int p) = Suc (nat (j - (int p + 1)))" if "int p < j"
    using that by linarith
  show ?case
    using cell IH by (auto simp: add.commute shift)
qed

section \<open>Decimal output\<close>

fun decimal :: "nat \<Rightarrow> bytes" where
  "decimal n = (if n < 10 then [of_nat (48 + n)] else decimal (n div 10) @ [of_nat (48 + n mod 10)])"

declare decimal.simps [simp del]

lemma decimal_digits: "b \<in> set (decimal n) \<Longrightarrow> 48 \<le> unat b \<and> unat b \<le> 57"
proof (induction n rule: decimal.induct)
  case (1 n)
  have digit: "48 \<le> unat (of_nat (48 + k) :: u8) \<and> unat (of_nat (48 + k) :: u8) \<le> 57"
    if "k < 10" for k
    using that by (simp add: unat_of_nat del: of_nat_add)
  show ?case
  proof (cases "n < 10")
    case True
    then show ?thesis using "1.prems" digit [of n] by (simp add: decimal.simps [of n] del: of_nat_add)
  next
    case False
    then show ?thesis using 1 digit [of "n mod 10"]
      by (auto simp: decimal.simps [of n] simp del: of_nat_add)
  qed
qed

lemma digit_cast: "(ucast (48 + n mod 10) :: u8) = of_nat (48 + unat n mod 10)" for n :: u32
proof -
  have m: "unat (n mod 10) = unat n mod 10" by (simp add: unat_mod)
  have "unat n mod 10 < 10" by simp
  then have "unat (48 + n mod 10) = 48 + unat n mod 10"
    using m by (simp add: unat_word_ariths)
  then show ?thesis by (simp add: ucast_eq_of_nat)
qed

lemma digits_loop_decimal:
  assumes "unat n < 10 ^ k" "int k \<le> cursor + 1" "cursor < 62" "length buffer = 64"
  shows "\<exists>b c. digits_loop buffer cursor n = Inr (b, c) \<and> length b = 64 \<and> cursor - int k \<le> c \<and> c \<le> cursor
    \<and> drop (nat (c + 1)) b = (if n = 0 then [] else decimal (unat n)) @ drop (nat (cursor + 1)) buffer"
  using assms
proof (induction k arbitrary: n cursor buffer)
  case 0
  then have "n = 0" by (simp add: unat_0_iff)
  with 0 show ?case by (subst digits_loop.simps) simp
next
  case (Suc k)
  show ?case
  proof (cases "n = 0")
    case True
    with Suc.prems show ?thesis by (subst digits_loop.simps) simp
  next
    case False
    let ?d = "of_nat (48 + unat n mod 10) :: u8"
    let ?b = "buffer[nat cursor := ?d]"
    have cur: "0 \<le> cursor" "nat cursor < 64" using Suc.prems by linarith+
    have q: "unat (n div 10) = unat n div 10" by (simp add: unat_div)
    have "unat (n div 10) < 10 ^ k" using Suc.prems(1) q by simp
    then obtain b c where r: "digits_loop ?b (cursor - 1) (n div 10) = Inr (b, c)"
      "length b = 64" "cursor - 1 - int k \<le> c" "c \<le> cursor - 1"
      "drop (nat (c + 1)) b =
        (if n div 10 = 0 then [] else decimal (unat (n div 10))) @ drop (nat (cursor - 1 + 1)) ?b"
      using Suc.IH [of "n div 10" "cursor - 1" ?b] Suc.prems by auto
    have "digits_loop buffer cursor n = digits_loop ?b (cursor - 1) (n div 10)"
      using False cur Suc.prems
      by (subst digits_loop.simps) (simp add: digit_cast del: of_nat_add)
    moreover have "drop (nat cursor) ?b = ?d # drop (nat (cursor + 1)) buffer"
      using cur Suc.prems(4) by (simp add: Cons_nth_drop_Suc [symmetric] nat_add_distrib)
    moreover have "(if n div 10 = 0 then [] else decimal (unat (n div 10))) @ [?d] = decimal (unat n)"
    proof -
      have "n div 10 = 0 \<longleftrightarrow> unat n < 10"
        using q by (metis div_eq_0_iff unat_0_iff zero_neq_numeral)
      then show ?thesis using q by (simp add: decimal.simps [of "unat n"] del: of_nat_add)
    qed
    ultimately show ?thesis using r False by (auto simp del: of_nat_add)
  qed
qed

end
