(* ===== verification/C_Lib.thy ===== *)
theory C_Lib
  imports Kernel_Prelude
begin

text \<open>
  The memory routines of kernel/lib.c over a flat byte memory: \<open>memset\<close>, \<open>memcpy\<close>,
  \<open>strlen\<close> and \<open>strcpy\<close>, each with its loop as the source writes it. A string routine
  whose argument has no terminator never returns, so both are partial functions.
\<close>

type_synonym mem = "u64 \<Rightarrow> u8"

section \<open>Definitions\<close>

definition memset :: "mem \<Rightarrow> u64 \<Rightarrow> c_int \<Rightarrow> u64 \<Rightarrow> mem" where
  "memset m dst c n = fold (\<lambda>i m. m(dst + of_nat i := ucast c)) [0..<unat n] m"

primrec memcpy_loop :: "nat \<Rightarrow> u64 \<Rightarrow> u64 \<Rightarrow> mem \<Rightarrow> mem" where
  "memcpy_loop 0 d s m = m"
| "memcpy_loop (Suc n) d s m = memcpy_loop n (d + 1) (s + 1) (m(d := m s))"

definition memcpy :: "mem \<Rightarrow> u64 \<Rightarrow> u64 \<Rightarrow> u64 \<Rightarrow> mem" where
  "memcpy m dst src n = memcpy_loop (unat n) dst src m"

partial_function (option) strlen_loop :: "mem \<Rightarrow> u64 \<Rightarrow> c_int \<Rightarrow> c_int option" where
  "strlen_loop m s n = (if m (s + scast n) \<noteq> 0 then strlen_loop m s (n + 1) else Some n)"

definition strlen :: "mem \<Rightarrow> u64 \<Rightarrow> c_int result" where
  "strlen m s = of_loop (map_option Inr (strlen_loop m s 0))"

partial_function (option) strcpy_loop :: "u64 \<Rightarrow> u64 \<Rightarrow> mem \<Rightarrow> mem option" where
  "strcpy_loop d s m =
     (let m = m(d := m s) in if m d \<noteq> 0 then strcpy_loop (d + 1) (s + 1) m else Some m)"

definition strcpy :: "mem \<Rightarrow> u64 \<Rightarrow> u64 \<Rightarrow> mem result" where
  "strcpy m dst src = of_loop (map_option Inr (strcpy_loop dst src m))"

section \<open>Regions of memory\<close>

text \<open>\<open>in_region a base n\<close>: address \<open>a\<close> is one of the \<open>n\<close> bytes from \<open>base\<close>.\<close>

definition in_region :: "u64 \<Rightarrow> u64 \<Rightarrow> nat \<Rightarrow> bool" where
  "in_region a base n \<longleftrightarrow> unat (a - base) < n"

definition mem_bytes :: "mem \<Rightarrow> u64 \<Rightarrow> nat \<Rightarrow> bytes" where
  "mem_bytes m a n = map (\<lambda>i. m (a + of_nat i)) [0..<n]"

definition disjoint_regions :: "u64 \<Rightarrow> nat \<Rightarrow> u64 \<Rightarrow> nat \<Rightarrow> bool" where
  "disjoint_regions a n b k \<longleftrightarrow> n \<le> unat (b - a) \<and> k \<le> unat (a - b)"

text \<open>A C string at \<open>s\<close>: the bytes \<open>xs\<close>, none of them zero, and a terminator.\<close>

definition c_string_at :: "mem \<Rightarrow> u64 \<Rightarrow> bytes \<Rightarrow> bool" where
  "c_string_at m s xs \<longleftrightarrow> 0 \<notin> set xs \<and> mem_bytes m s (Suc (length xs)) = xs @ [0]"

lemma length_mem_bytes [simp]: "length (mem_bytes m a n) = n"
  by (simp add: mem_bytes_def)

lemma nth_mem_bytes [simp]: "i < n \<Longrightarrow> mem_bytes m a n ! i = m (a + of_nat i)"
  by (simp add: mem_bytes_def)

lemma mem_bytes_Suc: "mem_bytes m a (Suc n) = m a # mem_bytes m (a + 1) n"
  by (simp add: mem_bytes_def upt_conv_Cons map_Suc_upt [symmetric] add.assoc del: upt_Suc)

lemma mem_bytes_cong:
  "(\<And>i. i < n \<Longrightarrow> m (a + of_nat i) = m' (a + of_nat i)) \<Longrightarrow> mem_bytes m a n = mem_bytes m' a n"
  by (simp add: mem_bytes_def)

lemma in_region_0 [simp]: "\<not> in_region a base 0"
  by (simp add: in_region_def)

lemma in_region_offset [simp]: "n \<le> 2 ^ 64 \<Longrightarrow> i < n \<Longrightarrow> in_region (a + of_nat i) a n"
  by (simp add: in_region_def unat_of_nat)

lemma in_regionE:
  assumes "in_region a base n"
  obtains i where "i < n" "a = base + of_nat i"
proof
  show "unat (a - base) < n" using assms by (simp add: in_region_def)
  show "a = base + of_nat (unat (a - base))" by simp
qed

lemma offset_inj:
  "i < 2 ^ 64 \<Longrightarrow> j < 2 ^ 64 \<Longrightarrow> (a :: u64) + of_nat i = a + of_nat j \<longleftrightarrow> i = j"
  by (auto dest: arg_cong [where f = unat] simp: unat_of_nat)

lemma in_region_Suc:
  assumes "n < 2 ^ 64"
  shows "in_region a base (Suc n) \<longleftrightarrow> in_region a base n \<or> a = base + of_nat n"
proof -
  have "unat (a - base) = n \<Longrightarrow> a = base + of_nat n" by auto
  moreover have "unat (base + of_nat n - base) = n" using assms by (simp add: unat_of_nat)
  ultimately have "a = base + of_nat n \<longleftrightarrow> unat (a - base) = n" by auto
  then show ?thesis by (auto simp: in_region_def)
qed

lemma disjoint_regions_not_in:
  assumes "disjoint_regions a n b k" "in_region x a n" "unat (b - a) + k \<le> 2 ^ 64"
  shows "\<not> in_region x b k"
proof
  assume "in_region x b k"
  then obtain j where j: "j < k" "x = b + of_nat j" by (rule in_regionE)
  then have eq: "x - a = (b - a) + of_nat j" by simp
  have "unat ((b - a) + of_nat j) = unat (b - a) + j"
    using j(1) assms(3) by (simp add: unat_word_ariths unat_of_nat)
  then have "n \<le> unat (x - a)"
    unfolding eq using assms(1) by (simp add: disjoint_regions_def)
  with assms(2) show False by (simp add: in_region_def)
qed

section \<open>memset and memcpy\<close>

lemma memset_fold:
  "k \<le> 2 ^ 64 \<Longrightarrow>
   fold (\<lambda>i m. m(dst + of_nat i := v)) [0..<k] m a = (if in_region a dst k then v else m a)"
proof (induction k)
  case 0
  then show ?case by simp
next
  case (Suc k)
  then have "k < 2 ^ 64" by simp
  from in_region_Suc [OF this] Suc show ?case by auto
qed

lemma memset_apply:
  "memset m dst c n a = (if in_region a dst (unat n) then ucast c else m a)"
  using unat_lt_2p [of n] by (simp add: memset_def memset_fold)

lemma memcpy_loop_outside:
  "n \<le> 2 ^ 64 \<Longrightarrow> \<not> in_region a d n \<Longrightarrow> memcpy_loop n d s m a = m a"
proof (induction n arbitrary: d s m)
  case 0
  then show ?case by simp
next
  case (Suc n)
  have "a \<noteq> d" using Suc.prems(2) by (auto simp: in_region_def)
  moreover have "\<not> in_region a (d + 1) n"
  proof
    assume "in_region a (d + 1) n"
    then obtain i where "i < n" "a = d + of_nat (Suc i)"
      by (auto elim: in_regionE simp: algebra_simps)
    then have "in_region a d (Suc n)"
      using Suc.prems(1) in_region_offset [of "Suc n" "Suc i" d] by simp
    with Suc.prems(2) show False ..
  qed
  ultimately show ?case using Suc by simp
qed

lemma memcpy_loop_copies:
  assumes "n \<le> 2 ^ 64" "\<And>i j. i < n \<Longrightarrow> j < n \<Longrightarrow> d + of_nat i \<noteq> s + of_nat j"
  shows "mem_bytes (memcpy_loop n d s m) d n = mem_bytes m s n"
  using assms
proof (induction n arbitrary: d s m)
  case 0
  then show ?case by (simp add: mem_bytes_def)
next
  case (Suc n)
  define m1 where "m1 = m(d := m s)"
  have "d + 1 + of_nat i \<noteq> s + 1 + of_nat j" if "i < n" "j < n" for i j
    using Suc.prems(2) [of "Suc i" "Suc j"] that by (simp add: algebra_simps)
  then have IH: "mem_bytes (memcpy_loop n (d + 1) (s + 1) m1) (d + 1) n = mem_bytes m1 (s + 1) n"
    using Suc.IH [of "d + 1" "s + 1" m1] Suc.prems(1) by simp
  have "mem_bytes m1 (s + 1) n = mem_bytes m (s + 1) n"
  proof (rule mem_bytes_cong)
    fix i
    assume "i < n"
    then show "m1 (s + 1 + of_nat i) = m (s + 1 + of_nat i)"
      using Suc.prems(2) [of 0 "Suc i"] by (simp add: m1_def algebra_simps)
  qed
  moreover have "memcpy_loop n (d + 1) (s + 1) m1 d = m s"
  proof (subst memcpy_loop_outside)
    show "n \<le> 2 ^ 64" using Suc.prems(1) by simp
    show "\<not> in_region d (d + 1) n"
      using Suc.prems(1)
      by (simp add: in_region_def unsigned_minus_1_eq_mask mask_eq_exp_minus_1)
  qed (simp add: m1_def)
  ultimately show ?case by (simp add: mem_bytes_Suc IH m1_def [symmetric])
qed

section \<open>String routines\<close>

lemma c_string_at_Nil [simp]: "c_string_at m s [] \<longleftrightarrow> m s = 0"
  by (simp add: c_string_at_def mem_bytes_Suc mem_bytes_def)

lemma c_string_at_Cons:
  "c_string_at m s (x # xs) \<longleftrightarrow> x \<noteq> 0 \<and> m s = x \<and> c_string_at m (s + 1) xs"
  by (auto simp: c_string_at_def mem_bytes_Suc [of m s])

lemma scast_of_nat_small:
  assumes "n < 2 ^ 31"
  shows "(scast (of_nat n :: c_int) :: u64) = of_nat n"
proof -
  have "sint (of_nat n :: c_int) = int n"
    using assms by (simp add: sint_eq_unat unat_of_nat)
  then have "(word_of_int (sint (of_nat n :: c_int)) :: u64) = of_nat n" by simp
  then show ?thesis by simp
qed

lemma strlen_loop_string:
  "c_string_at m (s + of_nat n) xs \<Longrightarrow> n + length xs < 2 ^ 31 \<Longrightarrow>
   strlen_loop m s (of_nat n) = Some (of_nat (n + length xs))"
proof (induction xs arbitrary: n)
  case Nil
  then show ?case by (subst strlen_loop.simps) (simp add: scast_of_nat_small)
next
  case (Cons x xs)
  then have "c_string_at m (s + of_nat (Suc n)) xs" "m (s + of_nat n) \<noteq> 0"
    by (auto simp: c_string_at_Cons algebra_simps)
  with Cons.prems Cons.IH [of "Suc n"] show ?case
    by (subst strlen_loop.simps) (simp add: scast_of_nat_small algebra_simps)
qed

lemma strlen_string:
  "c_string_at m s xs \<Longrightarrow> length xs < 2 ^ 31 \<Longrightarrow> strlen m s = Inr (of_nat (length xs))"
  using strlen_loop_string [of m s 0 xs] by (simp add: strlen_def)

lemma strcpy_loop_memcpy:
  "c_string_at m s xs \<Longrightarrow> length xs < 2 ^ 64 \<Longrightarrow>
   (\<And>i j. i \<le> length xs \<Longrightarrow> j \<le> length xs \<Longrightarrow> d + of_nat i \<noteq> s + of_nat j) \<Longrightarrow>
   strcpy_loop d s m = Some (memcpy_loop (Suc (length xs)) d s m)"
proof (induction xs arbitrary: d s m)
  case Nil
  then show ?case by (subst strcpy_loop.simps) simp
next
  case (Cons x xs)
  define m1 where "m1 = m(d := m s)"
  have x: "x \<noteq> 0" "m s = x" "c_string_at m (s + 1) xs"
    using Cons.prems(1) by (auto simp: c_string_at_Cons)
  have "mem_bytes m1 (s + 1) (Suc (length xs)) = mem_bytes m (s + 1) (Suc (length xs))"
  proof (rule mem_bytes_cong)
    fix i
    assume "i < Suc (length xs)"
    then show "m1 (s + 1 + of_nat i) = m (s + 1 + of_nat i)"
      using Cons.prems(3) [of 0 "Suc i"] by (simp add: m1_def algebra_simps)
  qed
  with x(3) have "c_string_at m1 (s + 1) xs" by (simp add: c_string_at_def)
  moreover have "d + 1 + of_nat i \<noteq> s + 1 + of_nat j" if "i \<le> length xs" "j \<le> length xs" for i j
    using Cons.prems(3) [of "Suc i" "Suc j"] that by (simp add: algebra_simps)
  ultimately have "strcpy_loop (d + 1) (s + 1) m1
      = Some (memcpy_loop (Suc (length xs)) (d + 1) (s + 1) m1)"
    using Cons.IH [of m1 "s + 1" "d + 1"] Cons.prems(2) by simp
  moreover have "strcpy_loop d s m = strcpy_loop (d + 1) (s + 1) m1"
    using x(1,2) by (subst strcpy_loop.simps) (auto simp: Let_def m1_def)
  moreover have "memcpy_loop (Suc (length (x # xs))) d s m
      = memcpy_loop (Suc (length xs)) (d + 1) (s + 1) m1"
    by (simp add: m1_def)
  ultimately show ?case by (simp only:)
qed

lemma strcpy_string:
  assumes "c_string_at m src xs" "length xs < 2 ^ 64 - 1"
    and "\<And>i j. i \<le> length xs \<Longrightarrow> j \<le> length xs \<Longrightarrow> dst + of_nat i \<noteq> src + of_nat j"
  shows "\<exists>m'. strcpy m dst src = Inr m' \<and> c_string_at m' dst xs
    \<and> (\<forall>a. \<not> in_region a dst (Suc (length xs)) \<longrightarrow> m' a = m a)"
proof (intro exI conjI)
  let ?m' = "memcpy_loop (Suc (length xs)) dst src m"
  show "strcpy m dst src = Inr ?m'"
    using strcpy_loop_memcpy [OF assms(1) _ assms(3)] assms(2)
    by (simp add: strcpy_def del: memcpy_loop.simps)
  have "mem_bytes ?m' dst (Suc (length xs)) = mem_bytes m src (Suc (length xs))"
    by (rule memcpy_loop_copies) (use assms(2,3) in auto)
  then show "c_string_at ?m' dst xs"
    using assms(1) by (simp add: c_string_at_def del: memcpy_loop.simps)
  show "\<forall>a. \<not> in_region a dst (Suc (length xs)) \<longrightarrow> ?m' a = m a"
    using assms(2) by (auto simp: memcpy_loop_outside simp del: memcpy_loop.simps)
qed

end
