(* ===== verification/Virtual_Memory.thy ===== *)
theory Virtual_Memory
  imports C_Lib Console
begin

unbundle bit_operations_syntax

text \<open>
  kernel/virtual_memory.c: the segment descriptors, the table of physical frames and the
  four-level page tables. Physical memory is the flat byte memory of \<open>C_Lib\<close>; a page
  table entry is a little-endian 64-bit value in it. Addresses that the linker chooses
  (the page tables, the end of the kernel image) are parameters. \<open>cr0\<close>, \<open>cr3\<close> and the
  descriptor table register are fields of the state, since the source only sets them.
\<close>

section \<open>Constants\<close>

abbreviation (input) PAGE_SIZE :: u64 where "PAGE_SIZE \<equiv> 4096"
abbreviation (input) MEM_SIZE :: u64 where "MEM_SIZE \<equiv> 0x400000"
abbreviation (input) FRAME_NUMBER :: nat where "FRAME_NUMBER \<equiv> 1024"
abbreviation (input) KERNEL_START :: u64 where "KERNEL_START \<equiv> 0x40000"
abbreviation (input) KERNEL_STACK_TOP :: u64 where "KERNEL_STACK_TOP \<equiv> 0x80000"
abbreviation (input) IOPHYSMEM :: u64 where "IOPHYSMEM \<equiv> 0xA0000"
abbreviation (input) EXTPHYSMEM :: u64 where "EXTPHYSMEM \<equiv> 0x100000"

abbreviation (input) PO_FREE :: u8 where "PO_FREE \<equiv> 0"
abbreviation (input) PO_RESERVED :: u8 where "PO_RESERVED \<equiv> - 1"
abbreviation (input) PO_KERNEL :: u8 where "PO_KERNEL \<equiv> - 2"

abbreviation (input) PTE_P :: u64 where "PTE_P \<equiv> 1"
abbreviation (input) PTE_W :: u64 where "PTE_W \<equiv> 2"
abbreviation (input) PTE_U :: u64 where "PTE_U \<equiv> 4"

abbreviation (input) X86SEG_S :: u64 where "X86SEG_S \<equiv> push_bit 44 1"
abbreviation (input) X86SEG_P :: u64 where "X86SEG_P \<equiv> push_bit 47 1"
abbreviation (input) X86SEG_L :: u64 where "X86SEG_L \<equiv> push_bit 53 1"
abbreviation (input) X86SEG_W :: u64 where "X86SEG_W \<equiv> push_bit 40 2"
abbreviation (input) X86SEG_X :: u64 where "X86SEG_X \<equiv> push_bit 40 8"
abbreviation (input) X86SEG_TSS :: u64 where "X86SEG_TSS \<equiv> push_bit 40 9"

section \<open>State\<close>

record frame_info =
  owner :: u8
  refcount :: u8

record tss =
  reserved0 :: u32
  rsp0 :: u64
  rsp1 :: u64
  rsp2 :: u64
  reserved1 :: u64
  ist :: "u64 list"
  reserved2 :: u64
  reserved3 :: u16
  iopb_offset :: u16

definition zero_tss :: tss where
  "zero_tss = \<lparr>reserved0 = 0, rsp0 = 0, rsp1 = 0, rsp2 = 0, reserved1 = 0, ist = replicate 7 0,
     reserved2 = 0, reserved3 = 0, iopb_offset = 0\<rparr>"

record pseudodescriptor =
  pseudod_limit :: u16
  pseudod_base :: u64

record vm =
  memory :: mem
  frames_info :: "frame_info list"
  segments :: "u64 list"
  kernel_task_descriptor :: tss
  gdt :: pseudodescriptor
  cr0 :: u64
  cr3 :: u64

text \<open>The addresses the linker gives to the objects whose address the code takes.\<close>

record layout =
  kernel_pagetables :: u64
  tss_address :: u64
  segments_address :: u64
  kernel_end :: u64

section \<open>Segments\<close>

definition set_app_segment :: "u64 \<Rightarrow> c_int \<Rightarrow> u64" where
  "set_app_segment type dpl = type OR X86SEG_S OR push_bit 45 (scast dpl) OR X86SEG_P"

definition set_sys_segment :: "u64 \<Rightarrow> c_int \<Rightarrow> u64 \<Rightarrow> u64 \<Rightarrow> u64 \<times> u64" where
  "set_sys_segment type dpl addr sz =
     (push_bit 16 (addr AND 0xFFFFFF) OR push_bit 32 (addr AND 0xFF000000) OR
      ((sz - 1) AND 0xFFFF) OR push_bit 48 ((sz - 1) AND 0xF0000) OR
      type OR push_bit 45 (scast dpl) OR X86SEG_P,
      drop_bit 32 addr)"

text \<open>The two control registers. The upper half of \<open>cr0\<close> is reserved: it reads as 0, and the wrappers transfer the lower half.\<close>

definition rcr0 :: "vm \<Rightarrow> u32" where
  "rcr0 s = ucast (cr0 s)"

definition lcr0 :: "u32 \<Rightarrow> vm \<Rightarrow> vm" where
  "lcr0 val s = s\<lparr>cr0 := ucast val\<rparr>"

definition lcr3 :: "u64 \<Rightarrow> vm \<Rightarrow> vm" where
  "lcr3 val s = s\<lparr>cr3 := val\<rparr>"

definition segments_init :: "layout \<Rightarrow> vm \<Rightarrow> vm" where
  "segments_init L s =
     (let (ts0, ts1) = set_sys_segment X86SEG_TSS 0 (tss_address L) 104 in
      lcr0 (rcr0 s OR (0x1 OR 0x80000000 OR 0x10000 OR 0x40000 OR 0x2 OR 0x20)) (s\<lparr>segments :=
          [0, set_app_segment (X86SEG_X OR X86SEG_L) 0, set_app_segment (X86SEG_X OR X86SEG_L) 3,
           set_app_segment X86SEG_W 0, set_app_segment X86SEG_W 3, ts0, ts1],
        kernel_task_descriptor := zero_tss\<lparr>rsp0 := KERNEL_STACK_TOP, iopb_offset := 104\<rparr>,
        gdt := \<lparr>pseudod_limit = 7 * 8 - 1, pseudod_base = segments_address L\<rparr>\<rparr>))"

section \<open>Frames\<close>

definition physical_memory_isreserved :: "u64 \<Rightarrow> bool" where
  "physical_memory_isreserved pa \<longleftrightarrow> pa = 0 \<or> IOPHYSMEM \<le> pa \<and> pa < EXTPHYSMEM"

definition find_free_frame :: "vm \<Rightarrow> int" where
  "find_free_frame s =
     (case find (\<lambda>i. owner (frames_info s ! i) = PO_FREE) [0..<FRAME_NUMBER] of
        Some i \<Rightarrow> int i | None \<Rightarrow> - 1)"

definition alloc_frame :: "u8 \<Rightarrow> vm \<Rightarrow> (u64 \<times> vm) result" where
  "alloc_frame own s =
     (let frame = find_free_frame s in
      bind (kassert (0 \<le> frame) ''No free frame available'') (\<lambda>_.
      let phys = word_of_int (frame * 4096);
          i = nat frame;
          f = frames_info s ! i
      in Inr (phys,
           s\<lparr>memory := memset (memory s) phys 0 PAGE_SIZE,
             frames_info := (frames_info s)[i := f\<lparr>owner := own, refcount := refcount f + 1\<rparr>]\<rparr>)))"

definition assign_physical_page :: "u64 \<Rightarrow> u8 \<Rightarrow> vm \<Rightarrow> c_int \<times> vm" where
  "assign_physical_page addr own s =
     (if addr AND 0xFFF \<noteq> 0 \<or> MEM_SIZE \<le> addr
        \<or> refcount (frames_info s ! unat (addr div PAGE_SIZE)) \<noteq> 0 then (- 1, s)
      else (0, s\<lparr>frames_info := (frames_info s)[unat (addr div PAGE_SIZE) := \<lparr>owner = own, refcount = 1\<rparr>],
                 memory := memset (memory s) addr 0 PAGE_SIZE\<rparr>))"

definition frame_owner :: "layout \<Rightarrow> u64 \<Rightarrow> u8" where
  "frame_owner L addr =
     (if physical_memory_isreserved addr then PO_RESERVED
      else if KERNEL_START \<le> addr \<and> addr < kernel_end L then PO_KERNEL
      else PO_FREE)"

definition init_framing :: "layout \<Rightarrow> vm \<Rightarrow> vm" where
  "init_framing L s =
     fold (\<lambda>frame s.
       let own = frame_owner L (of_nat frame * PAGE_SIZE) in
       s\<lparr>frames_info := (frames_info s)[frame := \<lparr>owner = own, refcount = (if own \<noteq> PO_FREE then 1 else 0)\<rparr>]\<rparr>)
     [0..<FRAME_NUMBER] s"

section \<open>Page tables\<close>

definition load64 :: "mem \<Rightarrow> u64 \<Rightarrow> u64" where
  "load64 m a = of_nat (le_dec (mem_bytes m a 8))"

definition store64 :: "mem \<Rightarrow> u64 \<Rightarrow> u64 \<Rightarrow> mem" where
  "store64 m a v = (\<lambda>x. if in_region x a 8 then le_enc 8 (unat v) ! unat (x - a) else m x)"

definition pml4_index :: "u64 \<Rightarrow> nat" where
  "pml4_index addr = unat (drop_bit 39 addr AND 0x1FF)"

definition pdpt_index :: "u64 \<Rightarrow> nat" where
  "pdpt_index addr = unat (drop_bit 30 addr AND 0x1FF)"

definition pd_index :: "u64 \<Rightarrow> nat" where
  "pd_index addr = unat (drop_bit 21 addr AND 0x1FF)"

definition pt_index :: "u64 \<Rightarrow> nat" where
  "pt_index addr = unat (drop_bit 12 addr AND 0x1FF)"

text \<open>The address of entry \<open>i\<close> of a table, \<open>&table->pages[i]\<close>.\<close>

definition entry_addr :: "u64 \<Rightarrow> nat \<Rightarrow> u64" where
  "entry_addr table i = table + of_nat (8 * i)"

text \<open>
  One level of \<open>get_page\<close>: follow the entry, or allocate a table for it. A returned 0 is
  the null pointer, with which \<open>get_page\<close> returns at once.
\<close>

definition next_table ::
  "u64 \<Rightarrow> nat \<Rightarrow> (vm \<Rightarrow> u64 \<times> vm) option \<Rightarrow> vm \<Rightarrow> u64 option \<times> vm" where
  "next_table table i allocator s =
     (let e = load64 (memory s) (entry_addr table i) in
      if e AND PTE_P = 0 then
        (case allocator of
           None \<Rightarrow> (None, s)
         | Some f \<Rightarrow>
             let (t, s) = f s in
             if t = 0 then (None, s)
             else
               let s = s\<lparr>memory := store64 (memory s) (entry_addr table i) ((t AND NOT 0xFFF) OR PTE_P OR PTE_W)\<rparr>
               in (Some t, s\<lparr>memory := memset (memory s) t 0 PAGE_SIZE\<rparr>))
      else (Some (e AND NOT 0xFFF), s))"

definition get_page ::
  "u64 \<Rightarrow> u64 \<Rightarrow> (vm \<Rightarrow> u64 \<times> vm) option \<Rightarrow> vm \<Rightarrow> u64 \<times> vm" where
  "get_page pml4 addr allocator s =
     (case next_table pml4 (pml4_index addr) allocator s of
        (None, s) \<Rightarrow> (0, s)
      | (Some pdpt, s) \<Rightarrow>
     (case next_table pdpt (pdpt_index addr) allocator s of
        (None, s) \<Rightarrow> (0, s)
      | (Some pd, s) \<Rightarrow>
     (case next_table pd (pd_index addr) allocator s of
        (None, s) \<Rightarrow> (0, s)
      | (Some pt, s) \<Rightarrow> (entry_addr pt (pt_index addr), s))))"

definition map_page ::
  "u64 \<Rightarrow> u64 \<Rightarrow> u64 \<Rightarrow> u64 \<Rightarrow> (vm \<Rightarrow> u64 \<times> vm) option \<Rightarrow> vm \<Rightarrow> vm result" where
  "map_page pml4 virt phys flags allocator s =
     (let (page, s) = get_page pml4 virt allocator s in
      bind (kassert (page \<noteq> 0) (CHR ''C'' # CHR 0x27 # ''est NULL'')) (\<lambda>_.
      Inr (s\<lparr>memory := store64 (memory s) page ((phys AND NOT 0xFFF) OR flags)\<rparr>)))"

definition change_pagetable :: "u64 \<Rightarrow> vm \<Rightarrow> vm" where
  "change_pagetable page_table s = lcr3 page_table s"

lemma change_pagetable_eq: "change_pagetable page_table s = s\<lparr>cr3 := page_table\<rparr>"
  by (simp add: change_pagetable_def lcr3_def)

definition init_tables :: "layout \<Rightarrow> vm \<Rightarrow> vm" where
  "init_tables L s =
     (let K = kernel_pagetables L;
          flags = PTE_P OR PTE_W OR PTE_U;
          s = s\<lparr>memory := memset (memory s) K 0 (5 * PAGE_SIZE)\<rparr>;
          s = s\<lparr>memory := store64 (memory s) (entry_addr K 0) ((K + PAGE_SIZE) OR flags)\<rparr>;
          s = s\<lparr>memory := store64 (memory s) (entry_addr (K + PAGE_SIZE) 0) ((K + 2 * PAGE_SIZE) OR flags)\<rparr>
      in fold (\<lambda>i s. s\<lparr>memory := store64 (memory s) (entry_addr (K + 2 * PAGE_SIZE) i)
                 ((K + of_nat (i + 3) * PAGE_SIZE) OR flags)\<rparr>) [0..<2] s)"

primrec map_pages :: "u64 \<Rightarrow> u64 list \<Rightarrow> u64 \<Rightarrow> vm \<Rightarrow> vm result" where
  "map_pages pml4 [] flags s = Inr s"
| "map_pages pml4 (a # as) flags s =
     bind (map_page pml4 a a flags None s) (\<lambda>s. map_pages pml4 as flags s)"

definition init_virtual_memory :: "layout \<Rightarrow> vm \<Rightarrow> vm result" where
  "init_virtual_memory L s =
     (let s = init_tables L (segments_init L s); K = kernel_pagetables L in
      bind (map_pages K (map (\<lambda>i. of_nat i * PAGE_SIZE) [0..<FRAME_NUMBER]) (PTE_P OR PTE_W) s) (\<lambda>s.
      bind (map_page K 0 0 PTE_P None s) (\<lambda>s.
      Inr (init_framing L (change_pagetable K s)))))"

definition pagefault_handler :: "u64 \<Rightarrow> 'a result" where
  "pagefault_handler addr = Inl (Panic ''PAGE FAULT'')"

section \<open>Stores with an index\<close>

text \<open>
  The contract of an array in memory: the page table entries and the frame table are two
  instances. A run of writes at distinct places is what both initialisation loops do.
\<close>

locale indexed_store =
  fixes rd :: "'s \<Rightarrow> nat \<Rightarrow> 'v"
    and wr :: "nat \<Rightarrow> 'v \<Rightarrow> 's \<Rightarrow> 's"
    and ok :: "'s \<Rightarrow> bool"
    and n :: nat
  assumes rd_wr: "ok s \<Longrightarrow> i < n \<Longrightarrow> j < n \<Longrightarrow> rd (wr i v s) j = (if j = i then v else rd s j)"
    and ok_wr: "ok s \<Longrightarrow> ok (wr i v s)"
begin

lemma fold_wr:
  assumes "ok s" "inj g" "\<And>i. i \<in> set xs \<Longrightarrow> g i < n"
  shows "k < n \<Longrightarrow> k \<notin> g ` set xs \<Longrightarrow> rd (fold (\<lambda>i. wr (g i) (f i)) xs s) k = rd s k"
    and "j \<in> set xs \<Longrightarrow> rd (fold (\<lambda>i. wr (g i) (f i)) xs s) (g j) = f j"
proof -
  have other: "rd (fold (\<lambda>i. wr (g i) (f i)) xs s) k = rd s k"
    if "ok s" "\<And>i. i \<in> set xs \<Longrightarrow> g i < n" "k < n" "k \<notin> g ` set xs" for s k xs
    using that by (induction xs arbitrary: s) (auto simp: ok_wr rd_wr)
  show "k < n \<Longrightarrow> k \<notin> g ` set xs \<Longrightarrow> rd (fold (\<lambda>i. wr (g i) (f i)) xs s) k = rd s k"
    using other [OF assms(1,3)] .
  show "j \<in> set xs \<Longrightarrow> rd (fold (\<lambda>i. wr (g i) (f i)) xs s) (g j) = f j"
    using assms(1,3)
  proof (induction xs arbitrary: s)
    case (Cons x xs)
    show ?case
    proof (cases "j \<in> set xs")
      case True
      then show ?thesis using Cons by (simp add: ok_wr)
    next
      case False
      then have "g j \<notin> g ` set xs" using assms(2) by (simp add: inj_image_mem_iff)
      then show ?thesis using False Cons.prems other [of "wr (g x) (f x) s" xs "g j"]
        by (auto simp: ok_wr rd_wr)
    qed
  qed simp
qed

lemma ok_fold_wr: "ok s \<Longrightarrow> ok (fold (\<lambda>i. wr (g i) (f i)) xs s)"
  by (induction xs arbitrary: s) (simp_all add: ok_wr)

end

section \<open>Words in memory\<close>

lemma mem_bytes_store64: "mem_bytes (store64 m a v) a 8 = le_enc 8 (unat v)"
  by (intro nth_equalityI) (simp_all add: store64_def unat_of_nat)

lemma load_store64: "load64 (store64 m a v) a = v"
  using unat_lt_2p [of v] by (simp add: load64_def mem_bytes_store64 le_dec_enc)

lemma load64_cong: "(\<And>i. i < 8 \<Longrightarrow> m (a + of_nat i) = m' (a + of_nat i)) \<Longrightarrow> load64 m a = load64 m' a"
  using mem_bytes_cong [of 8 m a m'] by (simp add: load64_def)

lemma entries_disjoint:
  assumes "i < 2560" "j < 2560" "i \<noteq> j" "b < 8"
  shows "\<not> in_region (entry_addr K j + of_nat b) (entry_addr K i) 8"
proof
  assume "in_region (entry_addr K j + of_nat b) (entry_addr K i) 8"
  then obtain k where k: "k < 8" "entry_addr K j + of_nat b = entry_addr K i + of_nat k"
    by (rule in_regionE)
  then have "K + of_nat (8 * j + b) = K + of_nat (8 * i + k)"
    by (simp add: entry_addr_def add.assoc)
  then have "8 * j + b = 8 * i + k"
    using offset_inj [of "8 * j + b" "8 * i + k" K] assms k(1) by simp
  then have "(8 * j + b) div 8 = (8 * i + k) div 8" by simp
  with assms(3,4) k(1) show False by simp
qed

interpretation entries: indexed_store "\<lambda>m i. load64 m (entry_addr K i)"
  "\<lambda>i v m. store64 m (entry_addr K i) v" "\<lambda>_. True" 2560
  for K
proof
  fix m :: mem and i j :: nat and v
  assume "i < 2560" "j < 2560"
  then show "load64 (store64 m (entry_addr K i) v) (entry_addr K j) =
      (if j = i then v else load64 m (entry_addr K j))"
  proof (cases "j = i")
    case False
    then have "load64 (store64 m (entry_addr K i) v) (entry_addr K j) = load64 m (entry_addr K j)"
      using entries_disjoint [of i j _ K] \<open>i < 2560\<close> \<open>j < 2560\<close>
      by (intro load64_cong) (simp add: store64_def)
    with False show ?thesis by simp
  qed (simp add: load_store64)
qed simp

interpretation frames: indexed_store "\<lambda>s i. frames_info s ! i"
  "\<lambda>i v s. s\<lparr>frames_info := (frames_info s)[i := v]\<rparr>" "\<lambda>s. length (frames_info s) = FRAME_NUMBER" FRAME_NUMBER
  by unfold_locales auto

lemma load64_memset:
  assumes "i < 512 * k" "k \<le> 5"
  shows "load64 (memset m K 0 (of_nat k * PAGE_SIZE)) (entry_addr K i) = 0"
proof -
  have n: "unat (of_nat k * PAGE_SIZE) = k * 4096" using assms(2) by (simp add: unat_word_ariths unat_of_nat)
  have "mem_bytes (memset m K 0 (of_nat k * PAGE_SIZE)) (entry_addr K i) 8 = replicate 8 0"
  proof (intro nth_equalityI)
    fix b
    assume "b < length (mem_bytes (memset m K 0 (of_nat k * PAGE_SIZE)) (entry_addr K i) 8)"
    then have b: "b < 8" by simp
    have "in_region (K + of_nat (8 * i + b)) K (k * 4096)"
      using assms b by (intro in_region_offset) auto
    then show "mem_bytes (memset m K 0 (of_nat k * PAGE_SIZE)) (entry_addr K i) 8 ! b = replicate 8 0 ! b"
      using b by (simp add: memset_apply n entry_addr_def add.assoc)
  qed simp
  then show ?thesis by (simp add: load64_def numeral_eq_Suc)
qed

section \<open>The kernel's page tables\<close>

text \<open>
  The five tables of \<open>kernel_pagetables\<close> are one array of 2560 entries: the first three
  tables are entries 0, 512 and 1024 onwards, and the 1024 leaf entries start at 1536.
\<close>

definition layout_ok :: "layout \<Rightarrow> bool" where
  "layout_ok L \<longleftrightarrow> kernel_pagetables L AND 0xFFF = 0 \<and> KERNEL_START \<le> kernel_pagetables L \<and>
     unat (kernel_pagetables L) + 0x5000 \<le> unat (kernel_end L) \<and> kernel_end L \<le> IOPHYSMEM"

definition upper_tables :: "u64 \<Rightarrow> mem \<Rightarrow> bool" where
  "upper_tables K m \<longleftrightarrow>
     (\<forall>i < 1536. load64 m (entry_addr K i) =
        (if i = 0 then (K + PAGE_SIZE) OR 7 else if i = 512 then (K + 2 * PAGE_SIZE) OR 7
         else if i = 1024 then (K + 3 * PAGE_SIZE) OR 7 else if i = 1025 then (K + 4 * PAGE_SIZE) OR 7 else 0))"

definition leaf :: "u64 \<Rightarrow> mem \<Rightarrow> nat \<Rightarrow> u64" where
  "leaf K m i = load64 m (entry_addr K (1536 + i))"

text \<open>
  The processor's walk: the physical address of a virtual one with the permissions, which
  every level has to grant.
\<close>

definition pte_address :: "u64 \<Rightarrow> u64" where
  "pte_address e = e AND 0xFFFFFFFFFF000"

definition translate :: "mem \<Rightarrow> u64 \<Rightarrow> u64 \<Rightarrow> (u64 \<times> bool \<times> bool) option" where
  "translate m root va =
     (let e4 = load64 m (entry_addr root (pml4_index va)) in if e4 AND PTE_P = 0 then None else
      let e3 = load64 m (entry_addr (pte_address e4) (pdpt_index va)) in if e3 AND PTE_P = 0 then None else
      let e2 = load64 m (entry_addr (pte_address e3) (pd_index va)) in if e2 AND PTE_P = 0 then None else
      let e1 = load64 m (entry_addr (pte_address e2) (pt_index va)) in if e1 AND PTE_P = 0 then None else
      Some (pte_address e1 + (va AND 0xFFF),
            e4 AND e3 AND e2 AND e1 AND PTE_W \<noteq> 0, e4 AND e3 AND e2 AND e1 AND PTE_U \<noteq> 0))"

subsection \<open>Entries and indices\<close>

lemma mask_12: "(0xFFF :: u64) = mask 12"
  by (simp add: mask_eq_exp_minus_1)

lemma and_0xFFF: "(a :: u64) AND 0xFFF = a mod 4096"
proof -
  have "a AND mask 12 = a mod 2 ^ 12" by (simp add: take_bit_eq_mod flip: take_bit_eq_mask)
  then show ?thesis by (simp add: mask_12 [symmetric])
qed

lemma aligned_table:
  assumes "(K :: u64) AND 0xFFF = 0"
  shows "(K + of_nat k * 4096) AND 0xFFF = 0"
proof -
  have m: "(x mod 2 ^ LENGTH(64)) mod 4096 = x mod (4096 :: nat)" for x by (rule mod_mod_cancel) simp
  have "unat (K mod 4096) = 0" using assms by (simp add: and_0xFFF)
  then have K: "4096 dvd unat K" by (simp add: unat_mod dvd_eq_mod_eq_0)
  have "unat (x * 4096 :: u64) mod 4096 = 0" for x
    using m [of "unat x * unat (4096 :: u64)"] by (simp only: unat_word_ariths(2)) simp
  then have "4096 dvd unat (of_nat k * 4096 :: u64)" by (simp only: dvd_eq_mod_eq_0)
  with K have "4096 dvd unat K + unat (of_nat k * 4096 :: u64)" by (rule dvd_add)
  then have "unat (K + of_nat k * 4096) mod 4096 = 0"
    using m [of "unat K + unat (of_nat k * 4096 :: u64)"]
    by (simp only: unat_word_ariths(1) dvd_eq_mod_eq_0)
  then have "unat ((K + of_nat k * 4096) mod 4096) = 0" by (simp add: unat_mod)
  then show ?thesis by (simp add: and_0xFFF word_unat_eq_iff)
qed

lemma aligned_not_mask: "(t :: u64) AND 0xFFF = 0 \<Longrightarrow> t AND NOT 0xFFF = t"
proof -
  assume "t AND 0xFFF = 0"
  moreover have "t = (t AND 0xFFF) OR (t AND NOT 0xFFF)"
    by (simp flip: bit.conj_disj_distrib)
  ultimately show ?thesis by simp
qed

lemma pte_address_eq: "pte_address e = take_bit 52 e AND NOT 0xFFF"
proof -
  have "(0xFFFFFFFFFF000 :: u64) = mask 52 AND NOT 0xFFF" by (simp add: mask_eq_exp_minus_1)
  then show ?thesis by (simp add: pte_address_def take_bit_eq_mask and.assoc)
qed

lemma small_take_bit: "unat (t :: u64) < 2 ^ 52 \<Longrightarrow> take_bit 52 t = t"
  by (simp add: word_unat_eq_iff unsigned_take_bit_eq take_bit_nat_eq_self)

text \<open>A table entry built from an aligned address below \<open>2 ^ 52\<close> and flag bits.\<close>

lemma table_entry:
  assumes "(t :: u64) AND 0xFFF = 0" "unat t < 2 ^ 52"
  shows "(t OR 7) AND NOT 0xFFF = t" "pte_address (t OR 7) = t"
    "(t OR 7) AND PTE_P \<noteq> 0" "(t OR 7) AND x AND PTE_W = x AND PTE_W" "(t OR 7) AND x AND PTE_U = x AND PTE_U"
proof -
  have t: "t AND NOT 0xFFF = t" by (rule aligned_not_mask [OF assms(1)])
  have seven: "(7 :: u64) AND NOT 0xFFF = 0" by simp
  show e: "(t OR 7) AND NOT 0xFFF = t" by (simp only: bit.conj_disj_distrib2 t seven bit.disj_zero_right)
  have "take_bit 52 (t OR 7) = t OR 7" using small_take_bit [OF assms(2)] by (simp add: take_bit_or)
  then show "pte_address (t OR 7) = t" by (simp only: pte_address_eq e)
  show "(t OR 7) AND PTE_P \<noteq> 0" by (simp add: bit.conj_disj_distrib2)
  have "(t OR 7) AND PTE_W = PTE_W" "(t OR 7) AND PTE_U = PTE_U"
    by (simp_all add: bit.conj_disj_distrib2 word_ao_absorbs)
  then show "(t OR 7) AND x AND PTE_W = x AND PTE_W" "(t OR 7) AND x AND PTE_U = x AND PTE_U"
    by (metis and.assoc and.commute)+
qed

lemma unat_index: "unat (drop_bit n (a :: u64) AND 0x1FF) = unat a div 2 ^ n mod 512"
proof -
  have "(0x1FF :: u64) = mask 9" by (simp add: mask_eq_exp_minus_1)
  then have "drop_bit n a AND 0x1FF = take_bit 9 (drop_bit n a)" by (simp add: take_bit_eq_mask)
  then show ?thesis by (simp add: take_bit_eq_mod unat_mod unat_shiftr)
qed

lemma kernel_indices:
  assumes "va < MEM_SIZE"
  shows "pml4_index va = 0" "pdpt_index va = 0" "pd_index va < 2"
    "512 * pd_index va + pt_index va = unat va div 4096"
proof -
  have lt: "unat va < 0x400000" using assms by (simp add: word_less_nat_alt)
  show "pml4_index va = 0" "pdpt_index va = 0"
    using lt by (simp_all add: pml4_index_def pdpt_index_def unat_index)
  have pd: "pd_index va = unat va div 0x200000"
    using lt by (simp add: pd_index_def unat_index)
  then show "pd_index va < 2" using lt by (simp add: less_mult_imp_div_less)
  have "unat va div 0x200000 = unat va div 4096 div 512" by (simp add: div_mult2_eq [symmetric])
  then show "512 * pd_index va + pt_index va = unat va div 4096"
    using pd by (simp add: pt_index_def unat_index)
qed

lemma entry_addr_table: "entry_addr (K + of_nat k * 4096) i = entry_addr K (512 * k + i)"
  by (simp add: entry_addr_def algebra_simps)

subsection \<open>Walking the kernel's tables\<close>

lemma layout_tables:
  assumes "layout_ok L" "k \<le> 5"
  shows "(kernel_pagetables L + of_nat k * 4096) AND 0xFFF = 0"
    "unat (kernel_pagetables L + of_nat k * 4096) = unat (kernel_pagetables L) + k * 4096"
    "unat (kernel_pagetables L) + k * 4096 < 2 ^ 52" "0 < unat (kernel_pagetables L)"
proof -
  have b: "unat (kernel_pagetables L) + 0x5000 \<le> 0xA0000" "0x40000 \<le> unat (kernel_pagetables L)"
    using assms(1) by (auto simp: layout_ok_def word_le_nat_alt)
  show "(kernel_pagetables L + of_nat k * 4096) AND 0xFFF = 0"
    using assms(1) by (intro aligned_table) (simp add: layout_ok_def)
  show "unat (kernel_pagetables L + of_nat k * 4096) = unat (kernel_pagetables L) + k * 4096"
    using b assms(2) by (simp add: unat_word_ariths unat_of_nat)
  show "unat (kernel_pagetables L) + k * 4096 < 2 ^ 52" "0 < unat (kernel_pagetables L)"
    using b assms(2) by simp_all
qed

lemma upper_entry:
  assumes "layout_ok L" "upper_tables (kernel_pagetables L) m" "i < 1536"
  shows "load64 m (entry_addr (kernel_pagetables L) i) =
    (if i = 0 then (kernel_pagetables L + of_nat 1 * 4096) OR 7
     else if i = 512 then (kernel_pagetables L + of_nat 2 * 4096) OR 7
     else if i = 1024 then (kernel_pagetables L + of_nat 3 * 4096) OR 7
     else if i = 1025 then (kernel_pagetables L + of_nat 4 * 4096) OR 7 else 0)"
  using assms(2,3) by (simp add: upper_tables_def)

lemma next_table_present:
  assumes "layout_ok L" "k \<le> 4"
    "load64 (memory s) (entry_addr t i) = (kernel_pagetables L + of_nat k * 4096) OR 7"
  shows "next_table t i alloc s = (Some (kernel_pagetables L + of_nat k * 4096), s)"
  using table_entry [OF layout_tables(1) [OF assms(1), of k]] layout_tables [OF assms(1), of k] assms(2,3)
  by (simp add: next_table_def Let_def del: word_not_simps)

lemma get_page_kernel:
  assumes "layout_ok L" "upper_tables (kernel_pagetables L) (memory s)" "va < MEM_SIZE"
  shows "get_page (kernel_pagetables L) va alloc s =
    (entry_addr (kernel_pagetables L) (1536 + unat va div 4096), s)"
proof -
  let ?K = "kernel_pagetables L"
  note ix = kernel_indices [OF assms(3)]
  note up = upper_entry [OF assms(1,2)]
  have 1: "next_table ?K (pml4_index va) alloc s = (Some (?K + of_nat 1 * 4096), s)"
    using up [of 0] ix by (intro next_table_present [OF assms(1)]) simp_all
  have 2: "next_table (?K + of_nat 1 * 4096) (pdpt_index va) alloc s = (Some (?K + of_nat 2 * 4096), s)"
    using up [of 512] ix by (intro next_table_present [OF assms(1)]) (simp_all only: entry_addr_table, simp_all)
  have 3: "next_table (?K + of_nat 2 * 4096) (pd_index va) alloc s = (Some (?K + of_nat (3 + pd_index va) * 4096), s)"
  proof (intro next_table_present [OF assms(1)])
    have "pd_index va = 0 \<or> pd_index va = 1" using ix(3) by linarith
    then show "load64 (memory s) (entry_addr (?K + of_nat 2 * 4096) (pd_index va)) =
        ?K + of_nat (3 + pd_index va) * 4096 OR 7"
      using up [of 1024] up [of 1025] by (auto simp only: entry_addr_table) simp_all
  qed (use ix(3) in simp)
  have "entry_addr (?K + of_nat (3 + pd_index va) * 4096) (pt_index va) = entry_addr ?K (1536 + unat va div 4096)"
    unfolding entry_addr_table ix(4) [symmetric] by (simp add: algebra_simps)
  with 1 2 3 show ?thesis by (simp add: get_page_def)
qed

lemma leaf_entry_nonzero:
  assumes "layout_ok L" "i < 1024"
  shows "entry_addr (kernel_pagetables L) (1536 + i) \<noteq> 0"
proof -
  have "unat (entry_addr (kernel_pagetables L) (1536 + i)) = unat (kernel_pagetables L) + 8 * (1536 + i)"
    using layout_tables(3) [OF assms(1), of 5] assms(2)
    by (simp add: entry_addr_def unat_word_ariths unat_of_nat del: of_nat_add of_nat_mult)
  then show ?thesis using layout_tables(4) [OF assms(1), of 0] by (metis add_is_0 less_numeral_extra(3) unat_0 zero_le)
qed

lemma frame_index: "va < MEM_SIZE \<Longrightarrow> unat va div 4096 < 1024"
  by (simp add: word_less_nat_alt less_mult_imp_div_less)

definition put_leaf :: "u64 \<Rightarrow> nat \<Rightarrow> u64 \<Rightarrow> mem \<Rightarrow> mem" where
  "put_leaf K i e m = store64 m (entry_addr K (1536 + i)) e"

lemma put_leaf:
  assumes "i < 1024"
  shows "upper_tables K (put_leaf K i e m) = upper_tables K m"
    "j < 1024 \<Longrightarrow> leaf K (put_leaf K i e m) j = (if j = i then e else leaf K m j)"
  using assms entries.rd_wr [of "1536 + i"]
  by (simp_all add: put_leaf_def upper_tables_def leaf_def cong: if_cong)

lemma map_page_kernel:
  assumes "layout_ok L" "upper_tables (kernel_pagetables L) (memory s)" "va < MEM_SIZE"
  shows "map_page (kernel_pagetables L) va pa fl alloc s = Inr (s\<lparr>memory :=
    put_leaf (kernel_pagetables L) (unat va div 4096) ((pa AND NOT 0xFFF) OR fl) (memory s)\<rparr>)"
  using get_page_kernel [OF assms, of alloc] leaf_entry_nonzero [OF assms(1) frame_index [OF assms(3)]]
  by (simp add: map_page_def kassert_def put_leaf_def)

lemma translate_walk:
  assumes "t1 AND 0xFFF = 0" "unat t1 < 2 ^ 52" "t2 AND 0xFFF = 0" "unat t2 < 2 ^ 52"
    "t3 AND 0xFFF = 0" "unat t3 < 2 ^ 52"
    "load64 m (entry_addr root (pml4_index va)) = t1 OR 7" "load64 m (entry_addr t1 (pdpt_index va)) = t2 OR 7"
    "load64 m (entry_addr t2 (pd_index va)) = t3 OR 7" "load64 m (entry_addr t3 (pt_index va)) = e"
  shows "translate m root va =
    (if e AND PTE_P = 0 then None
     else Some (pte_address e + (va AND 0xFFF), e AND PTE_W \<noteq> 0, e AND PTE_U \<noteq> 0))"
proof -
  note t = table_entry [OF assms(1,2)] table_entry [OF assms(3,4)] table_entry [OF assms(5,6)]
  show ?thesis
    by (simp only: translate_def Let_def assms(7-10) t if_False and.assoc)
qed

lemma translate_kernel:
  assumes "layout_ok L" "upper_tables (kernel_pagetables L) m" "va < MEM_SIZE"
  shows "translate m (kernel_pagetables L) va =
    (let e = leaf (kernel_pagetables L) m (unat va div 4096) in
     if e AND PTE_P = 0 then None
     else Some (pte_address e + (va AND 0xFFF), e AND PTE_W \<noteq> 0, e AND PTE_U \<noteq> 0))"
proof -
  let ?K = "kernel_pagetables L"
  define t where "t = (\<lambda>k. kernel_pagetables L + of_nat k * 4096)"
  note ix = kernel_indices [OF assms(3)]
  note up = upper_entry [OF assms(1,2)]
  have tab: "t k AND 0xFFF = 0" "unat (t k) < 2 ^ 52" if "k \<le> 4" for k
    using layout_tables [OF assms(1), of k] that by (simp_all add: t_def)
  have at: "entry_addr (t k) i = entry_addr ?K (512 * k + i)" for k i by (simp only: t_def entry_addr_table)
  have k: "3 + pd_index va \<le> 4" using ix(3) by simp
  have e: "translate m ?K va =
    (if e AND PTE_P = 0 then None
     else Some (pte_address e + (va AND 0xFFF), e AND PTE_W \<noteq> 0, e AND PTE_U \<noteq> 0))"
    if "e = leaf ?K m (unat va div 4096)" for e
  proof (rule translate_walk)
    show "load64 m (entry_addr ?K (pml4_index va)) = t 1 OR 7" using up [of 0] ix(1) by (simp add: t_def)
    show "load64 m (entry_addr (t 1) (pdpt_index va)) = t 2 OR 7"
      unfolding at using up [of 512] ix(2) by (simp add: t_def)
    have "pd_index va = 0 \<or> pd_index va = 1" using ix(3) by linarith
    then show "load64 m (entry_addr (t 2) (pd_index va)) = t (3 + pd_index va) OR 7"
      unfolding at using up [of 1024] up [of 1025] by (auto simp: t_def)
    show "load64 m (entry_addr (t (3 + pd_index va)) (pt_index va)) = e"
      unfolding at leaf_def ix(4) [symmetric] that by (simp add: algebra_simps)
  qed (use tab k in auto)
  then show ?thesis by (simp add: Let_def)
qed

lemma translate_outside:
  assumes "layout_ok L" "upper_tables (kernel_pagetables L) m" "MEM_SIZE \<le> va" "unat va < 2 ^ 48"
  shows "translate m (kernel_pagetables L) va = None"
proof -
  let ?K = "kernel_pagetables L"
  define t where "t = (\<lambda>k. kernel_pagetables L + of_nat k * 4096)"
  note up = upper_entry [OF assms(1,2)]
  have te: "pte_address (t k OR 7) = t k" if "k \<le> 4" for k
    using table_entry [OF layout_tables(1) [OF assms(1), of k]] layout_tables(2,3) [OF assms(1), of k] that
    by (simp add: t_def)
  have at: "entry_addr (t k) i = entry_addr ?K (512 * k + i)" for k i by (simp only: t_def entry_addr_table)
  have lt: "pml4_index va < 512" "pdpt_index va < 512" "pd_index va < 512"
    by (simp_all add: pml4_index_def pdpt_index_def pd_index_def unat_index)
  have e4: "load64 m (entry_addr ?K (pml4_index va)) = (if pml4_index va = 0 then t 1 OR 7 else 0)"
    using up [of "pml4_index va"] lt by (simp add: t_def)
  have e3: "load64 m (entry_addr (t 1) (pdpt_index va)) = (if pdpt_index va = 0 then t 2 OR 7 else 0)"
    unfolding at using up [of "512 + pdpt_index va"] lt by (simp add: t_def)
  have e2: "load64 m (entry_addr (t 2) (pd_index va)) = 0" if "2 \<le> pd_index va"
    unfolding at using up [of "1024 + pd_index va"] lt that by simp
  have "2 \<le> pd_index va" if "pml4_index va = 0" "pdpt_index va = 0"
  proof -
    have "unat va < 2 ^ 39" using that(1) assms(4) by (simp add: pml4_index_def unat_index div_eq_0_iff)
    then have "unat va < 2 ^ 30" using that(2) by (simp add: pdpt_index_def unat_index div_eq_0_iff)
    moreover have "0x400000 \<le> unat va" using assms(3) by (simp add: word_le_nat_alt)
    ultimately show ?thesis by (simp add: pd_index_def unat_index)
  qed
  then show ?thesis
    using e2 e3 e4 te [of 1] te [of 2] by (auto simp: translate_def Let_def)
qed

subsection \<open>The initial tables\<close>

lemma init_tables_memory:
  "memory (init_tables L s) =
     (let K = kernel_pagetables L; z = memset (memory s) K 0 20480 in
      store64 (store64 (store64 (store64 z (entry_addr K 0) ((K + 4096) OR 7))
        (entry_addr K 512) ((K + 8192) OR 7)) (entry_addr K 1024) ((K + 12288) OR 7))
        (entry_addr K 1025) ((K + 16384) OR 7))"
proof -
  let ?K = "kernel_pagetables L"
  have at: "entry_addr (?K + 4096) i = entry_addr ?K (512 + i)" "entry_addr (?K + 8192) i = entry_addr ?K (1024 + i)" for i
    using entry_addr_table [of ?K 1 i] entry_addr_table [of ?K 2 i] by simp_all
  have two: "[0..<2] = [0, Suc 0]" by (simp add: upt_rec)
  show ?thesis by (simp add: init_tables_def Let_def at two)
qed

lemma init_tables_entries:
  assumes "layout_ok L"
  shows "upper_tables (kernel_pagetables L) (memory (init_tables L s))"
    "frames_info (init_tables L s) = frames_info s"
proof -
  let ?K = "kernel_pagetables L" and ?z = "memset (memory s) (kernel_pagetables L) 0 20480"
  have z: "load64 ?z (entry_addr ?K i) = 0" if "i < 1536" for i
    using load64_memset [of i 5 "memory s" ?K] that by simp
  show "upper_tables ?K (memory (init_tables L s))"
    unfolding upper_tables_def init_tables_memory Let_def by (auto simp: entries.rd_wr z)
  show "frames_info (init_tables L s) = frames_info s" by (simp add: init_tables_def Let_def upt_rec)
qed

definition init_frame :: "layout \<Rightarrow> nat \<Rightarrow> frame_info" where
  "init_frame L i = \<lparr>owner = frame_owner L (of_nat i * PAGE_SIZE),
     refcount = (if frame_owner L (of_nat i * PAGE_SIZE) \<noteq> PO_FREE then 1 else 0)\<rparr>"

lemma init_framing_eq:
  "init_framing L s = s\<lparr>frames_info := fold (\<lambda>i fs. fs[i := init_frame L i]) [0..<FRAME_NUMBER] (frames_info s)\<rparr>"
proof -
  have "fold (\<lambda>frame s. let own = frame_owner L (of_nat frame * PAGE_SIZE) in
       s\<lparr>frames_info := (frames_info s)[frame := \<lparr>owner = own, refcount = (if own \<noteq> PO_FREE then 1 else 0)\<rparr>]\<rparr>) xs s
     = s\<lparr>frames_info := fold (\<lambda>i fs. fs[i := init_frame L i]) xs (frames_info s)\<rparr>" for xs
    by (induction xs arbitrary: s) (simp_all add: Let_def init_frame_def)
  then show ?thesis by (simp only: init_framing_def)
qed

lemma init_framing_frame:
  assumes "length (frames_info s) = FRAME_NUMBER" "i < FRAME_NUMBER"
  shows "frames_info (init_framing L s) ! i = init_frame L i"
proof -
  have "init_framing L s = fold (\<lambda>i s. s\<lparr>frames_info := (frames_info s)[id i := init_frame L i]\<rparr>) [0..<FRAME_NUMBER] s"
    by (simp add: init_framing_def Let_def init_frame_def)
  then show ?thesis
    using frames.fold_wr(2) [of s id "[0..<FRAME_NUMBER]" i "init_frame L"] assms by simp
qed

lemma map_pages_kernel:
  assumes "layout_ok L"
  shows "upper_tables (kernel_pagetables L) (memory s) \<Longrightarrow> \<forall>a \<in> set as. a < MEM_SIZE \<Longrightarrow>
    map_pages (kernel_pagetables L) as fl s = Inr (s\<lparr>memory :=
      fold (\<lambda>a. put_leaf (kernel_pagetables L) (unat a div 4096) ((a AND NOT 0xFFF) OR fl)) as (memory s)\<rparr>)"
proof (induction as arbitrary: s)
  case (Cons a as)
  then have a: "a < MEM_SIZE" "unat a div 4096 < 1024" by (auto intro: frame_index)
  then show ?case
    using Cons map_page_kernel [OF assms Cons.prems(1) a(1)] put_leaf(1) [OF a(2)] by simp
qed simp

definition identity_leaf :: "nat \<Rightarrow> u64" where
  "identity_leaf i = (if i = 0 then PTE_P else (of_nat i * PAGE_SIZE) OR PTE_P OR PTE_W)"

lemma page_addr:
  assumes "i < 1024"
  shows "unat (of_nat i * PAGE_SIZE) = i * 4096" "of_nat i * PAGE_SIZE < MEM_SIZE"
    "(of_nat i * PAGE_SIZE) AND NOT 0xFFF = of_nat i * PAGE_SIZE"
proof -
  show u: "unat (of_nat i * PAGE_SIZE) = i * 4096"
    using assms by (simp add: unat_word_ariths unat_of_nat)
  then show "of_nat i * PAGE_SIZE < MEM_SIZE" using assms by (simp add: word_less_nat_alt)
  show "(of_nat i * PAGE_SIZE) AND NOT 0xFFF = of_nat i * PAGE_SIZE"
    using aligned_table [of 0 i] by (intro aligned_not_mask) simp
qed

lemma init_leaves:
  assumes "layout_ok L"
  shows "\<exists>s'. init_virtual_memory L s = Inr s' \<and> upper_tables (kernel_pagetables L) (memory s') \<and>
    (\<forall>i < 1024. leaf (kernel_pagetables L) (memory s') i = identity_leaf i) \<and>
    cr3 s' = kernel_pagetables L \<and> frames_info s' = frames_info (init_framing L s)"
proof -
  let ?K = "kernel_pagetables L" and ?s = "init_tables L (segments_init L s)"
  let ?as = "map (\<lambda>i. of_nat i * PAGE_SIZE) [0..<FRAME_NUMBER]"
  let ?f = "\<lambda>i. (of_nat i * PAGE_SIZE) OR PTE_P OR PTE_W :: u64"
  note up = init_tables_entries [OF assms, of "segments_init L s"]
  let ?m = "fold (\<lambda>i. put_leaf ?K i (?f i)) [0..<FRAME_NUMBER] (memory ?s)"
  have "fold (\<lambda>a. put_leaf ?K (unat a div 4096) ((a AND NOT 0xFFF) OR (PTE_P OR PTE_W))) ?as (memory ?s) = ?m"
    unfolding fold_map o_def
    by (rule fold_cong) (simp_all only: page_addr set_upt atLeastLessThan_iff, simp_all)
  then have mp: "map_pages ?K ?as (PTE_P OR PTE_W) ?s = Inr (?s\<lparr>memory := ?m\<rparr>)"
    using map_pages_kernel [OF assms up(1), of ?as "PTE_P OR PTE_W"] page_addr(2) by simp
  have inj: "inj ((+) 1536 :: nat \<Rightarrow> nat)" by (simp add: inj_def)
  note fw = entries.fold_wr [where g = "(+) 1536" and xs = "[0..<1024]" and f = ?f and s = "memory ?s" and K = ?K,
      OF TrueI inj, folded put_leaf_def]
  have "load64 ?m (entry_addr ?K i) = load64 (memory ?s) (entry_addr ?K i)" if "i < 1536" for i
    by (rule fw(1)) (use that in auto)
  then have upm: "upper_tables ?K ?m" using up(1) by (simp add: upper_tables_def)
  have lf: "leaf ?K ?m i = ?f i" if "i < 1024" for i
    unfolding leaf_def by (rule fw(2)) (use that in auto)
  let ?t = "?s\<lparr>memory := put_leaf ?K 0 PTE_P ?m\<rparr>"
  have "map_page ?K 0 0 PTE_P None (?s\<lparr>memory := ?m\<rparr>) = Inr ?t"
    using map_page_kernel [OF assms, of "?s\<lparr>memory := ?m\<rparr>" 0] upm by simp
  then have "init_virtual_memory L s = Inr (init_framing L (change_pagetable ?K ?t))"
    using mp by (simp only: init_virtual_memory_def Let_def bind_Inr)
  moreover have "leaf ?K (put_leaf ?K 0 PTE_P ?m) i = identity_leaf i" if "i < 1024" for i
    using put_leaf(2) [OF _ that] lf [OF that] by (simp add: identity_leaf_def)
  moreover have "upper_tables ?K (put_leaf ?K 0 PTE_P ?m)" using put_leaf(1) upm by simp
  ultimately show ?thesis
    using up(2) by (simp add: init_framing_eq change_pagetable_eq segments_init_def lcr0_def split_beta Let_def)
qed

section \<open>Translations\<close>

lemma flag_entry:
  assumes "(t :: u64) AND 0xFFF = 0" "unat t < 2 ^ 52" "fl AND NOT 7 = 0"
  shows "pte_address (t OR fl) = t" "(t OR fl) AND PTE_P = fl AND PTE_P"
    "(t OR fl) AND PTE_W = fl AND PTE_W" "(t OR fl) AND PTE_U = fl AND PTE_U"
proof -
  have "fl = (fl AND 7) OR (fl AND NOT 7)" by (simp flip: bit.conj_disj_distrib)
  then have fl: "fl = fl AND 7" using assms(3) by simp
  have f12: "fl AND NOT 0xFFF = 0"
  proof -
    have "fl AND NOT 0xFFF = fl AND (7 AND NOT 0xFFF)" by (subst fl) (simp only: and.assoc)
    also have "\<dots> = 0" by simp
    finally show ?thesis .
  qed
  have f52: "take_bit 52 fl = fl"
  proof -
    have "take_bit 52 fl = fl AND (7 AND mask 52)" unfolding take_bit_eq_mask by (subst fl) (simp only: and.assoc)
    also have "7 AND mask 52 = (7 :: u64)" by (simp add: mask_eq_exp_minus_1)
    finally show ?thesis using fl by simp
  qed
  show "pte_address (t OR fl) = t"
    by (simp only: pte_address_eq take_bit_or small_take_bit [OF assms(2)] f52 bit.conj_disj_distrib2
        aligned_not_mask [OF assms(1)] f12 bit.disj_zero_right)
  have low: "t AND b = 0" if "0xFFF AND b = b" for b
  proof -
    have "t AND b = (t AND 0xFFF) AND b" by (simp only: and.assoc that)
    then show ?thesis by (simp only: assms(1) bit.conj_zero_left)
  qed
  show "(t OR fl) AND PTE_P = fl AND PTE_P" "(t OR fl) AND PTE_W = fl AND PTE_W"
    "(t OR fl) AND PTE_U = fl AND PTE_U"
    using low [of PTE_P] low [of PTE_W] low [of PTE_U] by (simp_all add: bit.conj_disj_distrib2)
qed

lemma page_split: "of_nat (unat va div 4096) * PAGE_SIZE + (va AND 0xFFF) = va"
proof -
  have "of_nat (unat va div 4096 * 4096 + unat va mod 4096) = va" by (simp only: div_mult_mod_eq) simp
  then have "of_nat (unat va div 4096) * 4096 + of_nat (unat va mod 4096) = va"
    by (simp only: of_nat_add of_nat_mult of_nat_numeral)
  moreover have "of_nat (unat va mod 4096) = va AND 0xFFF"
    by (simp add: and_0xFFF word_unat_eq_iff unat_of_nat unat_mod)
  ultimately show ?thesis by simp
qed

lemma translate_identity:
  assumes "layout_ok L" "upper_tables (kernel_pagetables L) m" "va < MEM_SIZE"
    "leaf (kernel_pagetables L) m (unat va div 4096) = (of_nat (unat va div 4096) * PAGE_SIZE) OR fl"
    "fl AND NOT 7 = 0" "fl AND PTE_P \<noteq> 0"
  shows "translate m (kernel_pagetables L) va = Some (va, fl AND PTE_W \<noteq> 0, fl AND PTE_U \<noteq> 0)"
proof -
  have "(of_nat (unat va div 4096) * PAGE_SIZE) AND 0xFFF = (0 :: u64)"
    using aligned_table [of 0 "unat va div 4096"] by simp
  moreover have "unat (of_nat (unat va div 4096) * PAGE_SIZE) < 2 ^ 52"
    using page_addr(1) [OF frame_index [OF assms(3)]] frame_index [OF assms(3)] by simp
  ultimately show ?thesis
    using translate_kernel [OF assms(1-3)] flag_entry [OF _ _ assms(5)] assms(4,6) page_split [of va]
    by (simp add: Let_def)
qed

lemma init_translate:
  assumes "layout_ok L" "upper_tables (kernel_pagetables L) m"
    "\<forall>i < 1024. leaf (kernel_pagetables L) m i = identity_leaf i" "va < MEM_SIZE"
  shows "translate m (kernel_pagetables L) va = Some (va, PAGE_SIZE \<le> va, False)"
proof -
  let ?i = "unat va div 4096"
  have i: "leaf (kernel_pagetables L) m ?i = identity_leaf ?i" using assms(3) frame_index [OF assms(4)] by simp
  have le: "PAGE_SIZE \<le> va \<longleftrightarrow> ?i \<noteq> 0" by (simp add: word_le_nat_alt div_eq_0_iff not_less)
  show ?thesis
  proof (cases "?i = 0")
    case True
    then show ?thesis
      using translate_identity [OF assms(1,2,4), of PTE_P] i le by (simp add: identity_leaf_def)
  next
    case False
    then show ?thesis
      using translate_identity [OF assms(1,2,4), of "PTE_P OR PTE_W"] i le by (simp add: identity_leaf_def)
  qed
qed

section \<open>Allocation of frames\<close>

lemma find_free_frame_cases:
  obtains (free) i where "find_free_frame s = int i" "i < FRAME_NUMBER" "owner (frames_info s ! i) = PO_FREE"
      "\<forall>j < i. owner (frames_info s ! j) \<noteq> PO_FREE"
    | (none) "find_free_frame s = - 1" "\<forall>i < FRAME_NUMBER. owner (frames_info s ! i) \<noteq> PO_FREE"
proof (cases "find (\<lambda>i. owner (frames_info s ! i) = PO_FREE) [0..<FRAME_NUMBER]")
  case None
  then have "\<forall>i < FRAME_NUMBER. owner (frames_info s ! i) \<noteq> PO_FREE" by (auto simp: find_None_iff)
  with None show ?thesis by (intro none) (simp_all add: find_free_frame_def)
next
  case (Some i)
  then have "i < FRAME_NUMBER" "owner (frames_info s ! i) = PO_FREE"
    "\<forall>j < i. owner (frames_info s ! j) \<noteq> PO_FREE"
    by (auto simp: find_Some_iff)
  with Some show ?thesis by (intro free [of i]) (simp_all add: find_free_frame_def)
qed

definition free_frame_taken :: "nat \<Rightarrow> u8 \<Rightarrow> vm \<Rightarrow> u64 \<Rightarrow> vm \<Rightarrow> bool" where
  "free_frame_taken i own s phys s' \<longleftrightarrow>
     i < FRAME_NUMBER \<and> phys = of_nat i * PAGE_SIZE \<and> owner (frames_info s ! i) = PO_FREE \<and>
     (\<forall>j < i. owner (frames_info s ! j) \<noteq> PO_FREE) \<and>
     frames_info s' = (frames_info s)[i :=
       (frames_info s ! i)\<lparr>owner := own, refcount := refcount (frames_info s ! i) + 1\<rparr>] \<and>
     memory s' = (\<lambda>a. if in_region a phys 4096 then 0 else memory s a)"

lemma alloc_frame_cases:
  "(\<exists>i phys s'. alloc_frame own s = Inr (phys, s') \<and> free_frame_taken i own s phys s') \<or>
   alloc_frame own s = Inl (Panic ''No free frame available'') \<and>
     (\<forall>i < FRAME_NUMBER. owner (frames_info s ! i) \<noteq> PO_FREE)"
proof (cases rule: find_free_frame_cases [of s])
  case (free i)
  have "(word_of_int (int i * 4096) :: u64) = of_nat i * PAGE_SIZE" by simp
  then have "\<exists>phys s'. alloc_frame own s = Inr (phys, s') \<and> free_frame_taken i own s phys s'"
    using free by (auto simp: alloc_frame_def kassert_def Let_def free_frame_taken_def memset_apply)
  then show ?thesis by blast
next
  case none
  then show ?thesis by (simp add: alloc_frame_def kassert_def)
qed

lemma page_region_inj:
  assumes "i < FRAME_NUMBER" "j < FRAME_NUMBER" "i \<noteq> j"
  shows "(of_nat i * PAGE_SIZE) \<noteq> of_nat j * PAGE_SIZE"
  using page_addr(1) [of i] page_addr(1) [of j] assms by (auto simp: word_unat_eq_iff)

section \<open>An example layout\<close>

definition example_layout :: layout where
  "example_layout = \<lparr>kernel_pagetables = 0x50000, tss_address = 0x60000, segments_address = 0x60100,
     kernel_end = 0x70000\<rparr>"

definition example_vm :: vm where
  "example_vm = \<lparr>memory = (\<lambda>_. 0), frames_info = replicate FRAME_NUMBER \<lparr>owner = 0, refcount = 0\<rparr>,
     segments = [], kernel_task_descriptor = zero_tss,
     gdt = \<lparr>pseudod_limit = 0, pseudod_base = 0\<rparr>, cr0 = 0, cr3 = 0\<rparr>"

lemma layout_ok_example: "layout_ok example_layout"
  by (simp add: layout_ok_def example_layout_def)

lemma example_frames: "i < FRAME_NUMBER \<Longrightarrow> frames_info example_vm ! i = \<lparr>owner = 0, refcount = 0\<rparr>"
  "length (frames_info example_vm) = FRAME_NUMBER"
  by (simp_all add: example_vm_def)

lemma first_free: "free_frame_taken i own s p s' \<Longrightarrow> owner (frames_info s ! 0) = PO_FREE \<Longrightarrow> i = 0"
  by (auto simp: free_frame_taken_def)

section \<open>Properties\<close>

text \<open>C12:
  After \<open>init_virtual_memory\<close> the active page table maps each of the 4 MiB of memory to
  itself, for the kernel only, writable except for the page at address 0, and no other
  address of the lower half.
\<close>

theorem identity_mapping:
  assumes "layout_ok L"
  shows "\<exists>s'. init_virtual_memory L s = Inr s' \<and> cr3 s' = kernel_pagetables L \<and>
    (\<forall>va. (va < MEM_SIZE \<longrightarrow> translate (memory s') (cr3 s') va = Some (va, PAGE_SIZE \<le> va, False)) \<and>
      (MEM_SIZE \<le> va \<and> unat va < 2 ^ 48 \<longrightarrow> translate (memory s') (cr3 s') va = None))"
proof -
  obtain s' where s': "init_virtual_memory L s = Inr s'" "upper_tables (kernel_pagetables L) (memory s')"
    "\<forall>i < 1024. leaf (kernel_pagetables L) (memory s') i = identity_leaf i" "cr3 s' = kernel_pagetables L"
    using init_leaves [OF assms] by blast
  then show ?thesis
    using init_translate [OF assms s'(2,3)] translate_outside [OF assms s'(2)] by simp
qed

theorem identity_mapping_witness:
  "\<exists>s'. init_virtual_memory example_layout example_vm = Inr s' \<and> cr3 s' = 0x50000 \<and>
    (\<forall>va. (va < MEM_SIZE \<longrightarrow> translate (memory s') (cr3 s') va = Some (va, PAGE_SIZE \<le> va, False)) \<and>
      (MEM_SIZE \<le> va \<and> unat va < 2 ^ 48 \<longrightarrow> translate (memory s') (cr3 s') va = None))"
  using identity_mapping [OF layout_ok_example, of example_vm] by (simp add: example_layout_def)

text \<open>Mapping a page of the kernel's table changes the translation of that page only: its
  addresses go to the given frame with the given permissions, every other address below
  4 MiB keeps its translation.
\<close>

theorem map_page_effect:
  assumes "layout_ok L" "upper_tables (kernel_pagetables L) (memory s)" "va < MEM_SIZE"
    and "pa AND 0xFFF = 0" "unat pa < 2 ^ 52" "fl AND NOT 7 = 0" "fl AND PTE_P \<noteq> 0"
  shows "\<exists>s'. map_page (kernel_pagetables L) va pa fl None s = Inr s' \<and>
    upper_tables (kernel_pagetables L) (memory s') \<and>
    (\<forall>x < MEM_SIZE. translate (memory s') (kernel_pagetables L) x =
      (if unat x div 4096 = unat va div 4096 then Some (pa + (x AND 0xFFF), fl AND PTE_W \<noteq> 0, fl AND PTE_U \<noteq> 0)
       else translate (memory s) (kernel_pagetables L) x))"
proof -
  let ?K = "kernel_pagetables L" and ?i = "unat va div 4096"
  let ?m = "put_leaf ?K ?i (pa OR fl) (memory s)"
  have i: "?i < 1024" by (rule frame_index [OF assms(3)])
  have up: "upper_tables ?K ?m" using put_leaf(1) [OF i] assms(2) by simp
  have "map_page ?K va pa fl None s = Inr (s\<lparr>memory := ?m\<rparr>)"
    using map_page_kernel [OF assms(1-3), of pa fl None] aligned_not_mask [OF assms(4)] by simp
  moreover have "translate ?m ?K x =
      (if unat x div 4096 = ?i then Some (pa + (x AND 0xFFF), fl AND PTE_W \<noteq> 0, fl AND PTE_U \<noteq> 0)
       else translate (memory s) ?K x)" if "x < MEM_SIZE" for x
    using translate_kernel [OF assms(1) up that] translate_kernel [OF assms(1,2) that]
      put_leaf(2) [OF i frame_index [OF that]] flag_entry [OF assms(4-6)] assms(7)
    by (simp add: Let_def)
  ultimately show ?thesis using up by (intro exI [of _ "s\<lparr>memory := ?m\<rparr>"]) simp
qed

theorem map_page_effect_witness:
  "\<exists>s'. map_page (kernel_pagetables example_layout) 0x180123 0x180000 (PTE_P OR PTE_U) None
      (init_tables example_layout example_vm) = Inr s' \<and>
    upper_tables (kernel_pagetables example_layout) (memory s') \<and>
    (\<forall>x < MEM_SIZE. translate (memory s') (kernel_pagetables example_layout) x =
      (if unat x div 4096 = unat (0x180123 :: u64) div 4096
       then Some (0x180000 + (x AND 0xFFF), (PTE_P OR PTE_U) AND PTE_W \<noteq> 0, (PTE_P OR PTE_U) AND PTE_U \<noteq> 0)
       else translate (memory (init_tables example_layout example_vm)) (kernel_pagetables example_layout) x))"
  using map_page_effect [OF layout_ok_example, of "init_tables example_layout example_vm"
      "0x180123" "0x180000" "PTE_P OR PTE_U"] init_tables_entries(1) [OF layout_ok_example, of example_vm]
  by simp

text \<open>\<open>init_framing\<close> marks frame 0 and the I/O hole as reserved, the frames of the kernel image
  as the kernel's, and every other frame as free, with a reference count of 1 exactly on
  the frames that are not free.
\<close>

theorem initial_frames:
  assumes "length (frames_info s) = FRAME_NUMBER" "i < FRAME_NUMBER"
  shows "frames_info (init_framing L s) ! i =
    (if i = 0 \<or> 160 \<le> i \<and> i < 256 then \<lparr>owner = PO_RESERVED, refcount = 1\<rparr>
     else if 64 \<le> i \<and> i * 4096 < unat (kernel_end L) then \<lparr>owner = PO_KERNEL, refcount = 1\<rparr>
     else \<lparr>owner = PO_FREE, refcount = 0\<rparr>)"
proof -
  have u: "unat (of_nat i * PAGE_SIZE) = i * 4096" using page_addr(1) [OF assms(2)] by simp
  have "physical_memory_isreserved (of_nat i * PAGE_SIZE) \<longleftrightarrow> i = 0 \<or> 160 \<le> i \<and> i < 256"
    unfolding physical_memory_isreserved_def word_unat_eq_iff word_le_nat_alt word_less_nat_alt u by auto
  moreover have "KERNEL_START \<le> of_nat i * PAGE_SIZE \<longleftrightarrow> 64 \<le> i"
    "of_nat i * PAGE_SIZE < kernel_end L \<longleftrightarrow> i * 4096 < unat (kernel_end L)"
    unfolding word_le_nat_alt word_less_nat_alt u by auto
  ultimately show ?thesis
    using init_framing_frame [OF assms, of L] by (simp add: init_frame_def frame_owner_def)
qed

theorem initial_frames_witness:
  "frames_info (init_framing example_layout example_vm) ! 200 = \<lparr>owner = PO_RESERVED, refcount = 1\<rparr>"
  using initial_frames [of example_vm 200 example_layout] example_frames(2) by simp

text \<open>\<open>alloc_frame\<close> takes the lowest free frame, gives it to the owner and fills it with zeros,
  and changes no other frame; with no free frame left it stops with its message.
\<close>

theorem alloc_frame_takes_lowest:
  "(\<exists>i phys s'. alloc_frame own s = Inr (phys, s') \<and> free_frame_taken i own s phys s') \<or>
   alloc_frame own s = Inl (Panic ''No free frame available'') \<and>
     (\<forall>i < FRAME_NUMBER. owner (frames_info s ! i) \<noteq> PO_FREE)"
  by (rule alloc_frame_cases)

theorem alloc_frame_takes_lowest_witness:
  "\<exists>phys s'. alloc_frame 1 example_vm = Inr (phys, s') \<and> free_frame_taken 0 1 example_vm phys s'"
  using alloc_frame_takes_lowest [of 1 example_vm] first_free [of _ 1 example_vm] example_frames(1) [of 0]
  by fastforce

text \<open>Two allocations never return the same frame, provided the owner is not the idle
  process: its identifier 0 is the mark of a free frame.
\<close>

theorem alloc_frame_distinct:
  assumes "length (frames_info s) = FRAME_NUMBER" "own \<noteq> PO_FREE"
    and "alloc_frame own s = Inr (p1, s1)" "alloc_frame own' s1 = Inr (p2, s2)"
  shows "p1 \<noteq> p2"
proof -
  obtain i where i: "free_frame_taken i own s p1 s1" using alloc_frame_cases [of own s] assms(3) by auto
  obtain j where j: "free_frame_taken j own' s1 p2 s2" using alloc_frame_cases [of own' s1] assms(4) by auto
  have "i \<noteq> j" using i j assms(1,2) by (auto simp: free_frame_taken_def)
  then show ?thesis using page_region_inj [of i j] i j by (auto simp: free_frame_taken_def)
qed

theorem alloc_frame_distinct_witness:
  "\<exists>p1 s1 p2 s2. alloc_frame 1 example_vm = Inr (p1, s1) \<and> alloc_frame 1 s1 = Inr (p2, s2) \<and> p1 \<noteq> p2"
proof -
  obtain p1 s1 where 1: "alloc_frame 1 example_vm = Inr (p1, s1)" "free_frame_taken 0 1 example_vm p1 s1"
    using alloc_frame_cases [of 1 example_vm] first_free [of _ 1 example_vm] example_frames(1) [of 0]
    by fastforce
  then have "owner (frames_info s1 ! 1) = PO_FREE" by (simp add: free_frame_taken_def example_frames)
  then obtain p2 s2 where "alloc_frame 1 s1 = Inr (p2, s2)"
    using alloc_frame_cases [of 1 s1] by fastforce
  then show ?thesis
    using 1(1) alloc_frame_distinct [of example_vm 1 p1 s1 1 p2 s2] example_frames(2) by auto
qed

text \<open>
  \<open>assign_physical_page\<close> refuses an address that is not aligned, not in memory or in use, and
  changes nothing then; otherwise it gives the frame to the owner and fills exactly its
  page with zeros.
\<close>

theorem assign_page:
  "assign_physical_page addr own s =
    (if unat addr mod 4096 \<noteq> 0 \<or> 0x400000 \<le> unat addr \<or> refcount (frames_info s ! (unat addr div 4096)) \<noteq> 0
     then (- 1, s)
     else (0, s\<lparr>frames_info := (frames_info s)[unat addr div 4096 := \<lparr>owner = own, refcount = 1\<rparr>],
                memory := (\<lambda>a. if in_region a addr 4096 then 0 else memory s a)\<rparr>))"
proof -
  have "addr AND 0xFFF = 0 \<longleftrightarrow> unat addr mod 4096 = 0"
    by (simp add: and_0xFFF word_unat_eq_iff unat_mod)
  moreover have "memset (memory s) addr 0 PAGE_SIZE = (\<lambda>a. if in_region a addr 4096 then 0 else memory s a)"
    by (rule ext) (simp add: memset_apply)
  ultimately show ?thesis
    by (simp add: assign_physical_page_def word_le_nat_alt unat_div)
qed

end
