(* ===== verification/Process.thy ===== *)
theory Process
  imports Virtual_Memory "HOL-Library.Signed_Division"
begin

text \<open>
  kernel/process.c and kernel/process.h: the process table, the loader, the round-robin
  scheduler and the start and stop requests. A pointer into \<open>procs\<close> is an index. \<open>run\<close>
  does not return: it leaves the registers of the chosen process in the processor
  (\<open>cpu\<close>). The header declares \<open>frames_info\<close> static, so process.c counts references in a
  copy of its own, \<open>own_frames\<close>.
\<close>

section \<open>State\<close>

record registers_t =
  reg_rax :: u64
  reg_rcx :: u64
  reg_rdx :: u64
  reg_rbx :: u64
  reg_rbp :: u64
  reg_rsi :: u64
  reg_rdi :: u64
  reg_r8 :: u64
  reg_r9 :: u64
  reg_r10 :: u64
  reg_r11 :: u64
  reg_r12 :: u64
  reg_r13 :: u64
  reg_r14 :: u64
  reg_r15 :: u64
  reg_fs :: u64
  reg_gs :: u64
  reg_intno :: u64
  reg_err :: u64
  reg_rip :: u64
  reg_cs :: u16
  reg_rflags :: u64
  reg_rsp :: u64
  reg_ss :: u16

abbreviation (input) P_FREE :: u8 where "P_FREE \<equiv> 0"
abbreviation (input) P_RUNNABLE :: u8 where "P_RUNNABLE \<equiv> 1"
abbreviation (input) P_BLOCKED :: u8 where "P_BLOCKED \<equiv> - 1"
abbreviation (input) P_BROKEN :: u8 where "P_BROKEN \<equiv> - 2"

abbreviation (input) PROC_NUMBER :: nat where "PROC_NUMBER \<equiv> 8"
abbreviation (input) PROC_START_ADDR :: u64 where "PROC_START_ADDR \<equiv> 0x100000"
abbreviation (input) PROC_SIZE :: u64 where "PROC_SIZE \<equiv> 0x40000"

abbreviation (input) SEGSEL_APP_CODE :: u64 where "SEGSEL_APP_CODE \<equiv> 0x10"
abbreviation (input) SEGSEL_APP_DATA :: u64 where "SEGSEL_APP_DATA \<equiv> 0x20"
abbreviation (input) EFLAGS_IF :: u64 where "EFLAGS_IF \<equiv> 0x200"

record proc =
  pid :: u8
  reg :: registers_t
  pstate :: u8
  page_table :: u64

text \<open>Where the linker put an embedded program.\<close>

record ramimage =
  image_begin :: u64
  image_end :: u64

text \<open>The symbols of the embedded programs, and the table \<open>ramimages\<close> that the code makes of them.\<close>

record binaries =
  p_idle_bin_start :: u64
  p_idle_bin_end :: u64
  p_shell_bin_start :: u64
  p_shell_bin_end :: u64
  p_dummy1_bin_start :: u64
  p_dummy1_bin_end :: u64
  p_dummy2_bin_start :: u64
  p_dummy2_bin_end :: u64

definition embedded_programs :: "binaries \<Rightarrow> ramimage list" where
  "embedded_programs b =
     [\<lparr>image_begin = p_idle_bin_start b, image_end = p_idle_bin_end b\<rparr>,
      \<lparr>image_begin = p_shell_bin_start b, image_end = p_shell_bin_end b\<rparr>,
      \<lparr>image_begin = p_dummy1_bin_start b, image_end = p_dummy1_bin_end b\<rparr>,
      \<lparr>image_begin = p_dummy2_bin_start b, image_end = p_dummy2_bin_end b\<rparr>]"

record system =
  vmem :: vm
  procs :: "proc list"
  current :: nat
  own_frames :: "frame_info list"
  cpu :: registers_t

definition zero_registers :: registers_t where
  "zero_registers = \<lparr>reg_rax = 0, reg_rcx = 0, reg_rdx = 0, reg_rbx = 0, reg_rbp = 0, reg_rsi = 0,
     reg_rdi = 0, reg_r8 = 0, reg_r9 = 0, reg_r10 = 0, reg_r11 = 0, reg_r12 = 0, reg_r13 = 0, reg_r14 = 0,
     reg_r15 = 0, reg_fs = 0, reg_gs = 0, reg_intno = 0, reg_err = 0, reg_rip = 0, reg_cs = 0,
     reg_rflags = 0, reg_rsp = 0, reg_ss = 0\<rparr>"

definition zero_proc :: proc where
  "zero_proc = \<lparr>pid = 0, reg = zero_registers, pstate = P_FREE, page_table = 0\<rparr>"

section \<open>Initialisation\<close>

definition init_process :: "layout \<Rightarrow> nat \<Rightarrow> system \<Rightarrow> system" where
  "init_process L p s =
     (let K = kernel_pagetables L; i = unat (K div PAGE_SIZE); f = own_frames s ! i in
      s\<lparr>procs := (procs s)[p := (procs s ! p)
          \<lparr>reg := zero_registers
             \<lparr>reg_cs := ucast (SEGSEL_APP_CODE OR 3), reg_fs := SEGSEL_APP_DATA OR 3,
              reg_gs := SEGSEL_APP_DATA OR 3, reg_ss := ucast (SEGSEL_APP_DATA OR 3),
              reg_rflags := EFLAGS_IF\<rparr>,
           page_table := K\<rparr>],
        own_frames := (own_frames s)[i := f\<lparr>refcount := refcount f + 1\<rparr>]\<rparr>)"

section \<open>Loading\<close>

definition user_base :: "proc \<Rightarrow> u64" where
  "user_base p = PROC_START_ADDR + scast (pid p) * PROC_SIZE"

text \<open>The loop that maps the pages of the program and takes their frames.\<close>

primrec load_pages :: "u64 \<Rightarrow> u8 \<Rightarrow> u64 list \<Rightarrow> vm \<Rightarrow> vm result" where
  "load_pages pt own [] s = Inr s"
| "load_pages pt own (a # as) s =
     bind (map_page pt a a (PTE_P OR PTE_W OR PTE_U) None s) (\<lambda>s.
     load_pages pt own as (snd (assign_physical_page a own s)))"

definition load_memory :: "ramimage \<Rightarrow> proc \<Rightarrow> vm \<Rightarrow> vm result" where
  "load_memory prog p s =
     (let bin_size = image_end prog - image_begin prog;
          pages_needed = (bin_size + PAGE_SIZE - 1) div PAGE_SIZE;
          base = user_base p
      in bind (load_pages (page_table p) (pid p) (map (\<lambda>i. base + of_nat i * PAGE_SIZE) [0..<unat pages_needed]) s) (\<lambda>s.
      let s = s\<lparr>memory := memcpy (memory s) base (image_begin prog) bin_size\<rparr>;
          last_page_off = bin_size AND (PAGE_SIZE - 1);
          s = (if last_page_off \<noteq> 0
               then s\<lparr>memory := memset (memory s) (base + bin_size) 0 (PAGE_SIZE - last_page_off)\<rparr> else s);
          stack = base + PROC_SIZE - PAGE_SIZE
      in bind (map_page (page_table p) stack stack (PTE_P OR PTE_W OR PTE_U) None s) (\<lambda>s.
      let s = snd (assign_physical_page base (pid p) s);
          s = snd (assign_physical_page stack (pid p) s)
      in Inr (s\<lparr>memory := memset (memory s) stack 0 PAGE_SIZE\<rparr>))))"

definition load_process :: "ramimage list \<Rightarrow> nat \<Rightarrow> nat \<Rightarrow> system \<Rightarrow> system result" where
  "load_process ramimages p program s =
     (let q = procs s ! p in
      bind (load_memory (ramimages ! program) q (vmem s)) (\<lambda>v.
      Inr (s\<lparr>vmem := v,
             procs := (procs s)[p := q
               \<lparr>reg := (reg q)\<lparr>reg_rip := user_base q, reg_rsp := user_base q + PROC_SIZE - 8\<rparr>,
                pstate := P_RUNNABLE\<rparr>]\<rparr>)))"

definition init_processes :: "layout \<Rightarrow> ramimage list \<Rightarrow> system \<Rightarrow> system result" where
  "init_processes L ramimages s =
     (let s = s\<lparr>procs := replicate PROC_NUMBER zero_proc\<rparr>;
          s = fold (\<lambda>i s. init_process L i (s\<lparr>procs := (procs s)[i := (procs s ! i)\<lparr>pid := of_nat i\<rparr>]\<rparr>))
                [0..<PROC_NUMBER] s
      in load_process ramimages 0 0 s)"

section \<open>Running\<close>

definition run :: "nat \<Rightarrow> system \<Rightarrow> system" where
  "run p s = s\<lparr>current := p, vmem := change_pagetable (page_table (procs s ! p)) (vmem s), cpu := reg (procs s ! p)\<rparr>"

definition launch_shell :: "ramimage list \<Rightarrow> system \<Rightarrow> system result" where
  "launch_shell ramimages s = bind (load_process ramimages 1 1 s) (\<lambda>s. Inr (run 1 s))"

text \<open>
  The search of \<open>schedule\<close>, with the number of turns left and the identifier of the
  process looked at last. \<open>run\<close> leaves the loop.
\<close>

primrec schedule_loop :: "nat \<Rightarrow> int \<Rightarrow> proc list \<Rightarrow> nat option" where
  "schedule_loop 0 ident ps = None"
| "schedule_loop (Suc n) ident ps =
     (let ident = (ident + 1) smod 8; ident = (if ident = 0 then 1 else ident) in
      if pstate (ps ! nat ident) = P_RUNNABLE then Some (nat ident) else schedule_loop n ident ps)"

definition schedule :: "system \<Rightarrow> system" where
  "schedule s =
     run (case schedule_loop (PROC_NUMBER + 1) (sint (pid (procs s ! current s))) (procs s) of
            Some i \<Rightarrow> i | None \<Rightarrow> 0) s"

section \<open>Requests\<close>

definition sys_start :: "ramimage list \<Rightarrow> registers_t \<Rightarrow> system \<Rightarrow> system result" where
  "sys_start ramimages r s =
     bind (kassert (reg_rdi r = 2 \<or> reg_rdi r = 3) ''Not a startable process'') (\<lambda>_.
     bind (kassert (pstate (procs s ! unat (reg_rdi r)) = P_FREE) ''Process already running'') (\<lambda>_.
     load_process ramimages (unat (reg_rdi r)) (unat (reg_rdi r)) s))"

definition sys_stop :: "registers_t \<Rightarrow> system \<Rightarrow> system result" where
  "sys_stop r s =
     bind (kassert (reg_rdi r = 2 \<or> reg_rdi r = 3) ''Not a stoppable process'') (\<lambda>_.
     bind (kassert (pstate (procs s ! unat (reg_rdi r)) = P_RUNNABLE) ''Process already running'') (\<lambda>_.
     let i = unat (reg_rdi r) in
     Inr (s\<lparr>procs := (procs s)[i := (procs s ! i)\<lparr>pstate := P_FREE\<rparr>]\<rparr>)))"

section \<open>The process table\<close>

definition procs_ok :: "layout \<Rightarrow> system \<Rightarrow> bool" where
  "procs_ok L s \<longleftrightarrow> length (procs s) = PROC_NUMBER \<and>
     (\<forall>i < PROC_NUMBER. pid (procs s ! i) = of_nat i \<and> page_table (procs s ! i) = kernel_pagetables L)"

definition runnable :: "proc list \<Rightarrow> nat \<Rightarrow> bool" where
  "runnable ps i \<longleftrightarrow> pstate (ps ! i) = P_RUNNABLE"

text \<open>The order in which the scheduler looks at the processes after process \<open>c\<close>.\<close>

definition turn_order :: "nat \<Rightarrow> nat list" where
  "turn_order c = [Suc c..<PROC_NUMBER] @ [1..<Suc c]"

definition next_process :: "proc list \<Rightarrow> nat \<Rightarrow> nat" where
  "next_process ps c = (case find (runnable ps) (turn_order c) of Some i \<Rightarrow> i | None \<Rightarrow> 0)"

text \<open>The processes the search looks at: after 7 comes 1, the idle process is left out.\<close>

primrec visits :: "nat \<Rightarrow> nat \<Rightarrow> nat list" where
  "visits 0 c = []"
| "visits (Suc n) c = (let d = (if c = 7 then 1 else Suc c) in d # visits n d)"

lemma schedule_loop_visits: "c < 8 \<Longrightarrow> schedule_loop n (int c) ps = find (runnable ps) (visits n c)"
proof (induction n arbitrary: c)
  case (Suc n)
  let ?d = "if c = 7 then 1 else Suc c"
  have "(int c + 1) smod 8 = int (Suc c mod 8)"
    using Suc.prems by (auto simp: smod_int_alt_def zmod_int add.commute)
  also have "\<dots> = (if c = 7 then 0 else int (Suc c))" using Suc.prems by auto
  finally have "(let ident = (int c + 1) smod 8 in if ident = 0 then 1 else ident) = int ?d" by simp
  moreover have "?d < 8" using Suc.prems by auto
  ultimately show ?case using Suc.IH [of ?d] by (simp add: Let_def runnable_def)
qed simp

lemma find_append: "find P (xs @ ys) = (case find P xs of None \<Rightarrow> find P ys | Some x \<Rightarrow> Some x)"
  by (induction xs) simp_all

lemma find_append_seen: "set ys \<subseteq> set xs \<Longrightarrow> find P (xs @ ys) = find P xs"
proof -
  assume sub: "set ys \<subseteq> set xs"
  show ?thesis
  proof (cases "find P xs")
    case None
    then have "find P ys = None" using sub by (auto simp: find_None_iff)
    with None show ?thesis by (simp add: find_append)
  next
    case (Some x)
    then show ?thesis by (simp add: find_append)
  qed
qed

lemma visits_turn_order:
  assumes "c < 8"
  obtains ys where "visits 9 c = turn_order c @ ys" "set ys \<subseteq> set (turn_order c)"
proof -
  have "\<forall>c \<in> {0, 1, 2, 3, 4, 5, 6, 7}. take (length (turn_order c)) (visits 9 c) = turn_order c \<and>
      set (drop (length (turn_order c)) (visits 9 c)) \<subseteq> set (turn_order c)"
    by code_simp
  moreover have "c \<in> {0, 1, 2, 3, 4, 5, 6, 7}" using assms by auto
  ultimately show ?thesis using that [of "drop (length (turn_order c)) (visits 9 c)"]
    by (metis append_take_drop_id)
qed

lemma schedule_loop_find:
  assumes "c < 8"
  shows "schedule_loop 9 (int c) ps = find (runnable ps) (turn_order c)"
  using visits_turn_order [OF assms] schedule_loop_visits [OF assms] find_append_seen by metis

lemma sint_pid: "i < 8 \<Longrightarrow> sint (of_nat i :: u8) = int i"
  by (simp add: sint_eq_unat unat_of_nat)

lemma schedule_eq:
  assumes "procs_ok L s" "current s < PROC_NUMBER"
  shows "schedule s = run (next_process (procs s) (current s)) s"
  using assms schedule_loop_find [OF assms(2)] sint_pid [OF assms(2)]
  by (simp add: schedule_def next_process_def procs_ok_def del: schedule_loop.simps)

lemma set_turn_order: "c < 8 \<Longrightarrow> set (turn_order c) = {1..<8}"
  by (auto simp: turn_order_def)

section \<open>Fairness\<close>

text \<open>How many turns away process \<open>i\<close> is when \<open>c\<close> runs.\<close>

definition distance :: "nat \<Rightarrow> nat \<Rightarrow> nat" where
  "distance c i = (if c < i then i - c else i + 7 - c)"

lemma find_first:
  assumes "find P xs = Some y" "distinct xs" "j < length xs" "xs ! j = x" "P x"
  obtains k where "k \<le> j" "xs ! k = y"
proof -
  obtain k where k: "k < length xs" "y = xs ! k" "\<forall>l<k. \<not> P (xs ! l)" using assms(1) by (auto simp: find_Some_iff)
  then have "\<not> j < k" using assms(4,5) by blast
  then show ?thesis using that [of k] k(2) by simp
qed

lemma turn_order_nth:
  assumes "c < 8" "1 \<le> i" "i < 8"
  shows "distance c i - 1 < length (turn_order c)" "turn_order c ! (distance c i - 1) = i" "1 \<le> distance c i"
  using assms by (auto simp: turn_order_def distance_def nth_append)

lemma turn_order_distance:
  assumes "c < 8" "k < length (turn_order c)"
  shows "distance c (turn_order c ! k) = Suc k" "1 \<le> turn_order c ! k" "turn_order c ! k < 8"
proof -
  have len: "length (turn_order c) = 7" using assms(1) by (cases "1 \<le> c") (simp_all add: turn_order_def)
  have "turn_order c ! k = (if k < 7 - c then Suc c + k else Suc (k - (7 - c)))"
    using assms by (simp add: turn_order_def nth_append del: upt_Suc)
  then show "distance c (turn_order c ! k) = Suc k" "1 \<le> turn_order c ! k" "turn_order c ! k < 8"
    using assms len by (simp_all add: distance_def split: if_splits)
qed

lemma distance_nearer:
  assumes "c < 8" "1 \<le> i" "i < 8" "1 \<le> y" "y < 8" "distance c y \<le> distance c i"
  shows "y = i \<or> distance y i < distance c i"
  using assms unfolding distance_def by (simp split: if_splits) linarith+

text \<open>
  A runnable process that is not chosen comes strictly nearer with every choice.
\<close>

lemma next_process_range:
  assumes "c < 8"
  shows "next_process ps c < 8"
  using assms set_turn_order [OF assms]
  by (auto simp: next_process_def find_Some_iff split: option.split)

lemma next_process_nearer:
  assumes "c < 8" "1 \<le> i" "i < 8" "runnable ps i"
  shows "next_process ps c = i \<or> 1 \<le> next_process ps c \<and> distance (next_process ps c) i < distance c i"
proof -
  note ix = turn_order_nth [OF assms(1-3)]
  obtain y where y: "find (runnable ps) (turn_order c) = Some y"
    using assms set_turn_order [OF assms(1)] by (cases "find (runnable ps) (turn_order c)") (auto simp: find_None_iff)
  have "distinct (turn_order c)" by (auto simp: turn_order_def)
  then obtain k where k: "k \<le> distance c i - 1" "turn_order c ! k = y"
    using find_first [OF y _ ix(1,2) assms(4)] by blast
  have ny: "next_process ps c = y" using y by (simp add: next_process_def)
  have "k < length (turn_order c)" using k(1) ix(1) by simp
  note d = turn_order_distance [OF assms(1) this, unfolded k(2)]
  show ?thesis
    using distance_nearer [OF assms(1-3) d(2,3)] d k(1) ix(3) unfolding ny by auto
qed

text \<open>The choice is the runnable process that is the fewest turns away.\<close>

lemma next_process_first:
  assumes c: "c < 8"
  shows "if \<exists>i \<in> {1..<8}. runnable ps i
     then next_process ps c \<in> {1..<8} \<and> runnable ps (next_process ps c) \<and>
       (\<forall>j \<in> {1..<8}. runnable ps j \<longrightarrow> distance c (next_process ps c) \<le> distance c j)
     else next_process ps c = 0"
proof (cases "find (runnable ps) (turn_order c)")
  case None
  then have "next_process ps c = 0" by (simp add: next_process_def)
  moreover have "\<forall>i \<in> {1..<8}. \<not> runnable ps i"
    using None set_turn_order [OF c] by (auto simp: find_None_iff)
  ultimately show ?thesis by auto
next
  case (Some y)
  have y: "y \<in> {1..<8}" "runnable ps y"
    using Some set_turn_order [OF c] by (auto simp: find_Some_iff)
  have ny: "next_process ps c = y" using Some by (simp add: next_process_def)
  have "distance c y \<le> distance c j" if j: "1 \<le> j" "j < 8" "runnable ps j" for j
  proof -
    have "distinct (turn_order c)" by (auto simp: turn_order_def)
    note ix = turn_order_nth [OF c j(1,2)]
    obtain k where k: "k \<le> distance c j - 1" "turn_order c ! k = y"
      using find_first [OF Some \<open>distinct (turn_order c)\<close> ix(1,2) j(3)] by blast
    have "k < length (turn_order c)" using k(1) ix(1) by simp
    from turn_order_distance(1) [OF c this] k ix(3) show ?thesis by simp
  qed
  with y show ?thesis unfolding ny by auto
qed

text \<open>
  A sequence of choices, with any process tables in between: process \<open>i\<close> gets its turn
  within seven choices if it stays runnable.
\<close>

primrec turns :: "(nat \<Rightarrow> proc list) \<Rightarrow> nat \<Rightarrow> nat \<Rightarrow> nat" where
  "turns ps c 0 = c"
| "turns ps c (Suc n) = next_process (ps n) (turns ps c n)"

lemma turns_range: "c < 8 \<Longrightarrow> turns ps c n < 8"
  by (induction n) (simp_all add: next_process_range)

lemma turns_reach:
  assumes "c < 8" "1 \<le> i" "i < 8" "\<And>n. n < 7 \<Longrightarrow> runnable (ps n) i"
  shows "\<exists>n. 0 < n \<and> n \<le> 7 \<and> turns ps c n = i"
proof (rule ccontr)
  assume "\<not> ?thesis"
  then have no: "turns ps c n \<noteq> i" if "0 < n" "n \<le> 7" for n using that by blast
  have "n \<le> 7 \<Longrightarrow> distance (turns ps c n) i + n \<le> distance c i" for n
  proof (induction n)
    case (Suc n)
    then show ?case
      using next_process_nearer [OF turns_range [OF assms(1)] assms(2,3), of "ps n" ps n] assms(4) no [of "Suc n"]
      by fastforce
  qed simp
  from this [of 7] have "distance (turns ps c 7) i + 7 \<le> distance c i" by simp
  moreover have "distance c i \<le> 7" "1 \<le> distance (turns ps c 7) i"
    using assms(1-3) turns_range [OF assms(1), of ps 7] by (auto simp: distance_def)
  ultimately show False by simp
qed

end
