(* ===== verification/Process_Load.thy ===== *)
theory Process_Load
  imports Process
begin

unbundle bit_operations_syntax

text \<open>
  The loader of kernel/process.c and the invariant of the process table: a loaded program
  has its bytes at its base and a zeroed stack page, both mapped for the user, and neither
  the rest of memory nor any other mapping changes. Every operation on processes keeps the
  table, the page tables and the frame table well-formed.
\<close>

section \<open>Loading a program\<close>

lemma in_region_bounds:
  assumes "unat base + n \<le> 2 ^ 64"
  shows "in_region x base n \<longleftrightarrow> unat base \<le> unat x \<and> unat x < unat base + n"
proof (cases "unat base \<le> unat x")
  case True
  then have "unat (x - base) = unat x - unat base" by (rule unat_diff_nat)
  then show ?thesis using True by (auto simp: in_region_def)
next
  case False
  then have "x < base" by (simp add: word_less_nat_alt)
  then have "unat (x - base) = 2 ^ 64 + unat x - unat base"
    by (simp add: unat_sub_if_size word_size not_le word_less_nat_alt)
  then show ?thesis using False assms by (simp add: in_region_def)
qed

lemma tables_region:
  assumes "layout_ok L" "in_region x (kernel_pagetables L) 0x5000"
  shows "unat x < 0xA0000"
proof -
  have b: "unat (kernel_pagetables L) + 0x5000 \<le> 0xA0000"
    using assms(1) by (auto simp: layout_ok_def word_le_nat_alt)
  then show ?thesis using assms(2) in_region_bounds [of "kernel_pagetables L" "0x5000" x] by simp
qed

lemma entry_region: "i < 2560 \<Longrightarrow> b < 8 \<Longrightarrow> in_region (entry_addr K i + of_nat b) K 0x5000"
proof -
  assume "i < 2560" "b < 8"
  then have "in_region (K + of_nat (8 * i + b)) K 0x5000" by (intro in_region_offset) simp_all
  then show ?thesis by (simp add: entry_addr_def add.assoc)
qed

text \<open>Memory that agrees on the five tables has the same tables.\<close>

lemma tables_cong:
  assumes "\<And>x. in_region x K 0x5000 \<Longrightarrow> m x = m' x"
  shows "upper_tables K m = upper_tables K m'" "i < 1024 \<Longrightarrow> leaf K m i = leaf K m' i"
proof -
  have "load64 m (entry_addr K i) = load64 m' (entry_addr K i)" if "i < 2560" for i
    using assms entry_region that by (intro load64_cong) blast
  then show "upper_tables K m = upper_tables K m'" "i < 1024 \<Longrightarrow> leaf K m i = leaf K m' i"
    by (simp_all add: upper_tables_def leaf_def)
qed

lemma put_leaf_outside:
  assumes "i < 1024" "\<not> in_region x K 0x5000"
  shows "put_leaf K i e m x = m x"
proof -
  have "\<not> in_region x (entry_addr K (1536 + i)) 8"
    using assms entry_region [of "1536 + i" _ K] by (auto elim!: in_regionE)
  then show ?thesis by (simp add: put_leaf_def store64_def)
qed

text \<open>A page a process may use: aligned, above the kernel, in memory.\<close>

definition user_page :: "u64 \<Rightarrow> bool" where
  "user_page a \<longleftrightarrow> a AND 0xFFF = 0 \<and> EXTPHYSMEM \<le> a \<and> a < MEM_SIZE"

lemma user_page_region:
  assumes "layout_ok L" "user_page a" "in_region x a 4096"
  shows "\<not> in_region x (kernel_pagetables L) 0x5000"
proof -
  have "0x100000 \<le> unat a" "unat a < 0x400000"
    using assms(2) by (auto simp: user_page_def word_le_nat_alt word_less_nat_alt)
  then have "0x100000 \<le> unat x" using in_region_bounds [of a 4096 x] assms(3) by simp
  then show ?thesis using tables_region [OF assms(1), of x] by fastforce
qed

lemma assign_page_frame:
  fixes own :: u8
  assumes "length (frames_info s) = FRAME_NUMBER" "user_page a"
  defines "s' \<equiv> snd (assign_physical_page a own s)"
  shows "length (frames_info s') = FRAME_NUMBER" "refcount (frames_info s' ! (unat a div 4096)) \<noteq> 0"
    "j < FRAME_NUMBER \<Longrightarrow> refcount (frames_info s ! j) \<noteq> 0 \<Longrightarrow> refcount (frames_info s' ! j) \<noteq> 0"
    "\<not> in_region x a 4096 \<Longrightarrow> memory s' x = memory s x"
    "refcount (frames_info s ! (unat a div 4096)) \<noteq> 0 \<Longrightarrow> s' = s"
proof -
  have a: "a AND 0xFFF = 0" "a < MEM_SIZE" "unat a div 4096 < 1024"
    using assms(2) frame_index [of a] by (auto simp: user_page_def)
  have s': "s' = (if refcount (frames_info s ! (unat a div 4096)) \<noteq> 0 then s
      else s\<lparr>frames_info := (frames_info s)[unat a div 4096 := \<lparr>owner = own, refcount = 1\<rparr>],
             memory := memset (memory s) a 0 PAGE_SIZE\<rparr>)"
    using a(1,2) by (simp add: s'_def assign_physical_page_def unat_div not_le)
  show "length (frames_info s') = FRAME_NUMBER" using assms(1) by (simp add: s')
  show "refcount (frames_info s' ! (unat a div 4096)) \<noteq> 0" using assms(1) a(3) by (simp add: s')
  show "j < FRAME_NUMBER \<Longrightarrow> refcount (frames_info s ! j) \<noteq> 0 \<Longrightarrow> refcount (frames_info s' ! j) \<noteq> 0"
    using assms(1) a(3) by (auto simp: s' nth_list_update)
  show "\<not> in_region x a 4096 \<Longrightarrow> memory s' x = memory s x" by (simp add: s' memset_apply)
  show "refcount (frames_info s ! (unat a div 4096)) \<noteq> 0 \<Longrightarrow> s' = s" by (simp add: s')
qed

text \<open>
  What mapping and taking the pages \<open>as\<close> does: they are mapped to themselves for the user,
  their frames are in use, and memory changes on these pages and in the tables only.
\<close>

definition pages_taken :: "u64 \<Rightarrow> u64 set \<Rightarrow> vm \<Rightarrow> vm \<Rightarrow> bool" where
  "pages_taken K A s s' \<longleftrightarrow>
     upper_tables K (memory s') \<and> length (frames_info s') = FRAME_NUMBER \<and>
     (\<forall>x. \<not> in_region x K 0x5000 \<longrightarrow> (\<forall>a \<in> A. \<not> in_region x a 4096) \<longrightarrow> memory s' x = memory s x) \<and>
     (\<forall>j < 1024. leaf K (memory s') j =
        (if \<exists>a \<in> A. j = unat a div 4096 then (of_nat j * PAGE_SIZE) OR 7 else leaf K (memory s) j)) \<and>
     (\<forall>a \<in> A. unat a div 4096 < 1024 \<and> refcount (frames_info s' ! (unat a div 4096)) \<noteq> 0) \<and>
     (\<forall>j < FRAME_NUMBER. refcount (frames_info s ! j) \<noteq> 0 \<longrightarrow> refcount (frames_info s' ! j) \<noteq> 0)"

lemma pages_taken_leaf:
  assumes "pages_taken K A s s'" "j < 1024"
  shows "leaf K (memory s') j =
    (if \<exists>a \<in> A. j = unat a div 4096 then (of_nat j * PAGE_SIZE) OR 7 else leaf K (memory s) j)"
proof -
  have "\<forall>j < 1024. leaf K (memory s') j =
      (if \<exists>a \<in> A. j = unat a div 4096 then (of_nat j * PAGE_SIZE) OR 7 else leaf K (memory s) j)"
    using assms(1) unfolding pages_taken_def by (elim conjE)
  from this [rule_format, OF assms(2)] show ?thesis .
qed

lemma page_number:
  assumes "user_page a"
  shows "of_nat (unat a div 4096) * PAGE_SIZE = a" "a AND NOT 0xFFF = a" "unat a div 4096 < 1024"
  using assms page_split [of a] aligned_not_mask [of a] frame_index [of a] by (auto simp: user_page_def)

lemma map_and_assign:
  assumes L: "layout_ok L" and a: "user_page a"
    and s: "upper_tables (kernel_pagetables L) (memory s)" "length (frames_info s) = FRAME_NUMBER"
  shows "\<exists>s1. map_page (kernel_pagetables L) a a 7 None s = Inr s1 \<and>
    pages_taken (kernel_pagetables L) {a} s (snd (assign_physical_page a own s1))"
proof -
  let ?K = "kernel_pagetables L" and ?i = "unat a div 4096"
  let ?s1 = "s\<lparr>memory := put_leaf ?K ?i (a OR 7) (memory s)\<rparr>"
  let ?s2 = "snd (assign_physical_page a own ?s1)"
  note i = page_number [OF a]
  have "a < MEM_SIZE" using a by (simp add: user_page_def)
  then have mp: "map_page ?K a a 7 None s = Inr ?s1"
    using map_page_kernel [OF L s(1), of a a 7 None] i(2) by simp
  have len: "length (frames_info ?s1) = FRAME_NUMBER" using s(2) by simp
  note as = assign_page_frame [OF len a, where own = own]
  have keep: "memory ?s2 x = memory ?s1 x" if "in_region x ?K 0x5000" for x
    using user_page_region [OF L a] that as(4) by blast
  note tc = tables_cong [of ?K "memory ?s2" "memory ?s1", OF keep]
  have "pages_taken ?K {a} s ?s2"
    unfolding pages_taken_def
  proof (intro conjI allI impI ballI)
    show "upper_tables ?K (memory ?s2)" using tc(1) put_leaf(1) [OF i(3)] s(1) by simp
    fix x assume "\<not> in_region x ?K 0x5000" "\<forall>a\<in>{a}. \<not> in_region x a 4096"
    then show "memory ?s2 x = memory s x" using as(4) [of x] put_leaf_outside [OF i(3)] by simp
  next
    fix j :: nat assume "j < 1024"
    then show "leaf ?K (memory ?s2) j =
        (if \<exists>a\<in>{a}. j = unat a div 4096 then (of_nat j * PAGE_SIZE) OR 7 else leaf ?K (memory s) j)"
      using tc(2) put_leaf(2) [OF i(3), of j] i(1) by auto
  qed (use as i(3) in auto)
  with mp show ?thesis by blast
qed

lemma pages_taken_trans:
  assumes "pages_taken K A s s1" "pages_taken K B s1 s2"
  shows "pages_taken K (A \<union> B) s s2"
  using assms unfolding pages_taken_def by (auto simp: ball_Un)

lemma load_pages_spec:
  assumes L: "layout_ok L"
  shows "upper_tables (kernel_pagetables L) (memory s) \<Longrightarrow> length (frames_info s) = FRAME_NUMBER \<Longrightarrow>
    \<forall>a \<in> set as. user_page a \<Longrightarrow>
    \<exists>s'. load_pages (kernel_pagetables L) own as s = Inr s' \<and> pages_taken (kernel_pagetables L) (set as) s s'"
proof (induction as arbitrary: s)
  case Nil
  then show ?case by (simp add: pages_taken_def)
next
  case (Cons a as)
  let ?K = "kernel_pagetables L"
  obtain s1 where s1: "map_page ?K a a 7 None s = Inr s1"
      "pages_taken ?K {a} s (snd (assign_physical_page a own s1))"
    using map_and_assign [OF L _ Cons.prems(1,2)] Cons.prems(3) by (meson list.set_intros(1))
  let ?s2 = "snd (assign_physical_page a own s1)"
  have "upper_tables ?K (memory ?s2)" "length (frames_info ?s2) = FRAME_NUMBER"
    using s1(2) by (simp_all add: pages_taken_def)
  then obtain s' where s': "load_pages ?K own as ?s2 = Inr s'" "pages_taken ?K (set as) ?s2 s'"
    using Cons.IH [of ?s2] Cons.prems(3) by auto
  have "pages_taken ?K (set (a # as)) s s'" using pages_taken_trans [OF s1(2) s'(2)] by simp
  then show ?case using s1(1) s'(1) by simp
qed

text \<open>
  The place of a program: process \<open>i\<close> has the quarter of a mebibyte from \<open>0x100000 + i * 0x40000\<close>,
  and its binary fits below the stack page. The binary is part of the kernel image, apart
  from the page tables.
\<close>

definition proc_base :: "nat \<Rightarrow> nat" where
  "proc_base i = 0x100000 + i * 0x40000"

definition image_ok :: "layout \<Rightarrow> ramimage \<Rightarrow> nat \<Rightarrow> bool" where
  "image_ok L prog n \<longleftrightarrow> image_end prog = image_begin prog + of_nat n \<and> 0 < n \<and> n \<le> 0x3F000 \<and>
     unat (image_begin prog) + n \<le> 0x100000 \<and>
     (\<forall>j < n. \<not> in_region (image_begin prog + of_nat j) (kernel_pagetables L) 0x5000)"

lemma image_below:
  assumes "image_ok L prog n" "j < n"
  shows "unat (image_begin prog + of_nat j) < 0x100000"
proof -
  have "unat (image_begin prog) + j < 0x100000" using assms by (simp add: image_ok_def)
  then show ?thesis by (simp add: unat_word_ariths unat_of_nat)
qed

lemma user_base_eq:
  assumes "pid p = of_nat i" "i < 8"
  shows "user_base p = of_nat (proc_base i)"
proof -
  have "(word_of_int (sint (of_nat i :: u8)) :: u64) = of_nat i" using sint_pid [OF assms(2)] by simp
  then have "(scast (of_nat i :: u8) :: u64) = of_nat i" by simp
  then show ?thesis using assms(1) by (simp add: user_base_def proc_base_def)
qed

lemma unat_user_base:
  assumes "pid p = of_nat i" "i < 8" "k \<le> 0x40000"
  shows "unat (user_base p + of_nat k) = proc_base i + k"
proof -
  have "user_base p + of_nat k = of_nat (proc_base i + k)" using user_base_eq [OF assms(1,2)] by simp
  then show ?thesis using assms(2,3) by (simp only: unat_of_nat) (simp add: proc_base_def)
qed

definition program_pages :: "nat \<Rightarrow> nat" where
  "program_pages n = (n + 4095) div 4096"

lemma program_pages:
  assumes "0 < n" "n \<le> 0x3F000"
  shows "0 < program_pages n" "program_pages n \<le> 63" "n \<le> program_pages n * 4096"
    "unat ((of_nat n + PAGE_SIZE - 1) div PAGE_SIZE :: u64) = program_pages n"
    "of_nat n AND (PAGE_SIZE - 1) \<noteq> (0 :: u64) \<longleftrightarrow> n mod 4096 \<noteq> 0"
    "unat (PAGE_SIZE - (of_nat n AND (PAGE_SIZE - 1))) + n \<le> 0x3F000 \<or> n mod 4096 = 0"
proof -
  show "0 < program_pages n" "program_pages n \<le> 63" "n \<le> program_pages n * 4096"
    using assms by (auto simp: program_pages_def)
  have "(of_nat n + PAGE_SIZE - 1 :: u64) = of_nat (n + 4095)" by simp
  then have "unat (of_nat n + PAGE_SIZE - 1 :: u64) = n + 4095"
    using assms(2) by (simp only: unat_of_nat) simp
  then show "unat ((of_nat n + PAGE_SIZE - 1) div PAGE_SIZE :: u64) = program_pages n"
    by (simp add: unat_div program_pages_def)
  have off: "unat (of_nat n AND (PAGE_SIZE - 1) :: u64) = n mod 4096"
    using assms and_0xFFF [of "of_nat n"] by (simp add: unat_mod unat_of_nat)
  then show "of_nat n AND (PAGE_SIZE - 1) \<noteq> (0 :: u64) \<longleftrightarrow> n mod 4096 \<noteq> 0"
    by (metis unat_eq_0)
  have "unat (PAGE_SIZE - (of_nat n AND (PAGE_SIZE - 1))) = 4096 - n mod 4096"
    using off unat_diff_nat [of "of_nat n AND (PAGE_SIZE - 1)" PAGE_SIZE] by (simp add: order_less_imp_le)
  moreover have "4096 - n mod 4096 + n \<le> 0x3F000 \<or> n mod 4096 = 0"
  proof -
    have "n = n div 4096 * 4096 + n mod 4096" "n mod 4096 < 4096" by simp_all
    then have "n mod 4096 = 0 \<or> n div 4096 < 63" using assms(2) by linarith
    then show ?thesis using \<open>n = n div 4096 * 4096 + n mod 4096\<close> \<open>n mod 4096 < 4096\<close> by linarith
  qed
  ultimately show "unat (PAGE_SIZE - (of_nat n AND (PAGE_SIZE - 1))) + n \<le> 0x3F000 \<or> n mod 4096 = 0"
    by simp
qed

text \<open>The memory image of a loaded process, and everything it leaves alone.\<close>

definition loaded :: "layout \<Rightarrow> nat \<Rightarrow> ramimage \<Rightarrow> nat \<Rightarrow> vm \<Rightarrow> vm \<Rightarrow> bool" where
  "loaded L i prog n s s' \<longleftrightarrow>
     upper_tables (kernel_pagetables L) (memory s') \<and> length (frames_info s') = FRAME_NUMBER \<and>
     mem_bytes (memory s') (of_nat (proc_base i)) n = mem_bytes (memory s) (image_begin prog) n \<and>
     (\<forall>x. proc_base i + 0x3F000 \<le> unat x \<and> unat x < proc_base i + 0x40000 \<longrightarrow> memory s' x = 0) \<and>
     (\<forall>x. \<not> in_region x (kernel_pagetables L) 0x5000 \<longrightarrow>
        unat x < proc_base i \<or> proc_base i + 0x40000 \<le> unat x \<longrightarrow> memory s' x = memory s x) \<and>
     (\<forall>j < 1024. leaf (kernel_pagetables L) (memory s') j =
        (if proc_base i div 4096 \<le> j \<and> j < proc_base i div 4096 + program_pages n \<or> j = proc_base i div 4096 + 63
         then (of_nat j * PAGE_SIZE) OR 7 else leaf (kernel_pagetables L) (memory s) j))"

lemma user_pages:
  assumes "pid p = of_nat i" "i < 8" "k < 64"
  shows "user_page (user_base p + of_nat k * PAGE_SIZE)"
    "unat (user_base p + of_nat k * PAGE_SIZE) = proc_base i + k * 4096"
    "unat (user_base p + of_nat k * PAGE_SIZE) div 4096 = proc_base i div 4096 + k"
proof -
  let ?a = "user_base p + of_nat k * PAGE_SIZE"
  show u: "unat ?a = proc_base i + k * 4096"
    using unat_user_base [OF assms(1,2), of "k * 4096"] assms(3) by simp
  have "proc_base i = (256 + i * 64) * 4096" by (simp add: proc_base_def)
  then have "unat ?a = (256 + i * 64 + k) * 4096" "proc_base i div 4096 = 256 + i * 64"
    using u by (simp_all add: algebra_simps)
  then show "unat ?a div 4096 = proc_base i div 4096 + k" by simp
  have "unat (?a mod 4096) = 0" using \<open>unat ?a = (256 + i * 64 + k) * 4096\<close> by (simp add: unat_mod)
  then have "?a AND 0xFFF = 0" by (simp only: and_0xFFF unat_eq_0)
  then show "user_page ?a"
    using u assms(2,3) by (simp add: user_page_def word_le_nat_alt word_less_nat_alt proc_base_def)
qed

text \<open>The copy of the binary and the zeros behind it.\<close>

definition copy_image :: "mem \<Rightarrow> u64 \<Rightarrow> u64 \<Rightarrow> u64 \<Rightarrow> mem" where
  "copy_image m base img n =
     (let m = memcpy m base img n; off = n AND (PAGE_SIZE - 1)
      in if off \<noteq> 0 then memset m (base + n) 0 (PAGE_SIZE - off) else m)"

lemma copy_image:
  assumes p: "pid p = of_nat i" "i < 8" and n: "0 < n" "n \<le> 0x3F000" and img: "unat img + n \<le> 0x100000"
  shows "mem_bytes (copy_image m (user_base p) img (of_nat n)) (user_base p) n = mem_bytes m img n"
    "unat x < proc_base i \<or> proc_base i + 0x3F000 \<le> unat x \<Longrightarrow>
      copy_image m (user_base p) img (of_nat n) x = m x"
proof -
  let ?b = "user_base p" and ?m = "memcpy m (user_base p) img (of_nat n)"
  let ?z = "PAGE_SIZE - (of_nat n AND (PAGE_SIZE - 1)) :: u64"
  note pp = program_pages [OF n]
  have un: "unat (of_nat n :: u64) = n" using n(2) by (simp add: unat_of_nat)
  have ub: "unat (?b + of_nat k) = proc_base i + k" if "k \<le> 0x40000" for k by (rule unat_user_base [OF p that])
  have b0: "unat ?b = proc_base i" "proc_base i + 0x40000 \<le> 2 ^ 64" "0x100000 \<le> proc_base i"
    using ub [of 0] p(2) by (simp_all add: proc_base_def)
  have tail: "in_region x (?b + of_nat n) (unat ?z) \<Longrightarrow> proc_base i + n \<le> unat x \<and> unat x < proc_base i + 0x3F000"
    if "n mod 4096 \<noteq> 0" for x
    using in_region_bounds [of "?b + of_nat n" "unat ?z" x] ub [of n] b0(2) pp(6) n(2) that by simp
  have copy: "copy_image m ?b img (of_nat n) x =
      (if n mod 4096 \<noteq> 0 \<and> in_region x (?b + of_nat n) (unat ?z) then 0 else ?m x)" for x
    using pp(5) by (simp add: copy_image_def Let_def memset_apply)
  have apart: "?b + of_nat j \<noteq> img + of_nat k" if "j < n" "k < n" for j k
  proof -
    have "unat (img + of_nat k) = unat img + k" using img that n(2) by (simp add: unat_word_ariths unat_of_nat)
    then have "unat (img + of_nat k) < 0x100000" using img that by simp
    moreover have "0x100000 \<le> unat (?b + of_nat j)" using ub [of j] b0(3) that n(2) by simp
    ultimately show ?thesis by auto
  qed
  have "mem_bytes ?m ?b n = mem_bytes m img n"
    using memcpy_loop_copies [of n ?b img m] apart n(2) un by (simp add: memcpy_def)
  moreover have "copy_image m ?b img (of_nat n) (?b + of_nat j) = ?m (?b + of_nat j)" if "j < n" for j
    using copy tail ub [of j] that n(2) by fastforce
  ultimately show "mem_bytes (copy_image m ?b img (of_nat n)) ?b n = mem_bytes m img n"
    using mem_bytes_cong [of n "copy_image m ?b img (of_nat n)" ?b ?m] by simp
  assume x: "unat x < proc_base i \<or> proc_base i + 0x3F000 \<le> unat x"
  have "\<not> in_region x ?b n" using in_region_bounds [of ?b n x] b0 n(2) x by auto
  then have "?m x = m x" using memcpy_loop_outside [of n x ?b] n(2) un by (simp add: memcpy_def)
  moreover have "\<not> (n mod 4096 \<noteq> 0 \<and> in_region x (?b + of_nat n) (unat ?z))" using tail [of x] x by auto
  ultimately show "copy_image m ?b img (of_nat n) x = m x" by (simp only: copy if_False)
qed

lemma load_memory_eq:
  "load_memory prog p s =
     (let n = image_end prog - image_begin prog; base = user_base p; stack = base + PROC_SIZE - PAGE_SIZE in
      bind (load_pages (page_table p) (pid p)
        (map (\<lambda>i. base + of_nat i * PAGE_SIZE) [0..<unat ((n + PAGE_SIZE - 1) div PAGE_SIZE)]) s) (\<lambda>s.
      bind (map_page (page_table p) stack stack 7 None
        (s\<lparr>memory := copy_image (memory s) base (image_begin prog) n\<rparr>)) (\<lambda>s.
      let s = snd (assign_physical_page stack (pid p) (snd (assign_physical_page base (pid p) s)))
      in Inr (s\<lparr>memory := memset (memory s) stack 0 PAGE_SIZE\<rparr>))))"
  by (cases "(image_end prog - image_begin prog) AND (PAGE_SIZE - 1) = 0")
    (simp_all add: load_memory_def Let_def copy_image_def)

lemma map_page_frames:
  assumes "layout_ok L" "upper_tables (kernel_pagetables L) (memory s)" "va < MEM_SIZE"
    "map_page (kernel_pagetables L) va pa fl None s = Inr s'"
  shows "frames_info s' = frames_info s"
  using map_page_kernel [OF assms(1-3), of pa fl None] assms(4) by auto

definition program_page_set :: "proc \<Rightarrow> nat \<Rightarrow> u64 set" where
  "program_page_set p n = (\<lambda>k. user_base p + of_nat k * PAGE_SIZE) ` {..<program_pages n}"

abbreviation stack_page :: "proc \<Rightarrow> u64" where
  "stack_page p \<equiv> user_base p + of_nat 63 * PAGE_SIZE"

lemma program_page_region:
  assumes "pid p = of_nat i" "i < 8" "program_pages n \<le> 63" "a \<in> program_page_set p n" "in_region x a 4096"
  shows "proc_base i \<le> unat x" "unat x < proc_base i + 0x3F000"
proof -
  obtain k where k: "k < program_pages n" "a = user_base p + of_nat k * PAGE_SIZE"
    using assms(4) by (auto simp: program_page_set_def)
  have "k < 63" using k(1) assms(3) by simp
  then have "unat a = proc_base i + k * 4096" "k * 4096 + 4096 \<le> 0x3F000"
    using user_pages(2) [OF assms(1,2), of k] k(2) by simp_all
  moreover have "proc_base i \<le> 0x300000" using assms(2) by (simp add: proc_base_def)
  ultimately show "proc_base i \<le> unat x" "unat x < proc_base i + 0x3F000"
    using in_region_bounds [of a 4096 x] assms(5) by simp_all
qed

lemma stack_region:
  assumes "pid p = of_nat i" "i < 8"
  shows "in_region x (stack_page p) 4096 \<longleftrightarrow> proc_base i + 0x3F000 \<le> unat x \<and> unat x < proc_base i + 0x40000"
  using in_region_bounds [of "stack_page p" 4096 x] user_pages(2) [OF assms, of 63] assms(2)
  by (simp add: proc_base_def)

lemma page_set_index:
  assumes "pid p = of_nat i" "i < 8" "program_pages n \<le> 63"
  shows "(\<exists>a \<in> program_page_set p n. j = unat a div 4096) \<longleftrightarrow>
    proc_base i div 4096 \<le> j \<and> j < proc_base i div 4096 + program_pages n"
proof -
  have "(\<exists>a \<in> program_page_set p n. j = unat a div 4096) \<longleftrightarrow> (\<exists>k < program_pages n. j = proc_base i div 4096 + k)"
    using user_pages(3) [OF assms(1,2)] assms(3) by (simp add: program_page_set_def Bex_def lessThan_iff)
  also have "\<dots> \<longleftrightarrow> proc_base i div 4096 \<le> j \<and> j < proc_base i div 4096 + program_pages n"
    by (auto intro: exI [of _ "j - proc_base i div 4096"])
  finally show ?thesis .
qed

text \<open>The bytes of a program are those of its image, when the image was copied between changes that kept the image and the program.\<close>

lemma image_bytes_loaded:
  assumes p: "pid p = of_nat i" "i < 8" and img: "image_ok L prog n"
    and copy: "mem_bytes mb (user_base p) n = mem_bytes ma (image_begin prog) n"
    and early: "\<And>x. \<not> in_region x (kernel_pagetables L) 0x5000 \<Longrightarrow> unat x < proc_base i \<Longrightarrow> ma x = m x"
    and late: "\<And>x. proc_base i \<le> unat x \<Longrightarrow> unat x < proc_base i + 0x3F000 \<Longrightarrow> mc x = mb x"
  shows "mem_bytes mc (user_base p) n = mem_bytes m (image_begin prog) n"
proof -
  let ?img = "image_begin prog"
  have n: "0 < n" "n \<le> 0x3F000" "unat ?img + n \<le> 0x100000" using img by (simp_all add: image_ok_def)
  have "mem_bytes mc (user_base p) n = mem_bytes mb (user_base p) n"
    using unat_user_base [OF p] n(2) by (intro mem_bytes_cong late) simp_all
  also have "\<dots> = mem_bytes m ?img n"
    unfolding copy
  proof (rule mem_bytes_cong)
    fix j assume j: "j < n"
    have "unat (?img + of_nat j) = unat ?img + j" using j n by (simp add: unat_word_ariths unat_of_nat)
    then have "unat (?img + of_nat j) < proc_base i" using j n(3) by (simp add: proc_base_def)
    then show "ma (?img + of_nat j) = m (?img + of_nat j)" using early j img by (simp add: image_ok_def)
  qed
  finally show ?thesis .
qed

text \<open>
  The stages of a load: the pages of the program taken, its image copied, the page of the stack taken and wiped. First the page tables,
  then the memory.
\<close>

lemma stages_tables:
  assumes L: "layout_ok L" and p: "pid p = of_nat i" "i < 8" and img: "image_ok L prog n"
    and A: "pages_taken (kernel_pagetables L) (program_page_set p n) s s1"
    and B: "pages_taken (kernel_pagetables L) {stack_page p}
      (s1\<lparr>memory := copy_image (memory s1) (user_base p) (image_begin prog) (of_nat n)\<rparr>) s4"
  defines "m5 \<equiv> memset (memory s4) (stack_page p) 0 PAGE_SIZE"
  shows "upper_tables (kernel_pagetables L) m5"
    and "j < 1024 \<Longrightarrow> leaf (kernel_pagetables L) m5 j =
      (if proc_base i div 4096 \<le> j \<and> j < proc_base i div 4096 + program_pages n \<or> j = proc_base i div 4096 + 63
       then (of_nat j * PAGE_SIZE) OR 7 else leaf (kernel_pagetables L) (memory s) j)"
proof -
  let ?K = "kernel_pagetables L" and ?m2 = "copy_image (memory s1) (user_base p) (image_begin prog) (of_nat n)"
  have n: "0 < n" "n \<le> 0x3F000" "unat (image_begin prog) + n \<le> 0x100000" using img by (simp_all add: image_ok_def)
  note pp = program_pages [OF n(1,2)]
  have K: "unat x < proc_base i" if "in_region x ?K 0x5000" for x using tables_region [OF L that] by (simp add: proc_base_def)
  have wiped: "upper_tables ?K m5 = upper_tables ?K (memory s4)" "j < 1024 \<Longrightarrow> leaf ?K m5 j = leaf ?K (memory s4) j" for j
    using K stack_region [OF p] unfolding m5_def memset_apply by (intro tables_cong; fastforce)+
  have copied: "j < 1024 \<Longrightarrow> leaf ?K ?m2 j = leaf ?K (memory s1) j" for j
    using K copy_image(2) [OF p n, where m = "memory s1"] by (intro tables_cong) blast+
  show "upper_tables ?K m5" using wiped(1) B by (simp add: pages_taken_def)
  assume j: "j < 1024"
  have 4: "leaf ?K (memory s4) j = (if j = proc_base i div 4096 + 63 then (of_nat j * PAGE_SIZE) OR 7 else leaf ?K ?m2 j)"
    using pages_taken_leaf [OF B j] user_pages(3) [OF p, of 63] by simp
  have 1: "leaf ?K (memory s1) j =
      (if proc_base i div 4096 \<le> j \<and> j < proc_base i div 4096 + program_pages n
       then (of_nat j * PAGE_SIZE) OR 7 else leaf ?K (memory s) j)"
    using pages_taken_leaf [OF A j] by (simp only: page_set_index [OF p pp(2)])
  show "leaf ?K m5 j =
      (if proc_base i div 4096 \<le> j \<and> j < proc_base i div 4096 + program_pages n \<or> j = proc_base i div 4096 + 63
       then (of_nat j * PAGE_SIZE) OR 7 else leaf ?K (memory s) j)"
    unfolding wiped(2) [OF j] 4 copied [OF j] 1
    by (cases "j = proc_base i div 4096 + 63") (simp_all only: if_True if_False simp_thms)
qed

lemma stages_memory:
  assumes p: "pid p = of_nat i" "i < 8" and img: "image_ok L prog n"
    and A: "pages_taken (kernel_pagetables L) (program_page_set p n) s s1"
    and B: "pages_taken (kernel_pagetables L) {stack_page p}
      (s1\<lparr>memory := copy_image (memory s1) (user_base p) (image_begin prog) (of_nat n)\<rparr>) s4"
    and x: "\<not> in_region x (kernel_pagetables L) 0x5000"
  defines "m2 \<equiv> copy_image (memory s1) (user_base p) (image_begin prog) (of_nat n)"
    and "m5 \<equiv> memset (memory s4) (stack_page p) 0 PAGE_SIZE"
  shows "unat x < proc_base i \<or> proc_base i + 0x3F000 \<le> unat x \<Longrightarrow> memory s1 x = memory s x"
    and "\<not> in_region x (stack_page p) 4096 \<Longrightarrow> m5 x = m2 x"
    and "unat x < proc_base i \<or> proc_base i + 0x40000 \<le> unat x \<Longrightarrow> m5 x = memory s x"
proof -
  have n: "0 < n" "n \<le> 0x3F000" "unat (image_begin prog) + n \<le> 0x100000" using img by (simp_all add: image_ok_def)
  show early: "memory s1 x = memory s x" if "unat x < proc_base i \<or> proc_base i + 0x3F000 \<le> unat x"
  proof -
    have "\<forall>a \<in> program_page_set p n. \<not> in_region x a 4096"
      using program_page_region [OF p program_pages(2) [OF n(1,2)]] that by fastforce
    then show ?thesis using A x by (simp add: pages_taken_def)
  qed
  show late: "m5 x = m2 x" if "\<not> in_region x (stack_page p) 4096"
    using that B x by (simp add: pages_taken_def m5_def m2_def memset_apply)
  assume o: "unat x < proc_base i \<or> proc_base i + 0x40000 \<le> unat x"
  then have "\<not> in_region x (stack_page p) 4096" "unat x < proc_base i \<or> proc_base i + 0x3F000 \<le> unat x"
    unfolding stack_region [OF p] by linarith+
  then show "m5 x = memory s x"
    using late early copy_image(2) [OF p n, where m = "memory s1"] by (simp add: m2_def)
qed

lemma loaded_stages:
  assumes L: "layout_ok L" and p: "pid p = of_nat i" "i < 8" and img: "image_ok L prog n"
    and A: "pages_taken (kernel_pagetables L) (program_page_set p n) s s1"
    and B: "pages_taken (kernel_pagetables L) {stack_page p}
      (s1\<lparr>memory := copy_image (memory s1) (user_base p) (image_begin prog) (of_nat n)\<rparr>) s4"
  shows "loaded L i prog n s (s4\<lparr>memory := memset (memory s4) (stack_page p) 0 PAGE_SIZE\<rparr>)"
proof -
  let ?K = "kernel_pagetables L" and ?img = "image_begin prog" and ?m5 = "memset (memory s4) (stack_page p) 0 PAGE_SIZE"
  let ?m2 = "copy_image (memory s1) (user_base p) ?img (of_nat n)"
  have n: "0 < n" "n \<le> 0x3F000" "unat ?img + n \<le> 0x100000" using img by (simp_all add: image_ok_def)
  note st = stack_region [OF p] and mem = stages_memory [OF p img A B]
  have K: "unat x < proc_base i" if "in_region x ?K 0x5000" for x using tables_region [OF L that] by (simp add: proc_base_def)
  have "mem_bytes ?m5 (user_base p) n = mem_bytes (memory s) ?img n"
  proof (rule image_bytes_loaded [OF p img])
    show "mem_bytes ?m2 (user_base p) n = mem_bytes (memory s1) ?img n" using copy_image(1) [OF p n] by simp
    show "memory s1 x = memory s x" if "\<not> in_region x ?K 0x5000" "unat x < proc_base i" for x using mem(1) that by blast
    show "?m5 x = ?m2 x" if x: "proc_base i \<le> unat x" "unat x < proc_base i + 0x3F000" for x
    proof (rule mem(2))
      show "\<not> in_region x ?K 0x5000" using K [of x] x(1) by auto
      show "\<not> in_region x (stack_page p) 4096" using st x(2) by simp
    qed
  qed
  moreover have "?m5 x = 0" if "proc_base i + 0x3F000 \<le> unat x \<and> unat x < proc_base i + 0x40000" for x
    using st that by (simp add: memset_apply)
  moreover have "length (frames_info s4) = FRAME_NUMBER" using B by (simp add: pages_taken_def)
  moreover have "of_nat (proc_base i) = user_base p" using user_base_eq [OF p] by simp
  ultimately show ?thesis using mem(3) stages_tables [OF L p img A B] by (simp add: loaded_def)
qed

lemma load_memory_spec:
  assumes L: "layout_ok L" and p: "pid p = of_nat i" "i < 8" "page_table p = kernel_pagetables L"
    and img: "image_ok L prog n"
    and s: "upper_tables (kernel_pagetables L) (memory s)" "length (frames_info s) = FRAME_NUMBER"
  shows "\<exists>s'. load_memory prog p s = Inr s' \<and> loaded L i prog n s s'"
proof -
  let ?K = "kernel_pagetables L" and ?b = "user_base p" and ?img = "image_begin prog"
  let ?as = "map (\<lambda>k. user_base p + of_nat k * PAGE_SIZE) [0..<program_pages n]"
  have n: "0 < n" "n \<le> 0x3F000" "unat ?img + n \<le> 0x100000" "image_end prog - ?img = of_nat n"
    using img by (simp_all add: image_ok_def)
  note pp = program_pages [OF n(1,2)] and up = user_pages [OF p(1,2)]
  have as: "set ?as = program_page_set p n" by (simp add: program_page_set_def lessThan_atLeast0)
  have ups: "\<forall>a \<in> set ?as. user_page a" using up(1) pp(2) by auto
  obtain s1 where s1: "load_pages ?K (pid p) ?as s = Inr s1" "pages_taken ?K (program_page_set p n) s s1"
    using load_pages_spec [OF L s ups, of "pid p"] unfolding as by blast
  define s2 where "s2 = s1\<lparr>memory := copy_image (memory s1) ?b ?img (of_nat n)\<rparr>"
  have keep2: "memory s2 x = memory s1 x" if "in_region x ?K 0x5000" for x
    using tables_region [OF L that] copy_image(2) [OF p(1,2) n(1-3)] by (simp add: s2_def proc_base_def)
  have s2: "upper_tables ?K (memory s2)" "length (frames_info s2) = FRAME_NUMBER"
    using s1(2) tables_cong(1) [OF keep2] by (simp_all add: pages_taken_def s2_def)
  obtain s3 where s3: "map_page ?K (stack_page p) (stack_page p) 7 None s2 = Inr s3"
      "pages_taken ?K {stack_page p} s2 (snd (assign_physical_page (stack_page p) (pid p) s3))"
    using map_and_assign [OF L up(1) [of 63] s2, of "pid p"] by auto
  have f3: "frames_info s3 = frames_info s1"
    using map_page_frames [OF L s2(1) _ s3(1)] up(1) [of 63] by (simp add: user_page_def s2_def)
  have "?b \<in> program_page_set p n" using pp(1) by (auto simp: program_page_set_def intro: image_eqI [of _ _ 0])
  then have "refcount (frames_info s3 ! (unat ?b div 4096)) \<noteq> 0" using s1(2) f3 by (auto simp: pages_taken_def)
  then have noop: "snd (assign_physical_page ?b (pid p) s3) = s3"
    using assign_page_frame(5) [of s3 ?b "pid p"] up(1) [of 0] s1(2) f3 by (simp add: pages_taken_def)
  let ?s4 = "snd (assign_physical_page (stack_page p) (pid p) s3)"
  have st: "?b + PROC_SIZE - PAGE_SIZE = stack_page p" by simp
  have "load_memory prog p s = Inr (?s4\<lparr>memory := memset (memory ?s4) (stack_page p) 0 PAGE_SIZE\<rparr>)"
    unfolding load_memory_eq Let_def n(4) pp(4) st p(3)
    by (simp only: s1(1) bind_Inr s2_def [symmetric] s3(1) noop)
  then show ?thesis using loaded_stages [OF L p(1,2) img s1(2) s3(2) [unfolded s2_def]] by blast
qed

section \<open>The invariant\<close>

definition system_ok :: "layout \<Rightarrow> system \<Rightarrow> bool" where
  "system_ok L s \<longleftrightarrow> procs_ok L s \<and> current s < PROC_NUMBER \<and>
     upper_tables (kernel_pagetables L) (memory (vmem s)) \<and> length (frames_info (vmem s)) = FRAME_NUMBER"

lemma procs_ok_update:
  assumes "procs_ok L s" "pid q = pid (procs s ! i)" "page_table q = page_table (procs s ! i)"
  shows "procs_ok L (s\<lparr>procs := (procs s)[i := q]\<rparr>)"
  using assms by (cases "i < PROC_NUMBER") (auto simp: procs_ok_def nth_list_update)

lemma procs_ok_vmem [simp]: "procs_ok L (s\<lparr>vmem := v, procs := ps\<rparr>) = procs_ok L (s\<lparr>procs := ps\<rparr>)"
  by (simp add: procs_ok_def)

lemma load_process_spec:
  assumes L: "layout_ok L" and s: "system_ok L s" and i: "i < 8" and img: "image_ok L (ramimages ! k) n"
  shows "\<exists>s'. load_process ramimages i k s = Inr s' \<and> system_ok L s' \<and>
    loaded L i (ramimages ! k) n (vmem s) (vmem s') \<and> current s' = current s \<and>
    procs s' = (procs s)[i := (procs s ! i)
      \<lparr>reg := (reg (procs s ! i))\<lparr>reg_rip := of_nat (proc_base i), reg_rsp := of_nat (proc_base i + 0x40000 - 8)\<rparr>,
       pstate := P_RUNNABLE\<rparr>]"
proof -
  let ?q = "procs s ! i"
  have q: "pid ?q = of_nat i" "page_table ?q = kernel_pagetables L"
    using s i by (auto simp: system_ok_def procs_ok_def)
  obtain v where v: "load_memory (ramimages ! k) ?q (vmem s) = Inr v" "loaded L i (ramimages ! k) n (vmem s) v"
    using load_memory_spec [OF L q(1) i q(2) img] s by (auto simp: system_ok_def)
  have b: "user_base ?q = of_nat (proc_base i)"
    by (rule user_base_eq [OF q(1) i])
  have "user_base ?q + PROC_SIZE - 8 = of_nat (proc_base i + 0x40000 - 8)" by (simp add: b proc_base_def)
  then show ?thesis
    using v s b procs_ok_update [of L s _ i] q
    by (auto simp: load_process_def Let_def system_ok_def loaded_def)
qed

lemma run_ok: "system_ok L s \<Longrightarrow> i < PROC_NUMBER \<Longrightarrow> system_ok L (run i s)"
  by (simp add: run_def system_ok_def procs_ok_def change_pagetable_eq)

lemma schedule_ok: "system_ok L s \<Longrightarrow> system_ok L (schedule s)"
  using schedule_eq [of L s] next_process_range [of "current s" "procs s"] run_ok [of L s]
  unfolding system_ok_def by auto

lemma sys_stop_ok:
  assumes "system_ok L s" "sys_stop r s = Inr s'"
  shows "system_ok L s'"
  using assms procs_ok_update [of L s "(procs s ! unat (reg_rdi r))\<lparr>pstate := P_FREE\<rparr>" "unat (reg_rdi r)"]
  by (auto simp: sys_stop_def kassert_def system_ok_def Let_def split: if_splits)

text \<open>The table after the loop of \<open>init_processes\<close>.\<close>

definition fresh_proc :: "layout \<Rightarrow> nat \<Rightarrow> proc" where
  "fresh_proc L i = \<lparr>pid = of_nat i,
     reg = zero_registers\<lparr>reg_cs := 0x13, reg_fs := 0x23, reg_gs := 0x23, reg_ss := 0x23, reg_rflags := 0x200\<rparr>,
     pstate = P_FREE, page_table = kernel_pagetables L\<rparr>"

lemma init_process_fresh:
  assumes "i < length (procs s)" "procs s ! i = zero_proc"
  shows "procs (init_process L i (s\<lparr>procs := (procs s)[i := (procs s ! i)\<lparr>pid := of_nat i\<rparr>]\<rparr>))
    = (procs s)[i := fresh_proc L i]"
    "vmem (init_process L i (s\<lparr>procs := ps\<rparr>)) = vmem s" "current (init_process L i (s\<lparr>procs := ps\<rparr>)) = current s"
  using assms by (simp_all add: init_process_def Let_def fresh_proc_def zero_proc_def)

lemma init_processes_table:
  fixes s :: system and L :: layout
  assumes "k \<le> 8"
  defines "s' \<equiv> fold (\<lambda>i s. init_process L i (s\<lparr>procs := (procs s)[i := (procs s ! i)\<lparr>pid := of_nat i\<rparr>]\<rparr>))
    [0..<k] (s\<lparr>procs := replicate 8 zero_proc\<rparr>)"
  shows "length (procs s') = 8" "i < 8 \<Longrightarrow> procs s' ! i = (if i < k then fresh_proc L i else zero_proc)"
    "vmem s' = vmem s" "current s' = current s"
proof -
  have "length (procs s') = 8 \<and> (\<forall>i < 8. procs s' ! i = (if i < k then fresh_proc L i else zero_proc)) \<and>
      vmem s' = vmem s \<and> current s' = current s"
    unfolding s'_def using assms(1)
  proof (induction k)
    case (Suc k)
    then show ?case
      using init_process_fresh [of k _ L] by (auto simp: nth_list_update less_Suc_eq)
  qed simp
  then show "length (procs s') = 8" "i < 8 \<Longrightarrow> procs s' ! i = (if i < k then fresh_proc L i else zero_proc)"
    "vmem s' = vmem s" "current s' = current s" by auto
qed

lemma init_processes_spec:
  assumes L: "layout_ok L" and img: "image_ok L (ramimages ! 0) n" and c: "current s < 8"
    and v: "upper_tables (kernel_pagetables L) (memory (vmem s))" "length (frames_info (vmem s)) = FRAME_NUMBER"
  shows "\<exists>s'. init_processes L ramimages s = Inr s' \<and> system_ok L s' \<and>
    loaded L 0 (ramimages ! 0) n (vmem s) (vmem s') \<and> runnable (procs s') 0 \<and>
    (\<forall>i. 1 \<le> i \<and> i < PROC_NUMBER \<longrightarrow> procs s' ! i = fresh_proc L i)"
proof -
  define s1 where "s1 = fold (\<lambda>i s. init_process L i (s\<lparr>procs := (procs s)[i := (procs s ! i)\<lparr>pid := of_nat i\<rparr>]\<rparr>))
    [0..<8] (s\<lparr>procs := replicate 8 zero_proc\<rparr>)"
  note t = init_processes_table [where k = 8 and L = L and s = s, folded s1_def, simplified]
  have "system_ok L s1" using t v c by (simp add: system_ok_def procs_ok_def fresh_proc_def)
  from load_process_spec [OF L this _ img, of 0] t show ?thesis
    unfolding init_processes_def Let_def s1_def [symmetric] by (auto simp: runnable_def)
qed

section \<open>An example system\<close>

definition example_image :: ramimage where
  "example_image = \<lparr>image_begin = 0x40000, image_end = 0x42000\<rparr>"

definition example_system :: system where
  "example_system = \<lparr>vmem = init_tables example_layout example_vm, procs = map (fresh_proc example_layout) [0..<8],
     current = 0, own_frames = replicate FRAME_NUMBER \<lparr>owner = 0, refcount = 0\<rparr>, cpu = zero_registers\<rparr>"

lemma image_ok_example: "image_ok example_layout example_image 0x2000"
proof -
  have "\<not> in_region (0x40000 + of_nat j) 0x50000 0x5000" if "j < 0x2000" for j
  proof -
    have "unat (0x40000 + of_nat j :: u64) = 0x40000 + j" using that by (simp add: unat_word_ariths unat_of_nat)
    then show ?thesis using that in_region_bounds [of "0x50000" "0x5000" "0x40000 + of_nat j"] by simp
  qed
  then show ?thesis by (simp add: image_ok_def example_image_def example_layout_def)
qed

lemma system_ok_example: "system_ok example_layout example_system"
  using init_tables_entries [OF layout_ok_example, of example_vm] example_frames(2)
  by (simp add: system_ok_def example_system_def procs_ok_def fresh_proc_def del: upt_Suc)

end
