(* ===== verification/Keyboard.thy ===== *)
theory Keyboard
  imports Console Process_Load
begin

text \<open>
  kernel/shell.c: the keyboard interrupt handler and the ring buffer of characters. The byte
  that \<open>inb(0x60)\<close> returns is an argument. \<open>keyboard_waiting\<close> is the index of the process it
  points to, or None for the null pointer. \<open>schedule\<close> does not return, so the handler also
  says whether control has left for a process. The buffer keeps 15 characters; its contract is
  the locale \<open>bounded_queue\<close>.
\<close>

section \<open>State\<close>

abbreviation (input) KB_BUFFER_SIZE :: nat where "KB_BUFFER_SIZE \<equiv> 16"

record keyboard =
  extended :: c_int
  is_shifted :: c_int
  kb_buffer :: bytes
  kb_head :: int
  kb_tail :: int
  keyboard_waiting :: "nat option"

text \<open>The parts of the kernel that the handler reaches.\<close>

record machine =
  mio :: io
  msys :: system
  mkb :: keyboard

definition keyboard_init :: keyboard where
  "keyboard_init = \<lparr>extended = 0, is_shifted = 0, kb_buffer = replicate KB_BUFFER_SIZE 0, kb_head = 0,
     kb_tail = 0, keyboard_waiting = None\<rparr>"

section \<open>Operations\<close>

definition kb_buffer_put :: "u8 \<Rightarrow> keyboard \<Rightarrow> keyboard" where
  "kb_buffer_put c k =
     (let next = (kb_head k + 1) smod 16 in
      if next \<noteq> kb_tail k
      then k\<lparr>kb_buffer := (kb_buffer k)[nat (kb_head k) := c], kb_head := next\<rparr> else k)"

text \<open>Taking the oldest character, as \<open>keyboard_handler\<close> and \<open>sys_getchar_handler\<close> do.\<close>

definition kb_buffer_get :: "keyboard \<Rightarrow> u8 \<times> keyboard" where
  "kb_buffer_get k = (kb_buffer k ! nat (kb_tail k), k\<lparr>kb_tail := (kb_tail k + 1) smod 16\<rparr>)"

text \<open>What a scan code does to the keyboard before the interrupt is acknowledged.\<close>

definition scan_code :: "u8 \<Rightarrow> keyboard \<Rightarrow> keyboard" where
  "scan_code c k =
     (let ascii_code = keyboard_to_ascii c (is_shifted k);
          k = (if c = 0xE0 then k\<lparr>extended := 1\<rparr>
               else if c = 0x2A \<or> c = 0x36 then k\<lparr>is_shifted := is_shifted k + 1\<rparr>
               else if c = 0xAA \<or> c = 0xB6 then k\<lparr>is_shifted := is_shifted k - 1\<rparr>
               else if extended k \<noteq> 0 \<and> c = 0x4B then kb_buffer_put 1 k
               else if extended k \<noteq> 0 \<and> c = 0x4D then kb_buffer_put 2 k
               else if extended k \<noteq> 0 \<and> c = 0x48 then kb_buffer_put 3 k
               else if ascii_code \<noteq> 0 then kb_buffer_put ascii_code k
               else k)
      in if c \<noteq> 0xE0 then k\<lparr>extended := 0\<rparr> else k)"

text \<open>Giving a character to a process: its \<open>rax\<close>, sign-extended, and its state.\<close>

definition deliver :: "nat \<Rightarrow> u8 \<Rightarrow> system \<Rightarrow> system" where
  "deliver p c s = s\<lparr>procs := (procs s)[p := (procs s ! p)
     \<lparr>reg := (reg (procs s ! p))\<lparr>reg_rax := scast c\<rparr>, pstate := P_RUNNABLE\<rparr>]\<rparr>"

definition keyboard_handler :: "u8 \<Rightarrow> 'a machine_scheme \<Rightarrow> bool \<times> 'a machine_scheme" where
  "keyboard_handler c s =
     (let s = s\<lparr>mkb := scan_code c (mkb s), mio := outb 0x20 0x20 (mio s)\<rparr> in
      case keyboard_waiting (mkb s) of
        None \<Rightarrow> (False, s)
      | Some p \<Rightarrow>
          if kb_head (mkb s) \<noteq> kb_tail (mkb s) then
            let (ch, k) = kb_buffer_get (mkb s)
            in (True, s\<lparr>mkb := k, msys := schedule (deliver p ch (msys s))\<rparr>)
          else (False, s))"

section \<open>The ring buffer is a bounded queue\<close>

text \<open>The next \<open>n\<close> elements taken from a queue.\<close>

primrec drain :: "('s \<Rightarrow> 'c \<times> 's) \<Rightarrow> nat \<Rightarrow> 's \<Rightarrow> 'c list" where
  "drain get 0 s = []"
| "drain get (Suc n) s = (let (c, s) = get s in c # drain get n s)"

locale bounded_queue =
  fixes put :: "'c \<Rightarrow> 's \<Rightarrow> 's"
    and get :: "'s \<Rightarrow> 'c \<times> 's"
    and contents :: "'s \<Rightarrow> 'c list"
    and ok :: "'s \<Rightarrow> bool"
    and cap :: nat
  assumes contents_put: "ok s \<Longrightarrow>
      contents (put c s) = (if length (contents s) < cap then contents s @ [c] else contents s)"
    and ok_put: "ok s \<Longrightarrow> ok (put c s)"
    and contents_get: "ok s \<Longrightarrow> contents s \<noteq> [] \<Longrightarrow>
      fst (get s) = hd (contents s) \<and> contents (snd (get s)) = tl (contents s)"
    and ok_get: "ok s \<Longrightarrow> ok (snd (get s))"
    and bounded: "ok s \<Longrightarrow> length (contents s) \<le> cap"
begin

lemma fold_put:
  "ok s \<Longrightarrow> ok (fold put cs s) \<and> contents (fold put cs s) = contents s @ take (cap - length (contents s)) cs"
proof (induction cs arbitrary: s)
  case (Cons c cs)
  then have IH: "ok (fold put cs (put c s))" "contents (fold put cs (put c s)) =
      contents (put c s) @ take (cap - length (contents (put c s))) cs"
    using ok_put by blast+
  show ?case
  proof (cases "length (contents s) < cap")
    case True
    then have "cap - length (contents s) = Suc (cap - Suc (length (contents s)))" by simp
    then show ?thesis using IH True Cons.prems by (simp add: contents_put)
  qed (use IH Cons.prems in \<open>simp add: contents_put\<close>)
qed simp

lemma drain_contents: "ok s \<Longrightarrow> n \<le> length (contents s) \<Longrightarrow> drain get n s = take n (contents s)"
proof (induction n arbitrary: s)
  case (Suc n)
  then have ne: "contents s \<noteq> []" by auto
  obtain c s' where g: "get s = (c, s')" by (cases "get s")
  have c: "c = hd (contents s)" "contents s' = tl (contents s)" "ok s'"
    using contents_get [OF Suc.prems(1) ne] ok_get [OF Suc.prems(1)] g by auto
  then have "drain get n s' = take n (tl (contents s))" using Suc by (cases "contents s") auto
  with c g ne show ?case by (cases "contents s") simp_all
qed simp

text \<open>First in, first out: what is read back is what was put, as far as it fitted.\<close>

lemma fifo:
  assumes "ok s" "contents s = []" "length cs \<le> cap"
  shows "drain get (length cs) (fold put cs s) = cs"
  using fold_put [OF assms(1), of cs] drain_contents [of "fold put cs s" "length cs"] assms(2,3) by simp

end

definition keyboard_ok :: "keyboard \<Rightarrow> bool" where
  "keyboard_ok k \<longleftrightarrow> length (kb_buffer k) = KB_BUFFER_SIZE \<and> 0 \<le> kb_head k \<and> kb_head k < 16 \<and>
     0 \<le> kb_tail k \<and> kb_tail k < 16"

definition kb_count :: "keyboard \<Rightarrow> nat" where
  "kb_count k = nat ((kb_head k - kb_tail k) mod 16)"

definition kb_contents :: "keyboard \<Rightarrow> bytes" where
  "kb_contents k = map (\<lambda>i. kb_buffer k ! ((nat (kb_tail k) + i) mod 16)) [0..<kb_count k]"

text \<open>Arithmetic on the ring, by cases on the wrap-around.\<close>

lemma ring_succ: "0 \<le> i \<Longrightarrow> i < 16 \<Longrightarrow> (i + 1) mod (16 :: int) = (if i = 15 then 0 else i + 1)"
  by auto

lemma ring_diff:
  assumes "0 \<le> h" "h < 16" "0 \<le> t" "t < (16 :: int)"
  shows "(h - t) mod 16 = (if t \<le> h then h - t else h - t + 16)"
proof (cases "t \<le> h")
  case False
  then have "(h - t + 16) mod 16 = h - t + 16" using assms by (intro mod_pos_pos_trivial) simp_all
  with False show ?thesis by simp
qed (use assms in simp)

lemma ring_sum:
  assumes "0 \<le> t" "t < 16" "0 \<le> i" "i < (16 :: int)"
  shows "(t + i) mod 16 = (if t + i < 16 then t + i else t + i - 16)"
proof (cases "t + i < 16")
  case False
  then have "(t + i - 16) mod 16 = t + i - 16" using assms by (intro mod_pos_pos_trivial) simp_all
  with False show ?thesis by simp
qed (use assms in simp)

lemma ring_next: "0 \<le> i \<Longrightarrow> i < 16 \<Longrightarrow> (i + 1) smod 16 = (i + 1) mod (16 :: int)"
  by (simp add: smod_int_alt_def)

lemma length_kb_contents: "length (kb_contents k) = kb_count k"
  by (simp add: kb_contents_def)

lemma kb_count_less: "kb_count k < 16"
  by (simp add: kb_count_def nat_less_iff)

lemma kb_nonempty:
  assumes "keyboard_ok k"
  shows "kb_head k \<noteq> kb_tail k \<longleftrightarrow> kb_contents k \<noteq> []"
proof -
  have "kb_head k = kb_tail k \<longleftrightarrow> (kb_head k - kb_tail k) mod 16 = 0"
    using assms by (auto simp: keyboard_ok_def ring_diff)
  also have "\<dots> \<longleftrightarrow> kb_count k = 0" by (simp add: kb_count_def nat_eq_iff)
  finally show ?thesis by (metis length_0_conv length_kb_contents)
qed

lemma kb_full:
  assumes "keyboard_ok k"
  shows "(kb_head k + 1) smod 16 \<noteq> kb_tail k \<longleftrightarrow> kb_count k < 15"
proof -
  have h: "(kb_head k + 1) smod 16 = (kb_head k + 1) mod 16"
    using assms by (intro ring_next) (simp_all add: keyboard_ok_def)
  have "(kb_head k + 1) mod 16 = kb_tail k \<longleftrightarrow> (kb_head k - kb_tail k) mod 16 = 15"
    using assms by (auto simp: keyboard_ok_def ring_diff ring_succ)
  moreover have "(kb_head k - kb_tail k) mod 16 = 15 \<longleftrightarrow> \<not> kb_count k < 15"
    using kb_count_less [of k] by (auto simp: kb_count_def nat_less_iff nat_eq_iff)
  ultimately show ?thesis using h by simp
qed

text \<open>Where the free place at the head lies in the order of the contents.\<close>

lemma ring_head:
  assumes "keyboard_ok k" "i \<le> kb_count k"
  shows "(nat (kb_tail k) + i) mod 16 = nat (kb_head k) \<longleftrightarrow> i = kb_count k"
proof -
  have ok: "0 \<le> kb_head k" "kb_head k < 16" "0 \<le> kb_tail k" "kb_tail k < 16" using assms(1) by (simp_all add: keyboard_ok_def)
  have "i < 16" using assms(2) kb_count_less [of k] by simp
  then have "(kb_tail k + int i) mod 16 = kb_head k \<longleftrightarrow> int i = (kb_head k - kb_tail k) mod 16"
    using ok by (auto simp: ring_diff ring_sum)
  moreover have "int ((nat (kb_tail k) + i) mod 16) = (kb_tail k + int i) mod 16" using ok by (simp add: zmod_int)
  moreover have "x = nat (kb_head k) \<longleftrightarrow> int x = kb_head k" for x using ok(1) by auto
  moreover have "i = kb_count k \<longleftrightarrow> int i = (kb_head k - kb_tail k) mod 16" by (auto simp: kb_count_def)
  ultimately show ?thesis by (simp only:)
qed

lemma kb_put_room:
  fixes c :: u8
  assumes "keyboard_ok k" "kb_count k < 15"
  defines "k' \<equiv> k\<lparr>kb_buffer := (kb_buffer k)[nat (kb_head k) := c], kb_head := (kb_head k + 1) smod 16\<rparr>"
  shows "kb_contents k' = kb_contents k @ [c]"
proof -
  have ok: "length (kb_buffer k) = 16" "0 \<le> kb_head k" "kb_head k < 16" "0 \<le> kb_tail k" "kb_tail k < 16"
    using assms(1) by (simp_all add: keyboard_ok_def)
  let ?b = "(kb_buffer k)[nat (kb_head k) := c]"
  have "((kb_head k + 1) mod 16 - kb_tail k) mod 16 = (kb_head k - kb_tail k) mod 16 + 1"
    using assms(2) ok by (auto simp: kb_count_def nat_less_iff ring_diff ring_succ)
  then have "kb_count k' = Suc (kb_count k)" by (simp add: kb_count_def k'_def ring_next [OF ok(2,3)] nat_add_distrib)
  then have "kb_contents k' = map (\<lambda>i. ?b ! ((nat (kb_tail k) + i) mod 16)) [0..<Suc (kb_count k)]"
    unfolding kb_contents_def by (simp add: k'_def)
  moreover have "?b ! ((nat (kb_tail k) + kb_count k) mod 16) = c"
    using ring_head [OF assms(1), of "kb_count k"] ok(1-3) by simp
  moreover have "?b ! ((nat (kb_tail k) + i) mod 16) = kb_buffer k ! ((nat (kb_tail k) + i) mod 16)" if "i < kb_count k" for i
    using ring_head [OF assms(1), of i] that by simp
  ultimately show ?thesis by (simp add: kb_contents_def)
qed

lemma kb_put_contents:
  assumes "keyboard_ok k"
  shows "kb_contents (kb_buffer_put c k) = (if kb_count k < 15 then kb_contents k @ [c] else kb_contents k)"
    "keyboard_ok (kb_buffer_put c k)"
proof -
  show "kb_contents (kb_buffer_put c k) = (if kb_count k < 15 then kb_contents k @ [c] else kb_contents k)"
    using kb_put_room [OF assms] kb_full [OF assms] by (simp add: kb_buffer_put_def Let_def)
  show "keyboard_ok (kb_buffer_put c k)"
    using assms by (auto simp: kb_buffer_put_def Let_def keyboard_ok_def ring_next)
qed

lemma kb_get_contents:
  assumes "keyboard_ok k"
  shows "keyboard_ok (snd (kb_buffer_get k))"
    "kb_contents k \<noteq> [] \<Longrightarrow> fst (kb_buffer_get k) = hd (kb_contents k) \<and>
      kb_contents (snd (kb_buffer_get k)) = tl (kb_contents k)"
proof -
  have ok: "length (kb_buffer k) = 16" "0 \<le> kb_head k" "kb_head k < 16" "0 \<le> kb_tail k" "kb_tail k < 16"
    using assms by (simp_all add: keyboard_ok_def)
  note nx = ring_next [OF ok(4,5)]
  show "keyboard_ok (snd (kb_buffer_get k))"
    using ok by (simp add: kb_buffer_get_def keyboard_ok_def nx)
  assume ne: "kb_contents k \<noteq> []"
  then obtain n where n: "kb_count k = Suc n" by (metis length_0_conv length_kb_contents not0_implies_Suc)
  let ?k = "k\<lparr>kb_tail := (kb_tail k + 1) smod 16\<rparr>"
  have "kb_count ?k = n"
  proof -
    have "(kb_head k - kb_tail k) mod 16 = int n + 1" using n by (simp add: kb_count_def)
    then have "(kb_head k - (kb_tail k + 1) mod 16) mod 16 = int n"
      using ok by (auto simp: ring_diff ring_succ split: if_splits)
    then show ?thesis by (simp add: kb_count_def nx)
  qed
  moreover have "(nat ((kb_tail k + 1) mod 16) + i) mod 16 = (nat (kb_tail k) + Suc i) mod 16" for i
  proof -
    have "int ((nat ((kb_tail k + 1) mod 16) + i) mod 16) = int ((nat (kb_tail k) + Suc i) mod 16)"
      using ok by (simp add: zmod_int mod_simps ac_simps)
    then show ?thesis by simp
  qed
  ultimately have "kb_contents ?k = map (\<lambda>i. kb_buffer k ! ((nat (kb_tail k) + i) mod 16)) (map Suc [0..<n])"
    by (simp add: kb_contents_def nx)
  also have "map Suc [0..<n] = [1..<Suc n]" by (simp add: map_Suc_upt)
  finally have t: "kb_contents ?k = map (\<lambda>i. kb_buffer k ! ((nat (kb_tail k) + i) mod 16)) [1..<Suc n]" .
  have c: "kb_contents k = kb_buffer k ! nat (kb_tail k) # map (\<lambda>i. kb_buffer k ! ((nat (kb_tail k) + i) mod 16)) [1..<Suc n]"
    using ok by (simp add: kb_contents_def n upt_conv_Cons del: upt_Suc)
  show "fst (kb_buffer_get k) = hd (kb_contents k) \<and> kb_contents (snd (kb_buffer_get k)) = tl (kb_contents k)"
    unfolding c by (simp add: kb_buffer_get_def t del: upt_Suc)
qed

interpretation ring: bounded_queue kb_buffer_put kb_buffer_get kb_contents keyboard_ok 15
  using kb_count_less by unfold_locales (simp_all add: kb_put_contents kb_get_contents length_kb_contents less_Suc_eq_le [symmetric])

section \<open>Invariant\<close>

definition machine_ok :: "layout \<Rightarrow> 'a machine_scheme \<Rightarrow> bool" where
  "machine_ok L s \<longleftrightarrow> system_ok L (msys s) \<and> keyboard_ok (mkb s) \<and>
     (\<forall>p. keyboard_waiting (mkb s) = Some p \<longrightarrow> p < PROC_NUMBER)"

lemma keyboard_ok_flags [simp]:
  "keyboard_ok (k\<lparr>extended := e\<rparr>) = keyboard_ok k" "keyboard_ok (k\<lparr>is_shifted := e\<rparr>) = keyboard_ok k"
  "keyboard_ok (k\<lparr>keyboard_waiting := w\<rparr>) = keyboard_ok k"
  by (simp_all add: keyboard_ok_def)

lemma kb_contents_flags [simp]:
  "kb_contents (k\<lparr>extended := e\<rparr>) = kb_contents k" "kb_contents (k\<lparr>is_shifted := e\<rparr>) = kb_contents k"
  "kb_contents (k\<lparr>keyboard_waiting := w\<rparr>) = kb_contents k"
  by (simp_all add: kb_contents_def kb_count_def)

lemma kb_buffer_put_flags [simp]:
  "extended (kb_buffer_put c k) = extended k" "is_shifted (kb_buffer_put c k) = is_shifted k"
  "keyboard_waiting (kb_buffer_put c k) = keyboard_waiting k"
  by (simp_all add: kb_buffer_put_def Let_def)

lemma kb_buffer_get_flags [simp]:
  "extended (snd (kb_buffer_get k)) = extended k" "is_shifted (snd (kb_buffer_get k)) = is_shifted k"
  "keyboard_waiting (snd (kb_buffer_get k)) = keyboard_waiting k"
  by (simp_all add: kb_buffer_get_def)

lemma scan_code_ok:
  assumes "keyboard_ok k"
  shows "keyboard_ok (scan_code c k)" "keyboard_waiting (scan_code c k) = keyboard_waiting k"
  using assms kb_put_contents(2) by (simp_all add: scan_code_def Let_def)

text \<open>The character a scan code stands for; 0 when it stands for none.\<close>

definition key_char :: "u8 \<Rightarrow> keyboard \<Rightarrow> u8" where
  "key_char c k =
     (if c \<in> {0xE0, 0x2A, 0x36, 0xAA, 0xB6} then 0
      else if extended k \<noteq> 0 \<and> c = 0x4B then 1
      else if extended k \<noteq> 0 \<and> c = 0x4D then 2
      else if extended k \<noteq> 0 \<and> c = 0x48 then 3
      else keyboard_to_ascii c (is_shifted k))"

lemma scan_code_contents:
  assumes "keyboard_ok k"
  shows "kb_contents (scan_code c k) =
    (if key_char c k \<noteq> 0 \<and> length (kb_contents k) < 15 then kb_contents k @ [key_char c k] else kb_contents k)"
  using assms by (simp add: scan_code_def Let_def key_char_def kb_put_contents(1) length_kb_contents)

lemma scan_code_flags:
  "is_shifted (scan_code c k) =
     (if c = 0x2A \<or> c = 0x36 then is_shifted k + 1 else if c = 0xAA \<or> c = 0xB6 then is_shifted k - 1
      else is_shifted k)"
  "extended (scan_code c k) = (if c = 0xE0 then 1 else 0)"
  by (simp_all add: scan_code_def Let_def)

lemma deliver_ok: "system_ok L s \<Longrightarrow> system_ok L (deliver p c s)"
  unfolding deliver_def system_ok_def
  by (auto intro: procs_ok_update)

text \<open>The handler in terms of the queue.\<close>

lemma keyboard_handler_eq:
  assumes "keyboard_ok (mkb s)"
  shows "keyboard_handler c s =
    (let k = scan_code c (mkb s); s = s\<lparr>mkb := k, mio := outb 0x20 0x20 (mio s)\<rparr> in
     case keyboard_waiting k of
       None \<Rightarrow> (False, s)
     | Some p \<Rightarrow>
         if kb_contents k = [] then (False, s)
         else (True, s\<lparr>mkb := snd (kb_buffer_get k), msys := schedule (deliver p (hd (kb_contents k)) (msys s))\<rparr>))"
proof -
  have ok: "keyboard_ok (scan_code c (mkb s))" by (rule scan_code_ok [OF assms])
  show ?thesis
    using kb_nonempty [OF ok] kb_get_contents(2) [OF ok]
    by (simp add: keyboard_handler_def Let_def split_beta split: option.split)
qed

lemma keyboard_handler_ok:
  assumes "machine_ok L s"
  shows "machine_ok L (snd (keyboard_handler c s))"
proof -
  have k: "keyboard_ok (mkb s)" using assms by (simp add: machine_ok_def)
  show ?thesis
    using assms scan_code_ok [OF k, of c] kb_get_contents(1) [OF scan_code_ok(1) [OF k], of c] schedule_ok deliver_ok
    by (simp add: keyboard_handler_eq [OF k] Let_def machine_ok_def split: option.split)
qed

section \<open>Examples\<close>

definition example_machine :: machine where
  "example_machine = \<lparr>mio = \<lparr>vga = (\<lambda>_. 0), ports = []\<rparr>, msys = example_system, mkb = keyboard_init\<rparr>"

lemma keyboard_init_ok: "keyboard_ok keyboard_init" "kb_contents keyboard_init = []"
  by (simp_all add: keyboard_ok_def keyboard_init_def kb_contents_def kb_count_def)

lemma machine_ok_example:
  "machine_ok example_layout (example_machine\<lparr>mkb := keyboard_init\<lparr>keyboard_waiting := Some 1\<rparr>\<rparr>)"
  using system_ok_example keyboard_init_ok by (simp add: machine_ok_def example_machine_def)

lemma key_a: "keyboard_to_ascii 0x10 0 = 0x61" "keyboard_to_ascii 0x10 1 = 0x41" "keyboard_to_ascii 0x10 2 = 0x41"
  by (simp_all add: keyboard_to_ascii_def lowercase_caracters_row1_def uppercase_caracters_row1_def)

section \<open>Properties\<close>

text \<open>C27:
  The ring buffer is a queue of at most 15 characters: putting characters appends them in order
  and drops the newest ones when it is full, never an older one, and taking characters returns
  them in the order they were put.\<close>

theorem kb_fifo:
  assumes "keyboard_ok k"
  shows "kb_contents (fold kb_buffer_put cs k) = kb_contents k @ take (15 - length (kb_contents k)) cs \<and>
    drain kb_buffer_get (length (kb_contents (fold kb_buffer_put cs k))) (fold kb_buffer_put cs k) =
      kb_contents k @ take (15 - length (kb_contents k)) cs"
proof -
  let ?k = "fold kb_buffer_put cs k"
  have k: "keyboard_ok ?k" "kb_contents ?k = kb_contents k @ take (15 - length (kb_contents k)) cs"
    using ring.fold_put [OF assms, of cs] by blast+
  have "drain kb_buffer_get (length (kb_contents ?k)) ?k = kb_contents ?k"
    using ring.drain_contents [OF k(1) order_refl] by simp
  then show ?thesis unfolding k(2) by blast
qed

theorem kb_fifo_witness:
  "kb_contents (fold kb_buffer_put (replicate 20 7) keyboard_init) = replicate 15 7"
  using kb_fifo [OF keyboard_init_ok(1), of "replicate 20 7"] keyboard_init_ok(2) by simp

text \<open>A key press keeps the invariant of the keyboard and of the processes, acknowledges the
  interrupt, and, when no process waits for a key, only changes the keyboard: the character of
  the key is appended to the buffer if there is room.\<close>

theorem key_press_buffered:
  assumes "machine_ok L s" "keyboard_waiting (mkb s) = None"
  shows "\<exists>s'. keyboard_handler c s = (False, s') \<and> machine_ok L s' \<and>
    ports (mio s') = ports (mio s) @ [(0x20, 0x20)] \<and> vga (mio s') = vga (mio s) \<and> msys s' = msys s \<and>
    kb_contents (mkb s') =
      (if key_char c (mkb s) \<noteq> 0 \<and> length (kb_contents (mkb s)) < 15
       then kb_contents (mkb s) @ [key_char c (mkb s)] else kb_contents (mkb s))"
proof -
  have k: "keyboard_ok (mkb s)" using assms(1) by (simp add: machine_ok_def)
  show ?thesis
    using keyboard_handler_ok [OF assms(1), of c] assms(2) scan_code_ok(2) [OF k, of c] scan_code_contents [OF k, of c]
    by (simp add: keyboard_handler_eq [OF k] Let_def outb_def)
qed

theorem key_press_buffered_witness:
  "\<exists>s'. keyboard_handler 0x10 example_machine = (False, s') \<and> kb_contents (mkb s') = [0x61]"
proof -
  have "machine_ok example_layout example_machine" "keyboard_waiting (mkb example_machine) = None"
    "kb_contents (mkb example_machine) = []" "key_char 0x10 (mkb example_machine) = 0x61"
    using system_ok_example keyboard_init_ok key_a(1)
    by (simp_all add: machine_ok_def example_machine_def keyboard_init_def key_char_def)
  then show ?thesis using key_press_buffered [of example_layout example_machine "0x10"] by auto
qed

text \<open>A key press that leaves a character in the buffer while a process waits gives that process the
  oldest character in \<open>rax\<close>, takes it from the buffer, makes the process runnable and leaves for
  the process that the scheduler chooses, which is not the idle process.\<close>

theorem key_press_wakes:
  assumes "machine_ok L s" "keyboard_waiting (mkb s) = Some p" "1 \<le> p"
    and "kb_contents (scan_code c (mkb s)) = ch # rest"
  shows "\<exists>s'. keyboard_handler c s = (True, s') \<and> machine_ok L s' \<and> kb_contents (mkb s') = rest \<and>
    runnable (procs (msys s')) p \<and> reg_rax (reg (procs (msys s') ! p)) = scast ch \<and>
    current (msys s') \<noteq> 0 \<and> runnable (procs (msys s')) (current (msys s'))"
proof -
  let ?k = "scan_code c (mkb s)" and ?sys = "deliver p ch (msys s)"
  have k: "keyboard_ok (mkb s)" and p: "p < 8" and sys: "system_ok L (msys s)"
    using assms(1,2) by (simp_all add: machine_ok_def)
  have h: "keyboard_handler c s =
      (True, s\<lparr>mkb := snd (kb_buffer_get ?k), mio := outb 0x20 0x20 (mio s), msys := schedule ?sys\<rparr>)"
    using assms(2,4) scan_code_ok(2) [OF k, of c] by (simp add: keyboard_handler_eq [OF k] Let_def)
  have rest: "kb_contents (snd (kb_buffer_get ?k)) = rest"
    using kb_get_contents(2) [OF scan_code_ok(1) [OF k]] assms(4) by simp
  have d: "runnable (procs ?sys) p" "reg_rax (reg (procs ?sys ! p)) = scast ch"
    using sys p by (simp_all add: deliver_def runnable_def system_ok_def procs_ok_def)
  have ok: "system_ok L ?sys" by (rule deliver_ok [OF sys])
  then have c: "current ?sys < 8" "procs_ok L ?sys" by (simp_all add: system_ok_def)
  have "\<exists>i \<in> {1..<8}. runnable (procs ?sys) i" using d(1) p assms(3) by auto
  then have "next_process (procs ?sys) (current ?sys) \<in> {1..<8} \<and>
      runnable (procs ?sys) (next_process (procs ?sys) (current ?sys))"
    using next_process_first [OF c(1), of "procs ?sys"] by simp
  then have "current (schedule ?sys) \<noteq> 0 \<and> runnable (procs ?sys) (current (schedule ?sys))"
    using schedule_eq [OF c(2,1)] by (auto simp: run_def)
  moreover have "procs (schedule ?sys) = procs ?sys" by (simp add: schedule_def run_def)
  ultimately show ?thesis
    using h rest d keyboard_handler_ok [OF assms(1), of c] by simp
qed

theorem key_press_wakes_witness:
  "\<exists>s'. keyboard_handler 0x10 (example_machine\<lparr>mkb := keyboard_init\<lparr>keyboard_waiting := Some 1\<rparr>\<rparr>) = (True, s') \<and>
     runnable (procs (msys s')) 1 \<and> reg_rax (reg (procs (msys s') ! 1)) = 0x61"
proof -
  let ?k = "keyboard_init\<lparr>keyboard_waiting := Some 1\<rparr>"
  have k: "keyboard_ok ?k" "kb_contents ?k = []" using keyboard_init_ok by simp_all
  have "key_char 0x10 ?k = 0x61" using key_a(1) by (simp add: key_char_def keyboard_init_def)
  then have "kb_contents (scan_code 0x10 ?k) = 0x61 # []" using scan_code_contents [OF k(1), of "0x10"] k(2) by simp
  then show ?thesis
    using key_press_wakes [OF machine_ok_example, of 1 "0x10" "0x61" "[]"] by auto
qed

text \<open>A character typed while shift is held is the upper row's, and releasing shift restores the
  state; but a shift key that repeats while it is held is counted again, so that its single
  release leaves the keyboard shifted.\<close>

theorem shift_counting:
  assumes "keyboard_ok k" "is_shifted k = 0" "length (kb_contents k) < 15" "c \<in> {0x10..0x1B}"
  shows "kb_contents (fold scan_code [0x2A, c, 0xAA] k) = kb_contents k @ [uppercase_caracters_row1 ! unat (c - 0x10)] \<and>
    is_shifted (fold scan_code [0x2A, c, 0xAA] k) = 0 \<and>
    is_shifted (fold scan_code [0x2A, 0x2A, c, 0xAA] k) = 1"
proof -
  have c: "0x10 \<le> c" "c \<le> 0x1B" using assms(4) by simp_all
  have u: "unat c \<in> {16..27}" using c by (simp add: word_le_nat_alt)
  have ne: "c \<notin> {0xE0, 0x2A, 0x36, 0xAA, 0xB6, 0x4B, 0x4D, 0x48}" "\<not> c \<le> 0x0B"
    using u by (auto simp: word_le_nat_alt)
  let ?k = "scan_code 0x2A k"
  have k: "keyboard_ok ?k" "kb_contents ?k = kb_contents k" "is_shifted ?k = 1"
    using scan_code_ok(1) [OF assms(1)] scan_code_contents [OF assms(1), of "0x2A"] assms(2)
    by (simp_all add: key_char_def scan_code_flags)
  have up: "keyboard_to_ascii c 1 = uppercase_caracters_row1 ! unat (c - 0x10)"
    using c ne(2) by (simp add: keyboard_to_ascii_def)
  have "unat (c - 0x10) \<in> {0, 1, 2, 3, 4, 5, 6, 7, 8, 9, 10, 11}" using u c by (simp add: unat_sub) presburger
  then have "uppercase_caracters_row1 ! unat (c - 0x10) \<noteq> 0"
    by (auto simp: uppercase_caracters_row1_def)
  then have ch: "key_char c ?k = uppercase_caracters_row1 ! unat (c - 0x10)" "key_char c ?k \<noteq> 0"
    using ne(1) up k(3) by (simp_all add: key_char_def)
  have "kb_contents (scan_code c ?k) = kb_contents k @ [uppercase_caracters_row1 ! unat (c - 0x10)]"
    using scan_code_contents [OF k(1), of c] ch k(2) assms(3) by simp
  then have "kb_contents (scan_code 0xAA (scan_code c ?k)) = kb_contents k @ [uppercase_caracters_row1 ! unat (c - 0x10)]"
    using scan_code_contents [OF scan_code_ok(1) [OF k(1)], of "0xAA" c] by (simp add: key_char_def)
  moreover have "is_shifted (scan_code 0xAA (scan_code c (scan_code 0x2A k))) = 0"
    "is_shifted (scan_code 0xAA (scan_code c (scan_code 0x2A (scan_code 0x2A k)))) = 1"
    using ne(1) assms(2) by (simp_all add: scan_code_flags)
  ultimately show ?thesis by simp
qed

theorem shift_counting_witness:
  "is_shifted (fold scan_code [0x2A, 0x2A, 0x10, 0xAA] keyboard_init) = 1"
  using shift_counting [OF keyboard_init_ok(1), of "0x10"] keyboard_init_ok(2) by (simp add: keyboard_init_def)

text \<open>\<open>keyboard_waiting\<close> is not cleared when its process is woken: the next key press overwrites the
  saved \<open>rax\<close> of that process although it is running its program and does not wait.\<close>

theorem wakeup_repeats:
  assumes "machine_ok L s" "keyboard_waiting (mkb s) = Some p" "1 \<le> p"
    and "kb_contents (mkb s) = []" "key_char c (mkb s) \<noteq> 0" "key_char c' (mkb (snd (keyboard_handler c s))) \<noteq> 0"
  shows "\<exists>s' s''. keyboard_handler c s = (True, s') \<and> runnable (procs (msys s')) p \<and>
    keyboard_handler c' s' = (True, s'') \<and>
    reg_rax (reg (procs (msys s'') ! p)) = scast (key_char c' (mkb s'))"
proof -
  let ?s = "snd (keyboard_handler c s)"
  have k: "keyboard_ok (mkb s)" and p: "p < 8" and sys: "system_ok L (msys s)"
    using assms(1,2) by (simp_all add: machine_ok_def)
  have w: "keyboard_waiting (scan_code c (mkb s)) = Some p" using scan_code_ok(2) [OF k] assms(2) by simp
  have 1: "kb_contents (scan_code c (mkb s)) = [key_char c (mkb s)]"
    using scan_code_contents [OF k, of c] assms(4,5) by simp
  then have h: "keyboard_handler c s = (True, s\<lparr>mkb := snd (kb_buffer_get (scan_code c (mkb s))),
      mio := outb 0x20 0x20 (mio s), msys := schedule (deliver p (key_char c (mkb s)) (msys s))\<rparr>)"
    using w by (simp add: keyboard_handler_eq [OF k] Let_def)
  have e: "kb_contents (mkb ?s) = []" "keyboard_waiting (mkb ?s) = Some p"
    using h kb_get_contents(2) [OF scan_code_ok(1) [OF k, of c]] 1 w by simp_all
  have r: "runnable (procs (msys ?s)) p"
    using h sys p by (simp add: schedule_def run_def deliver_def runnable_def system_ok_def procs_ok_def)
  have ok: "machine_ok L ?s" by (rule keyboard_handler_ok [OF assms(1)])
  then have k': "keyboard_ok (mkb ?s)" and sys': "system_ok L (msys ?s)" by (simp_all add: machine_ok_def)
  have 2: "kb_contents (scan_code c' (mkb ?s)) = [key_char c' (mkb ?s)]"
    using scan_code_contents [OF k', of c'] e(1) assms(6) by simp
  then have h': "keyboard_handler c' ?s = (True, ?s\<lparr>mkb := snd (kb_buffer_get (scan_code c' (mkb ?s))),
      mio := outb 0x20 0x20 (mio ?s), msys := schedule (deliver p (key_char c' (mkb ?s)) (msys ?s))\<rparr>)"
    using scan_code_ok(2) [OF k', of c'] e(2) by (simp add: keyboard_handler_eq [OF k'] Let_def)
  have "reg_rax (reg (procs (schedule (deliver p (key_char c' (mkb ?s)) (msys ?s))) ! p)) = scast (key_char c' (mkb ?s))"
    using sys' p by (simp add: schedule_def run_def deliver_def system_ok_def procs_ok_def)
  then have "reg_rax (reg (procs (msys (snd (keyboard_handler c' ?s))) ! p)) = scast (key_char c' (mkb ?s))"
    unfolding h' by simp
  moreover have "keyboard_handler c s = (True, ?s)" "keyboard_handler c' ?s = (True, snd (keyboard_handler c' ?s))"
    using h h' by (simp_all add: prod_eq_iff)
  ultimately show ?thesis using r by blast
qed

theorem wakeup_repeats_witness:
  "\<exists>s' s''. keyboard_handler 0x10 (example_machine\<lparr>mkb := keyboard_init\<lparr>keyboard_waiting := Some 1\<rparr>\<rparr>) = (True, s') \<and>
     runnable (procs (msys s')) 1 \<and> keyboard_handler 0x10 s' = (True, s'')"
proof -
  let ?s = "example_machine\<lparr>mkb := keyboard_init\<lparr>keyboard_waiting := Some 1\<rparr>\<rparr>"
  have c: "key_char 0x10 (mkb ?s) \<noteq> 0" using key_a(1) by (simp add: key_char_def keyboard_init_def)
  have "key_char 0x10 (mkb (snd (keyboard_handler 0x10 ?s))) \<noteq> 0"
    using key_a(1) by (simp add: keyboard_handler_def Let_def split_beta key_char_def scan_code_flags keyboard_init_def split: option.split)
  then show ?thesis
    using wakeup_repeats [OF machine_ok_example, of 1 "0x10" "0x10"] c keyboard_init_ok(2) by auto
qed

end
