(* ===== verification/Sector_Store.thy ===== *)
theory Sector_Store
  imports Kernel_Prelude
begin

text \<open>
  The interface between the file system and the disk driver: every drive is an array of
  512-byte sectors, and the kernel has one sector buffer, \<open>diskBuffer\<close>
  (kernel/disk.c), that every sector is read into and written from. The file system of
  kernel/fat32.c reaches the disk through these two operations only.
\<close>

section \<open>Definitions\<close>

record drive_info =
  channel :: c_int
  drive :: u8

record fs =
  disk :: "drive_info \<Rightarrow> nat \<Rightarrow> bytes"
  diskBuffer :: bytes

definition read_sector :: "drive_info \<Rightarrow> u32 \<Rightarrow> fs \<Rightarrow> fs" where
  "read_sector dr n s = s\<lparr>diskBuffer := disk s dr (unat n)\<rparr>"

definition write_sector :: "drive_info \<Rightarrow> u32 \<Rightarrow> fs \<Rightarrow> fs" where
  "write_sector dr n s = s\<lparr>disk := (disk s)(dr := (disk s dr)(unat n := diskBuffer s))\<rparr>"

text \<open>Every sector, and the buffer, holds exactly 512 bytes.\<close>

definition fs_ok :: "fs \<Rightarrow> bool" where
  "fs_ok s \<longleftrightarrow> length (diskBuffer s) = 512 \<and> (\<forall>dr n. length (disk s dr n) = 512)"

section \<open>The contract\<close>

locale sector_device =
  fixes rd :: "drive_info \<Rightarrow> u32 \<Rightarrow> 's \<Rightarrow> 's"
    and wr :: "drive_info \<Rightarrow> u32 \<Rightarrow> 's \<Rightarrow> 's"
    and buf :: "'s \<Rightarrow> bytes"
    and sec :: "'s \<Rightarrow> drive_info \<Rightarrow> nat \<Rightarrow> bytes"
    and ok :: "'s \<Rightarrow> bool"
  assumes rd_buf: "ok s \<Longrightarrow> buf (rd dr n s) = sec s dr (unat n)"
    and rd_sec: "ok s \<Longrightarrow> sec (rd dr n s) = sec s"
    and wr_buf: "ok s \<Longrightarrow> buf (wr dr n s) = buf s"
    and wr_sec: "ok s \<Longrightarrow> sec (wr dr n s) dr' k =
      (if dr' = dr \<and> k = unat n then buf s else sec s dr' k)"
    and ok_rd: "ok s \<Longrightarrow> ok (rd dr n s)"
    and ok_wr: "ok s \<Longrightarrow> ok (wr dr n s)"
    and ok_len: "ok s \<Longrightarrow> length (sec s dr k) = 512"
begin

lemma read_after_write:
  assumes "ok s"
  shows "buf (rd dr n (wr dr n s)) = buf s"
  using assms by (simp add: rd_buf ok_wr wr_sec)

lemma read_other_after_write:
  assumes "ok s" "dr' \<noteq> dr \<or> n' \<noteq> n"
  shows "buf (rd dr' n' (wr dr n s)) = sec s dr' (unat n')"
  using assms by (auto simp: rd_buf ok_wr wr_sec word_unat_eq_iff)

lemma write_back:
  assumes "ok s"
  shows "sec (wr dr n (rd dr n s)) = sec s"
  using assms by (intro ext) (auto simp: rd_buf rd_sec ok_rd wr_sec)

text \<open>A run of writes of the same buffer, as the FAT mirror loop and the cluster wipe do.\<close>

lemma fold_wr:
  assumes "ok s"
  shows "ok (fold (\<lambda>i. wr dr (g i)) xs s) \<and> buf (fold (\<lambda>i. wr dr (g i)) xs s) = buf s \<and>
    sec (fold (\<lambda>i. wr dr (g i)) xs s) dr' k =
      (if dr' = dr \<and> (\<exists>i\<in>set xs. k = unat (g i)) then buf s else sec s dr' k)"
  using assms
proof (induction xs arbitrary: s)
  case Nil
  then show ?case by simp
next
  case (Cons x xs)
  then show ?case by (auto simp: ok_wr wr_buf wr_sec)
qed

end

interpretation store: sector_device read_sector write_sector diskBuffer disk fs_ok
  by unfold_locales (auto simp: read_sector_def write_sector_def fs_ok_def)

lemmas sector_simps = store.rd_buf store.rd_sec store.wr_buf store.wr_sec store.ok_rd store.ok_wr

end
