(* ===== verification/Fat32.thy ===== *)
theory Fat32
  imports Sector_Store "HOL-Library.Signed_Division"
begin

text \<open>
  kernel/fat32.c and kernel/fat32.h: the FAT32 operations, as the source writes them.
  An \<open>int\<close> of the source is a 32-bit word, compared through \<open>sint\<close>. The casts of
  \<open>diskBuffer\<close> are the little-endian loads and stores of the prelude. A \<open>char *\<close>
  argument is the function from offsets to the bytes behind the pointer, since the
  source gives it no length. Local arrays that the source leaves uninitialised are
  completely written before they are read, so their first contents do not matter.
\<close>

section \<open>Data\<close>

record FAT32_Metadata =
  sectorPerCluster :: c_int
  rootCluster :: c_int
  fatLBA :: c_int
  fstClusterLBA :: c_int
  sectorPerFat :: c_int
  nbFats :: c_int
  hardDrive :: drive_info

record FAT32_entry =
  ename :: bytes
  eattr :: u8
  efstCluster :: u32
  esize :: u32

definition isValidEntry :: "FAT32_entry \<Rightarrow> bool" where
  "isValidEntry entry = (if ename entry ! 0 = 0 then False else True)"

definition isRemovedEntry :: "FAT32_entry \<Rightarrow> bool" where
  "isRemovedEntry entry = (if ename entry ! 0 = 0xE5 then True else False)"

definition isDirectory :: "FAT32_entry \<Rightarrow> u8" where
  "isDirectory entry = eattr entry AND push_bit 4 1"

section \<open>The boot sector\<close>

definition readBootSector :: "drive_info \<Rightarrow> u32 \<Rightarrow> fs \<Rightarrow> (FAT32_Metadata \<times> fs) result" where
  "readBootSector hardDrive' partitionAddr s =
     (let s = read_sector hardDrive' partitionAddr s; b = diskBuffer s in
      if load16 b 0x1FE \<noteq> 0xAA55 then Inl (Panic ''Invalid partition'')
      else if load16 b 0x0B \<noteq> 512 then
        Inl (Panic ''This OS only supports hard drives with sectors of 512 bytes'')
      else
        let sectorsPerCluster = ucast (b ! 0x0D);
            rootCluster' = load32 b 0x2C;
            numberReservedSectors = ucast (load16 b 0x0E);
            sectorPerFat' = load32 b 0x24;
            nbFats' = ucast (b ! 0x10);
            fatLBA' = partitionAddr + numberReservedSectors
        in Inr (\<lparr>sectorPerCluster = sectorsPerCluster, rootCluster = rootCluster',
                 fatLBA = fatLBA', fstClusterLBA = fatLBA' + sectorPerFat' * nbFats',
                 sectorPerFat = sectorPerFat', nbFats = nbFats', hardDrive = hardDrive'\<rparr>, s))"

section \<open>The file allocation table\<close>

definition updateEveryFat :: "FAT32_Metadata \<Rightarrow> c_int \<Rightarrow> fs \<Rightarrow> fs" where
  "updateEveryFat m sectorFirstFat s =
     fold (\<lambda>i. write_sector (hardDrive m) (sectorFirstFat + of_nat i * sectorPerFat m))
       [0..<nat (sint (nbFats m))] s"

text \<open>The first sector of a cluster, as the source computes it everywhere.\<close>

definition clusterSector :: "FAT32_Metadata \<Rightarrow> u32 \<Rightarrow> u32" where
  "clusterSector m c = fstClusterLBA m + sectorPerCluster m * (c - 2)"

definition wipe_buffer :: "bytes \<Rightarrow> bytes" where
  "wipe_buffer b = fold (\<lambda>i b. b[i := 0]) [0..<512] b"

text \<open>
  The part of \<open>allocateFreeCluster\<close> after a free entry was found: mark it, mirror the
  sector, wipe the cluster, and link it behind \<open>lastCluster\<close>. For a negative
  \<open>lastCluster\<close> C's remainder can be negative: then the access is outside the buffer.
\<close>

definition claimCluster :: "FAT32_Metadata \<Rightarrow> c_int \<Rightarrow> c_int \<Rightarrow> c_int \<Rightarrow> fs \<Rightarrow> (c_int \<times> fs) result" where
  "claimCluster m lastCluster indexSector clusterIndex s =
     (let s = s\<lparr>diskBuffer := store32 (diskBuffer s) (4 * (unat clusterIndex mod 128)) 0x0FFFFFFF\<rparr>;
          s = updateEveryFat m indexSector s;
          s = s\<lparr>diskBuffer := wipe_buffer (diskBuffer s)\<rparr>;
          s = fold (\<lambda>i. write_sector (hardDrive m) (clusterSector m clusterIndex + of_nat i))
                [0..<nat (sint (sectorPerCluster m))] s
      in if lastCluster \<noteq> 0 then
           let sector = fatLBA m + signed_drop_bit 7 lastCluster;
               s = read_sector (hardDrive m) sector s;
               slot = sint lastCluster smod 128
           in if slot < 0 then Inl OutOfBounds
              else
                let s = s\<lparr>diskBuffer := store32 (diskBuffer s) (4 * nat slot) clusterIndex\<rparr>
                in Inr (clusterIndex, updateEveryFat m sector s)
         else Inr (clusterIndex, s))"

text \<open>
  The search of \<open>allocateFreeCluster\<close>. \<open>clusterIndex\<close> only counts up from 2, so
  \<open>clusterIndex % 128\<close> is not negative before the counter overflows.
\<close>

function alloc_loop ::
  "FAT32_Metadata \<Rightarrow> c_int \<Rightarrow> c_int \<Rightarrow> c_int \<Rightarrow> fs \<Rightarrow> (c_int \<times> fs) result" where
  "alloc_loop m lastCluster indexSector clusterIndex s =
     (if sint indexSector < sint (fatLBA m + sectorPerFat m) then
        let s = read_sector (hardDrive m) indexSector s in
        if load32 (diskBuffer s) (4 * (unat clusterIndex mod 128)) = 0 then
          claimCluster m lastCluster indexSector clusterIndex s
        else
          let clusterIndex' = clusterIndex + 1 in
          alloc_loop m lastCluster
            (if unat clusterIndex' mod 128 = 0 then indexSector + 1 else indexSector)
            clusterIndex' s
      else Inl (Panic ''no new cluster can be allocated''))"
  by pat_completeness auto

text \<open>
  The search ends for every metadata record: the sector counter only rises to its bound,
  and between two rises there are at most 128 entries.
\<close>

lemma sint_plus_one:
  assumes "sint (a :: c_int) < sint (b :: c_int)"
  shows "sint (a + 1) = sint a + 1"
proof -
  have "signed_take_bit 31 (sint a + 1) = sint a + 1"
    using assms sint_lt [of b] sint_ge [of a] by (intro signed_take_bit_int_eq_self) simp_all
  then show ?thesis by (simp add: sint_word_ariths)
qed

lemma unat_plus_one_mod:
  "unat ((c :: c_int) + 1) mod 128 \<noteq> 0 \<Longrightarrow> unat (c + 1) mod 128 = Suc (unat c mod 128)"
proof -
  have "unat (c + 1) mod 128 = (unat c + 1) mod 2 ^ 32 mod 128"
    by (simp add: unat_word_ariths)
  also have "\<dots> = (unat c + 1) mod 128"
    by (rule mod_mod_cancel) simp
  finally show "unat (c + 1) mod 128 \<noteq> 0 \<Longrightarrow> unat (c + 1) mod 128 = Suc (unat c mod 128)"
    by (simp add: mod_Suc split: if_splits)
qed

termination alloc_loop
proof (relation "measures [\<lambda>(m, l, i, c, s). nat (sint (fatLBA m + sectorPerFat m) - sint i),
    \<lambda>(m, l, i, c, s). 128 - unat c mod 128]", goal_cases)
  case 1
  then show ?case by simp
next
  case (2 m l i c s s' c')
  then show ?case
    using sint_plus_one [of i "fatLBA m + sectorPerFat m"] unat_plus_one_mod [of c]
      mod_less_divisor [of 128 "unat c"]
    by auto
qed

declare alloc_loop.simps [simp del]

definition allocateFreeCluster :: "FAT32_Metadata \<Rightarrow> c_int \<Rightarrow> fs \<Rightarrow> (c_int \<times> fs) result" where
  "allocateFreeCluster m lastCluster s = alloc_loop m lastCluster (fatLBA m) 2 s"

definition nextCluster :: "FAT32_Metadata \<Rightarrow> u32 \<Rightarrow> fs \<Rightarrow> (c_int \<times> fs) result" where
  "nextCluster m dirCluster s =
     (let s = read_sector (hardDrive m) (fatLBA m + drop_bit 7 dirCluster) s;
          newDirCluster = load32 (diskBuffer s) (4 * (unat dirCluster mod 128))
      in if 0x0FFFFFF8 \<le> sint newDirCluster then allocateFreeCluster m dirCluster s
         else Inr (newDirCluster, s))"

section \<open>File names\<close>

text \<open>
  \<open>strip_spaces f n\<close> is \<open>index + 1\<close> after the loop that starts at \<open>index = n - 1\<close>; the
  loop also looks at the byte before the name once \<open>index\<close> is \<open>-1\<close>, and stops there
  whatever it reads.
\<close>

primrec strip_spaces :: "bytes \<Rightarrow> nat \<Rightarrow> nat" where
  "strip_spaces f 0 = 0"
| "strip_spaces f (Suc n) = (if f ! n = 0x20 then strip_spaces f n else Suc n)"

definition readFileName :: "bytes \<Rightarrow> bytes \<Rightarrow> bytes" where
  "readFileName fat32Name filename =
     (if fat32Name ! 0 = 0 then filename[0 := 0]
      else
        let n = strip_spaces fat32Name 8;
            filename = fold (\<lambda>i f. f[i := fat32Name ! i]) [0..<n] filename
        in if fat32Name ! 8 = 0x20 then filename[n := 0]
           else
             let filename = filename[n := 0x2E];
                 filename = fold (\<lambda>i f. f[n + i + 1 := fat32Name ! (8 + i)]) [0..<3] filename
             in filename[n + 4 := 0])"

text \<open>
  The first loop of \<open>writeFileName\<close>: \<open>None\<close> when it returned at the terminator,
  otherwise the index it stopped at.
\<close>

function write_base :: "(nat \<Rightarrow> u8) \<Rightarrow> nat \<Rightarrow> bytes \<Rightarrow> bytes \<times> nat option" where
  "write_base filename index fat32Name =
     (if index < 8 \<and> filename index \<noteq> 0x2E then
        if filename index = 0 then (fat32Name, None)
        else write_base filename (Suc index) (fat32Name[index := filename index])
      else (fat32Name, Some index))"
  by pat_completeness auto
termination
  by (relation "measure (\<lambda>(f, i, n). 8 - i)") auto

declare write_base.simps [simp del]

definition writeFileName :: "bytes \<Rightarrow> (nat \<Rightarrow> u8) \<Rightarrow> bytes" where
  "writeFileName fat32Name filename =
     (let fat32Name = fold (\<lambda>i f. f[i := 0x20]) [0..<11] fat32Name in
      case write_base filename 0 fat32Name of
        (fat32Name, None) \<Rightarrow> fat32Name
      | (fat32Name, Some index) \<Rightarrow>
          fold (\<lambda>i f. f[8 + i := filename (index + i + 1)]) [0..<3] fat32Name)"

section \<open>Directories\<close>

primrec walk_clusters :: "FAT32_Metadata \<Rightarrow> nat \<Rightarrow> u32 \<Rightarrow> fs \<Rightarrow> (u32 \<times> fs) result" where
  "walk_clusters m 0 dirCluster s = Inr (dirCluster, s)"
| "walk_clusters m (Suc n) dirCluster s =
     bind (nextCluster m dirCluster s) (\<lambda>(dirCluster, s). walk_clusters m n dirCluster s)"

text \<open>
  \<open>getToDirEl\<close> leaves the sector that holds record \<open>index\<close> in the buffer, and returns
  the offset of the record in it and the sector's number. The two divisions by
  \<open>sectorPerCluster\<close> fault when it is 0.
\<close>

definition getToDirEl ::
  "FAT32_Metadata \<Rightarrow> u32 \<Rightarrow> u32 \<Rightarrow> fs \<Rightarrow> ((nat \<times> c_int) \<times> fs) result" where
  "getToDirEl m dirCluster index s =
     (let indexSector = sint (index div 16) in
      if sectorPerCluster m = 0 then Inl DivideError
      else
        let indexCluster = indexSector sdiv sint (sectorPerCluster m);
            indexSector = indexSector smod sint (sectorPerCluster m)
        in bind (walk_clusters m (nat indexCluster) dirCluster s) (\<lambda>(dirCluster, s).
           let sector = clusterSector m dirCluster + word_of_int indexSector;
               s = read_sector (hardDrive m) sector s
           in Inr ((unat (index mod 16) * 32, sector), s)))"

definition getMetadataFileFromDirectory ::
  "FAT32_Metadata \<Rightarrow> u32 \<Rightarrow> u32 \<Rightarrow> FAT32_entry \<Rightarrow> fs \<Rightarrow> (FAT32_entry \<times> fs) result" where
  "getMetadataFileFromDirectory m dirCluster index entry s =
     bind (getToDirEl m dirCluster index s) (\<lambda>((record, sector), s).
     let b = diskBuffer s;
         c = push_bit 16 (ucast (load16 b (record + 20))) + ucast (load16 b (record + 26))
     in Inr (\<lparr>ename = readFileName (drop record b) (ename entry),
              eattr = b ! (record + 11),
              efstCluster = (if c = 0 then 2 else c),
              esize = load32 b (record + 28)\<rparr>, s))"

text \<open>
  The search of \<open>addFileToDirectory\<close> for a record whose first byte is 0: it goes on
  along the cluster chain, and never ends when the chain is a cycle of full clusters.
\<close>

partial_function (option) add_loop ::
  "FAT32_Metadata \<Rightarrow> u32 \<Rightarrow> u32 \<Rightarrow> c_int \<Rightarrow> nat \<Rightarrow> fs \<Rightarrow> ((u32 \<times> c_int \<times> nat) \<times> fs) result option" where
  "add_loop m dirCluster sector indexSector indexRecord s =
     (if diskBuffer s ! (32 * indexRecord) = 0 then Some (Inr ((sector, indexSector, indexRecord), s))
      else if Suc indexRecord < 16 then
        add_loop m dirCluster sector indexSector (Suc indexRecord) s
      else if sint (indexSector + 1) < sint (sectorPerCluster m) then
        add_loop m dirCluster (clusterSector m dirCluster) (indexSector + 1) 0
          (read_sector (hardDrive m) (clusterSector m dirCluster + (indexSector + 1)) s)
      else
        (case nextCluster m dirCluster s of
           Inl e \<Rightarrow> Some (Inl e)
         | Inr (dirCluster, s) \<Rightarrow>
             add_loop m dirCluster (clusterSector m dirCluster) 0 0
               (read_sector (hardDrive m) (clusterSector m dirCluster + 0) s)))"

definition fill_record :: "bytes \<Rightarrow> nat \<Rightarrow> FAT32_entry \<Rightarrow> bytes" where
  "fill_record b record entry =
     (let b = fold (\<lambda>i b. b[record + i := ename entry ! i]) [0..<11] b;
          b = b[record + 11 := eattr entry];
          b = store16 b (record + 20) (ucast (drop_bit 16 (efstCluster entry)));
          b = store16 b (record + 26) (ucast (efstCluster entry mod 0x10000))
      in store32 b (record + 28) (esize entry mod 0x10000))"

definition addFileToDirectory ::
  "FAT32_Metadata \<Rightarrow> u32 \<Rightarrow> FAT32_entry \<Rightarrow> fs \<Rightarrow> (unit \<times> fs) result" where
  "addFileToDirectory m dirCluster entry s =
     (let sector = clusterSector m dirCluster;
          s = read_sector (hardDrive m) (sector + 0) s
      in bind (of_loop (add_loop m dirCluster sector 0 0 s))
           (\<lambda>((sector, indexSector, indexRecord), s).
         let s = s\<lparr>diskBuffer := fill_record (diskBuffer s) (32 * indexRecord) entry\<rparr>
         in Inr ((), write_sector (hardDrive m) (sector + indexSector) s)))"

definition blank_name :: bytes where
  "blank_name = replicate 13 0"

definition mkdir :: "FAT32_Metadata \<Rightarrow> u32 \<Rightarrow> (nat \<Rightarrow> u8) \<Rightarrow> fs \<Rightarrow> (unit \<times> fs) result" where
  "mkdir m dirCluster directoryName s =
     bind (allocateFreeCluster m 0 s) (\<lambda>(fstCluster, s).
     let entry = \<lparr>ename = writeFileName blank_name directoryName, eattr = 16,
                  efstCluster = fstCluster, esize = 0\<rparr> in
     bind (addFileToDirectory m dirCluster entry s) (\<lambda>(u, s).
     let entry = entry\<lparr>ename := fold (\<lambda>i f. f[i := 0x20]) [0..<11] (ename entry)\<rparr>;
         entry = entry\<lparr>ename := (ename entry)[0 := 0x2E]\<rparr> in
     bind (addFileToDirectory m fstCluster entry s) (\<lambda>(u, s).
     let entry = entry\<lparr>ename := (ename entry)[1 := 0x2E], efstCluster := dirCluster\<rparr> in
     addFileToDirectory m fstCluster entry s)))"

section \<open>Files\<close>

text \<open>
  \<open>readFile\<close>: the bytes written to the caller's buffer, in order. A negative size reads
  one sector and copies nothing.
\<close>

function readFile_loop ::
  "FAT32_Metadata \<Rightarrow> u32 \<Rightarrow> c_int \<Rightarrow> c_int \<Rightarrow> bytes \<Rightarrow> fs \<Rightarrow> (bytes \<times> fs) result" where
  "readFile_loop m fileCluster indexSector bufferSize buffer s =
     (if bufferSize = 0 then Inr (buffer, s)
      else
        let copySize = (if 512 \<le> sint bufferSize then 512 else bufferSize);
            s = read_sector (hardDrive m) (clusterSector m fileCluster + indexSector) s;
            buffer = buffer @ take (nat (sint copySize)) (diskBuffer s);
            bufferSize = bufferSize - copySize;
            indexSector = indexSector + 1
        in if sint (sectorPerCluster m) \<le> sint indexSector then
             bind (nextCluster m fileCluster s) (\<lambda>(fileCluster, s).
               readFile_loop m fileCluster 0 bufferSize buffer s)
           else readFile_loop m fileCluster indexSector bufferSize buffer s)"
  by pat_completeness auto

lemma sint_minus_512:
  assumes "512 \<le> sint (b :: c_int)"
  shows "sint (b - 512) = sint b - 512"
proof -
  have "signed_take_bit 31 (sint b - 512) = sint b - 512"
    using assms sint_lt [of b] by (intro signed_take_bit_int_eq_self) simp_all
  then show ?thesis by (simp add: sint_word_ariths)
qed

definition transfer_measure :: "c_int \<Rightarrow> nat" where
  "transfer_measure b = (if b = 0 then 0 else if sint b < 0 then 1 else nat (sint b))"

lemma transfer_measure_decreases:
  assumes "b \<noteq> 0"
  shows "transfer_measure (b - (if 512 \<le> sint b then 512 else b)) < transfer_measure b"
proof -
  have "sint b \<noteq> 0" using assms by (metis sint_0 signed_word_eqI)
  then show ?thesis
    using assms by (auto simp: transfer_measure_def sint_minus_512)
qed

termination readFile_loop
  by (relation "measure (\<lambda>(m, c, i, b, x, s). transfer_measure b)")
    (use transfer_measure_decreases in \<open>simp_all split del: if_split\<close>)

declare readFile_loop.simps [simp del]

definition readFile :: "FAT32_Metadata \<Rightarrow> u32 \<Rightarrow> c_int \<Rightarrow> fs \<Rightarrow> (bytes \<times> fs) result" where
  "readFile m fileCluster bufferSize s = readFile_loop m fileCluster 0 bufferSize [] s"

function writeFile_loop ::
  "FAT32_Metadata \<Rightarrow> c_int \<Rightarrow> c_int \<Rightarrow> c_int \<Rightarrow> (nat \<Rightarrow> u8) \<Rightarrow> nat \<Rightarrow> fs \<Rightarrow> (unit \<times> fs) result" where
  "writeFile_loop m fileCluster indexSector bufferSize buffer bufferIndex s =
     (if bufferSize = 0 then Inr ((), s)
      else
        let copySize = (if 512 \<le> sint bufferSize then 512 else bufferSize);
            sector = clusterSector m fileCluster + indexSector;
            s = read_sector (hardDrive m) sector s;
            s = s\<lparr>diskBuffer := fold (\<lambda>i b. b[i := buffer (bufferIndex + i)])
                    [0..<nat (sint copySize)] (diskBuffer s)\<rparr>;
            bufferIndex = bufferIndex + nat (sint copySize);
            s = write_sector (hardDrive m) sector s;
            bufferSize = bufferSize - copySize;
            indexSector = indexSector + 1
        in if sint (sectorPerCluster m) \<le> sint indexSector then
             bind (nextCluster m fileCluster s) (\<lambda>(fileCluster, s).
               writeFile_loop m fileCluster 0 bufferSize buffer bufferIndex s)
           else writeFile_loop m fileCluster indexSector bufferSize buffer bufferIndex s)"
  by pat_completeness auto

termination writeFile_loop
  by (relation "measure (\<lambda>(m, c, i, b, x, k, s). transfer_measure b)")
    (use transfer_measure_decreases in \<open>simp_all split del: if_split\<close>)

declare writeFile_loop.simps [simp del]

definition writeFile ::
  "FAT32_Metadata \<Rightarrow> u32 \<Rightarrow> (nat \<Rightarrow> u8) \<Rightarrow> (nat \<Rightarrow> u8) \<Rightarrow> c_int \<Rightarrow> fs \<Rightarrow> (unit \<times> fs) result" where
  "writeFile m dirCluster filename buffer bufferSize s =
     bind (allocateFreeCluster m 0 s) (\<lambda>(fileCluster, s).
     bind (writeFile_loop m fileCluster 0 bufferSize buffer 0 s) (\<lambda>(u, s).
     addFileToDirectory m dirCluster
       \<lparr>ename = writeFileName blank_name filename, eattr = 0,
        efstCluster = fileCluster, esize = bufferSize\<rparr> s))"

section \<open>Removal\<close>

partial_function (option) remove_chain :: "FAT32_Metadata \<Rightarrow> u32 \<Rightarrow> fs \<Rightarrow> fs option" where
  "remove_chain m cluster s =
     (let sector = fatLBA m + drop_bit 7 cluster;
          s = read_sector (hardDrive m) sector s;
          slot = 4 * (unat cluster mod 128);
          newCluster = load32 (diskBuffer s) slot;
          s = s\<lparr>diskBuffer := store32 (diskBuffer s) slot 0\<rparr>;
          s = updateEveryFat m sector s
      in if sint newCluster < 0x0FFFFFF8 then remove_chain m newCluster s else Some s)"

definition removeFATChain :: "FAT32_Metadata \<Rightarrow> u32 \<Rightarrow> fs \<Rightarrow> (unit \<times> fs) result" where
  "removeFATChain m cluster s = of_loop (map_option (\<lambda>s. Inr ((), s)) (remove_chain m cluster s))"

definition removeEntryFromDirectory ::
  "FAT32_Metadata \<Rightarrow> u32 \<Rightarrow> u32 \<Rightarrow> fs \<Rightarrow> (unit \<times> fs) result" where
  "removeEntryFromDirectory m dirCluster index s =
     bind (getToDirEl m dirCluster index s) (\<lambda>((record, sector), s).
     let b = diskBuffer s;
         fstCluster = push_bit 16 (ucast (load16 b (record + 20))) + ucast (load16 b (record + 26));
         s = s\<lparr>diskBuffer := b[record := 0xE5]\<rparr>;
         s = write_sector (hardDrive m) sector s
     in removeFATChain m fstCluster s)"

end
