(* ===== verification/Fat32_Table.thy ===== *)
theory Fat32_Table
  imports Fat32
begin

text \<open>
  The file allocation table as the code sees it and as it is meant. \<open>vol m s\<close> abstracts
  the sectors of a partition to a \<open>volume\<close>: the table of cluster numbers, the sectors of
  every data cluster, and everything on the disks that is not part of the volume. The
  lemmas show what each table operation of kernel/fat32.c does to the volume; the
  abstract operation \<open>vol_alloc\<close> is what an allocation implements.
\<close>

named_theorems geometry \<open>sector numbers of a well-formed partition\<close>

section \<open>Definitions\<close>

definition nclusters :: "FAT32_Metadata \<Rightarrow> nat" where
  "nclusters m = 128 * unat (sectorPerFat m)"

text \<open>
  A well-formed partition: the numbers the boot sector gives are positive, the first
  cluster follows the last FAT, and the whole partition lies below sector \<open>2 ^ 28\<close>, the
  limit of the driver's 28-bit addressing.
\<close>

definition wf_meta :: "FAT32_Metadata \<Rightarrow> bool" where
  "wf_meta m \<longleftrightarrow>
     0 < unat (sectorPerCluster m) \<and> unat (sectorPerCluster m) < 256 \<and>
     0 < unat (nbFats m) \<and> unat (nbFats m) < 256 \<and> 0 < unat (sectorPerFat m) \<and>
     fstClusterLBA m = fatLBA m + sectorPerFat m * nbFats m \<and>
     unat (fatLBA m) + unat (nbFats m) * unat (sectorPerFat m)
       + unat (sectorPerCluster m) * nclusters m \<le> 2 ^ 28"

definition fat_base :: "FAT32_Metadata \<Rightarrow> nat" where
  "fat_base m = unat (fatLBA m)"

definition data_base :: "FAT32_Metadata \<Rightarrow> nat" where
  "data_base m = unat (fatLBA m) + unat (nbFats m) * unat (sectorPerFat m)"

definition valid_cluster :: "FAT32_Metadata \<Rightarrow> nat \<Rightarrow> bool" where
  "valid_cluster m c \<longleftrightarrow> 2 \<le> c \<and> c < nclusters m"

definition cluster_sector :: "FAT32_Metadata \<Rightarrow> nat \<Rightarrow> nat \<Rightarrow> nat" where
  "cluster_sector m c i = data_base m + unat (sectorPerCluster m) * (c - 2) + i"

definition volume_end :: "FAT32_Metadata \<Rightarrow> nat" where
  "volume_end m = data_base m + unat (sectorPerCluster m) * (nclusters m - 2)"

record volume =
  vfat :: "nat \<Rightarrow> u32"
  vdata :: "nat \<Rightarrow> nat \<Rightarrow> bytes"
  vrest :: "drive_info \<Rightarrow> nat \<Rightarrow> bytes"

definition vol :: "FAT32_Metadata \<Rightarrow> fs \<Rightarrow> volume" where
  "vol m s =
     \<lparr>vfat = (\<lambda>c. if c < nclusters m
        then load32 (disk s (hardDrive m) (fat_base m + c div 128)) (4 * (c mod 128)) else 0),
      vdata = (\<lambda>c i. if valid_cluster m c \<and> i < unat (sectorPerCluster m)
        then disk s (hardDrive m) (cluster_sector m c i) else []),
      vrest = (\<lambda>dr a. if dr = hardDrive m \<and> fat_base m \<le> a \<and> a < volume_end m
        then [] else disk s dr a)\<rparr>"

text \<open>The copies of the FAT agree.\<close>

definition mirrored :: "FAT32_Metadata \<Rightarrow> fs \<Rightarrow> bool" where
  "mirrored m s \<longleftrightarrow>
     (\<forall>k < unat (nbFats m). \<forall>j < unat (sectorPerFat m).
        disk s (hardDrive m) (fat_base m + k * unat (sectorPerFat m) + j)
        = disk s (hardDrive m) (fat_base m + j))"

definition fs_inv :: "FAT32_Metadata \<Rightarrow> fs \<Rightarrow> bool" where
  "fs_inv m s \<longleftrightarrow> fs_ok s \<and> mirrored m s"

definition EOC :: u32 where
  "EOC = 0x0FFFFFFF"

definition is_free :: "FAT32_Metadata \<Rightarrow> volume \<Rightarrow> nat \<Rightarrow> bool" where
  "is_free m v c \<longleftrightarrow> valid_cluster m c \<and> vfat v c = 0"

definition wiped :: "FAT32_Metadata \<Rightarrow> nat \<Rightarrow> bytes" where
  "wiped m = (\<lambda>i. if i < unat (sectorPerCluster m) then replicate 512 0 else [])"

text \<open>
  What an allocation is meant to do: the new cluster \<open>c\<close> ends its chain and holds zeros
  only, and \<open>prev\<close> (unless it is 0) is linked to it.
\<close>

definition vol_alloc :: "FAT32_Metadata \<Rightarrow> nat \<Rightarrow> nat \<Rightarrow> volume \<Rightarrow> volume" where
  "vol_alloc m prev c v =
     v\<lparr>vfat := (if prev = 0 then (vfat v)(c := EOC) else (vfat v)(c := EOC, prev := of_nat c)),
       vdata := (vdata v)(c := wiped m)\<rparr>"

section \<open>Geometry\<close>

lemma wf_metaD [geometry]:
  assumes "wf_meta m"
  shows "0 < unat (sectorPerCluster m)" "unat (sectorPerCluster m) < 256"
    "0 < unat (nbFats m)" "unat (nbFats m) < 256" "0 < unat (sectorPerFat m)"
    "data_base m + unat (sectorPerCluster m) * nclusters m \<le> 2 ^ 28"
  using assms by (simp_all add: wf_meta_def data_base_def)

lemma nclusters_bound:
  assumes "wf_meta m"
  shows "nclusters m < 0x0FFFFFF8" "128 \<le> nclusters m"
proof -
  let ?f = "unat (sectorPerFat m)"
  have "1 * ?f \<le> unat (nbFats m) * ?f" "1 * nclusters m \<le> unat (sectorPerCluster m) * nclusters m"
    using wf_metaD [OF assms] by (intro mult_le_mono; simp)+
  then have "?f + nclusters m \<le> 2 ^ 28"
    using wf_metaD(6) [OF assms] unfolding data_base_def by linarith
  then show "nclusters m < 0x0FFFFFF8" by (simp add: nclusters_def)
  show "128 \<le> nclusters m" using wf_metaD(5) [OF assms] by (simp add: nclusters_def)
qed

lemma cluster_sector_bound:
  assumes "wf_meta m" "valid_cluster m c" "i < unat (sectorPerCluster m)"
  shows "cluster_sector m c i < volume_end m" "data_base m \<le> cluster_sector m c i"
proof -
  let ?s = "unat (sectorPerCluster m)"
  have "?s * (c - 2) + ?s \<le> ?s * (nclusters m - 2)"
  proof -
    have "Suc (c - 2) \<le> nclusters m - 2"
      using assms(2) by (auto simp: valid_cluster_def)
    then have "?s * Suc (c - 2) \<le> ?s * (nclusters m - 2)" by (rule mult_le_mono2)
    then show ?thesis by simp
  qed
  then show "cluster_sector m c i < volume_end m"
    using assms(3) by (simp add: cluster_sector_def volume_end_def)
qed (simp add: cluster_sector_def)

lemma volume_end_bound:
  assumes "wf_meta m"
  shows "volume_end m \<le> 2 ^ 28"
proof -
  have "unat (sectorPerCluster m) * (nclusters m - 2) \<le> unat (sectorPerCluster m) * nclusters m"
    by simp
  then show ?thesis using wf_metaD(6) [OF assms] unfolding volume_end_def by linarith
qed

lemma cluster_sector_inj:
  assumes "i < unat (sectorPerCluster m)" "j < unat (sectorPerCluster m)" "2 \<le> c" "2 \<le> d"
  shows "cluster_sector m c i = cluster_sector m d j \<longleftrightarrow> c = d \<and> i = j"
proof
  let ?s = "unat (sectorPerCluster m)"
  assume "cluster_sector m c i = cluster_sector m d j"
  then have eq: "?s * (c - 2) + i = ?s * (d - 2) + j" by (simp add: cluster_sector_def)
  then have "(?s * (c - 2) + i) div ?s = (?s * (d - 2) + j) div ?s" by simp
  then have "c - 2 = d - 2" using assms(1,2) by simp
  with eq assms(3,4) show "c = d \<and> i = j" by auto
qed simp

lemma fat_sector_bound:
  assumes "wf_meta m" "k < unat (nbFats m)" "j < unat (sectorPerFat m)"
  shows "fat_base m + k * unat (sectorPerFat m) + j < data_base m"
proof -
  have "Suc k * unat (sectorPerFat m) \<le> unat (nbFats m) * unat (sectorPerFat m)"
    using assms(2) by (intro mult_le_mono1) simp
  then show ?thesis using assms(3) by (simp add: data_base_def fat_base_def)
qed

lemma fat_sector_inj:
  assumes "j < unat (sectorPerFat m)" "j' < unat (sectorPerFat m)"
  shows "fat_base m + k * unat (sectorPerFat m) + j = fat_base m + k' * unat (sectorPerFat m) + j'
    \<longleftrightarrow> k = k' \<and> j = j'"
proof
  let ?f = "unat (sectorPerFat m)"
  assume "fat_base m + k * ?f + j = fat_base m + k' * ?f + j'"
  then have eq: "k * ?f + j = k' * ?f + j'" by simp
  then have "(k * ?f + j) div ?f = (k' * ?f + j') div ?f" by simp
  then have "k = k'" using assms by simp
  with eq show "k = k' \<and> j = j'" by simp
qed simp

lemma data_base_le_end: "data_base m \<le> volume_end m"
  by (simp add: volume_end_def)

lemma div_cluster: "c < nclusters m \<Longrightarrow> c div 128 < unat (sectorPerFat m)"
  by (auto simp: nclusters_def)

text \<open>The word arithmetic of the source computes these numbers.\<close>

lemma unat_clusterSector:
  assumes "wf_meta m" "valid_cluster m (unat c)" "i < unat (sectorPerCluster m)"
  shows "unat (clusterSector m c + of_nat i) = cluster_sector m (unat c) i"
proof -
  let ?s = "unat (sectorPerCluster m)"
  have lt: "cluster_sector m (unat c) i < 2 ^ 28"
    using cluster_sector_bound(1) [OF assms] volume_end_bound [OF assms(1)] by simp
  have f: "unat (sectorPerFat m * nbFats m) = unat (nbFats m) * unat (sectorPerFat m)"
    using lt by (simp add: unat_word_ariths cluster_sector_def data_base_def mult.commute)
  have base: "unat (fstClusterLBA m) = data_base m"
    using lt assms(1) f by (simp add: wf_meta_def data_base_def cluster_sector_def unat_word_ariths)
  have c2: "unat (c - 2) = unat c - 2"
    using assms(2) by (simp add: valid_cluster_def unat_diff_nat)
  have mul: "unat (sectorPerCluster m * (c - 2)) = ?s * (unat c - 2)"
    using lt c2 by (simp add: unat_word_ariths cluster_sector_def)
  have "i < 2 ^ 32" using lt by (simp add: cluster_sector_def)
  then show ?thesis
    using lt base mul
    by (simp add: clusterSector_def cluster_sector_def unat_word_ariths unat_of_nat)
qed

lemma unat_fat_sector:
  assumes "wf_meta m" "unat c < nclusters m"
  shows "unat (fatLBA m + drop_bit 7 c) = fat_base m + unat c div 128"
    and "k < unat (nbFats m) \<Longrightarrow>
      unat (fatLBA m + drop_bit 7 c + of_nat k * sectorPerFat m)
      = fat_base m + k * unat (sectorPerFat m) + unat c div 128"
proof -
  let ?f = "unat (sectorPerFat m)"
  have *: "unat (fatLBA m + drop_bit 7 c + of_nat k * sectorPerFat m)
      = fat_base m + k * ?f + unat c div 128" if k: "k < unat (nbFats m)" for k
  proof -
    have lt: "fat_base m + k * ?f + unat c div 128 < 2 ^ 28"
      using fat_sector_bound [OF assms(1) k div_cluster [OF assms(2)]]
        data_base_le_end [of m] volume_end_bound [OF assms(1)] by linarith
    have "k < 2 ^ 32" using k wf_metaD(4) [OF assms(1)] by simp
    then have kf: "unat (of_nat k * sectorPerFat m) = k * ?f"
      using lt by (simp add: unat_word_ariths unat_of_nat)
    show ?thesis
      using lt kf by (simp add: fat_base_def unat_word_ariths unat_shiftr)
  qed
  show "unat (fatLBA m + drop_bit 7 c) = fat_base m + unat c div 128"
    using * [of 0] wf_metaD(3) [OF assms(1)] by simp
  show "k < unat (nbFats m) \<Longrightarrow>
      unat (fatLBA m + drop_bit 7 c + of_nat k * sectorPerFat m)
      = fat_base m + k * ?f + unat c div 128"
    by (rule *)
qed

lemma sint_small [unat_simps]: "unat (x :: c_int) < 2 ^ 31 \<Longrightarrow> sint x = int (unat x)"
  using sint_eq_unat [of x] by simp

lemma sint_counts:
  assumes "wf_meta m"
  shows "nat (sint (nbFats m)) = unat (nbFats m)"
    "nat (sint (sectorPerCluster m)) = unat (sectorPerCluster m)"
    "sint (sectorPerCluster m) = int (unat (sectorPerCluster m))"
  using wf_metaD [OF assms] by (simp_all add: sint_small)

section \<open>Reads, and changes of the buffer\<close>

lemma fs_inv_fs_ok: "fs_inv m s \<Longrightarrow> fs_ok s"
  by (simp add: fs_inv_def)

lemma fs_ok_lengths [simp]:
  "fs_ok s \<Longrightarrow> length (disk s dr n) = 512" "fs_ok s \<Longrightarrow> length (diskBuffer s) = 512"
  by (simp_all add: fs_ok_def)

lemma read_sector_simps [simp]:
  "disk (read_sector dr n s) = disk s"
  "diskBuffer (read_sector dr n s) = disk s dr (unat n)"
  by (simp_all add: read_sector_def)

lemma vol_disk: "disk s = disk s' \<Longrightarrow> vol m s = vol m s'"
  by (simp add: vol_def cong: if_cong)

lemma vol_read [simp]: "vol m (read_sector dr n s) = vol m s"
  by (rule vol_disk) simp

lemma vol_buffer [simp]: "vol m (s\<lparr>diskBuffer := b\<rparr>) = vol m s"
  by (rule vol_disk) simp

lemma fs_inv_read [simp, intro]: "fs_inv m s \<Longrightarrow> fs_inv m (read_sector dr n s)"
  by (simp add: fs_inv_def mirrored_def store.ok_rd)

lemma fs_inv_buffer [simp, intro]:
  "fs_inv m s \<Longrightarrow> length b = 512 \<Longrightarrow> fs_inv m (s\<lparr>diskBuffer := b\<rparr>)"
  by (auto simp: fs_inv_def mirrored_def fs_ok_def simp del: fs_ok_lengths)

lemma vfat_vol: "c < nclusters m \<Longrightarrow>
  vfat (vol m s) c = load32 (disk s (hardDrive m) (fat_base m + c div 128)) (4 * (c mod 128))"
  by (simp add: vol_def)

lemma vdata_vol: "valid_cluster m c \<Longrightarrow> i < unat (sectorPerCluster m) \<Longrightarrow>
  vdata (vol m s) c i = disk s (hardDrive m) (cluster_sector m c i)"
  by (simp add: vol_def)

lemma length_vdata:
  "fs_ok s \<Longrightarrow> valid_cluster m c \<Longrightarrow> i < unat (sectorPerCluster m) \<Longrightarrow>
   length (vdata (vol m s) c i) = 512"
  by (simp add: vdata_vol)

section \<open>Writing one entry of the table\<close>

lemma slot_other: "c \<noteq> c' \<Longrightarrow> c div 128 = c' div 128 \<Longrightarrow>
  4 * (c' mod 128) + 4 \<le> 4 * (c mod 128) \<or> 4 * (c mod 128) + 4 \<le> 4 * (c' mod 128)"
  for c :: nat
  using div_mult_mod_eq [of c 128] div_mult_mod_eq [of c' 128] by linarith

lemma slot_bound: "4 * (c mod 128) + 4 \<le> (512 :: nat)"
proof -
  have "c mod 128 < 128" by simp
  then show ?thesis by linarith
qed

lemma disk_updateEveryFat:
  assumes "fs_ok s" "wf_meta m" "unat c < nclusters m"
  defines "s' \<equiv> updateEveryFat m (fatLBA m + drop_bit 7 c) s"
  shows "fs_ok s'" "diskBuffer s' = diskBuffer s"
    "disk s' dr a =
      (if dr = hardDrive m \<and>
          (\<exists>k < unat (nbFats m). a = fat_base m + k * unat (sectorPerFat m) + unat c div 128)
       then diskBuffer s else disk s dr a)"
proof -
  let ?g = "\<lambda>i. fatLBA m + drop_bit 7 c + of_nat i * sectorPerFat m"
  note f = store.fold_wr [OF assms(1), of "hardDrive m" ?g "[0..<unat (nbFats m)]"]
  have s': "s' = fold (\<lambda>i. write_sector (hardDrive m) (?g i)) [0..<unat (nbFats m)] s"
    by (simp add: s'_def updateEveryFat_def sint_counts [OF assms(2)])
  show "fs_ok s'" "diskBuffer s' = diskBuffer s" using f by (simp_all add: s')
  have "(\<exists>i\<in>set [0..<unat (nbFats m)]. a = unat (?g i)) \<longleftrightarrow>
      (\<exists>k < unat (nbFats m). a = fat_base m + k * unat (sectorPerFat m) + unat c div 128)"
    using unat_fat_sector(2) [OF assms(2,3)] by (simp add: Bex_def)
  then show "disk s' dr a =
      (if dr = hardDrive m \<and>
          (\<exists>k < unat (nbFats m). a = fat_base m + k * unat (sectorPerFat m) + unat c div 128)
       then diskBuffer s else disk s dr a)"
    using f [of dr a] by (simp add: s')
qed

text \<open>
  Storing \<open>x\<close> in the slot of cluster \<open>c\<close> of its table sector and writing that sector to
  every copy changes exactly the entry of \<open>c\<close>.
\<close>

lemma fat_write_disk:
  assumes "fs_inv m s" "wf_meta m" "unat c < nclusters m"
  defines "s' \<equiv> updateEveryFat m (fatLBA m + drop_bit 7 c) s"
  shows "fs_inv m s'" "diskBuffer s' = diskBuffer s"
    "j < unat (sectorPerFat m) \<Longrightarrow> disk s' (hardDrive m) (fat_base m + j) =
       (if j = unat c div 128 then diskBuffer s else disk s (hardDrive m) (fat_base m + j))"
    "dr \<noteq> hardDrive m \<or> a < fat_base m \<or> data_base m \<le> a \<Longrightarrow> disk s' dr a = disk s dr a"
proof -
  let ?hd = "hardDrive m" and ?f = "unat (sectorPerFat m)" and ?j = "unat c div 128"
  have ok: "fs_ok s" using assms(1) by (rule fs_inv_fs_ok)
  note d = disk_updateEveryFat [OF ok assms(2,3), folded s'_def]
  have j: "?j < ?f" using assms(3) by (rule div_cluster)
  show "diskBuffer s' = diskBuffer s" by (rule d(2))
  have mir: "disk s ?hd (fat_base m + k * ?f + j) = disk s ?hd (fat_base m + j)"
    if "k < unat (nbFats m)" "j < ?f" for k j
    using assms(1) that by (simp add: fs_inv_def mirrored_def)
  have fat: "disk s' ?hd (fat_base m + k * ?f + j)
      = (if j = ?j then diskBuffer s else disk s ?hd (fat_base m + j))"
    if "k < unat (nbFats m)" "j < ?f" for k j
    using d(3) [of ?hd "fat_base m + k * ?f + j"] that mir fat_sector_inj [of j m ?j] j by auto
  have fat0: "disk s' ?hd (fat_base m + j) = (if j = ?j then diskBuffer s else disk s ?hd (fat_base m + j))"
    if "j < ?f" for j
    using fat [of 0 j] that wf_metaD(3) [OF assms(2)] by simp
  then show "j < ?f \<Longrightarrow> disk s' ?hd (fat_base m + j) = (if j = ?j then diskBuffer s else disk s ?hd (fat_base m + j))" .
  have "mirrored m s'" unfolding mirrored_def using fat fat0 by simp
  with d(1) show "fs_inv m s'" by (simp add: fs_inv_def)
  assume a: "dr \<noteq> ?hd \<or> a < fat_base m \<or> data_base m \<le> a"
  have "\<not> (dr = ?hd \<and> (\<exists>k < unat (nbFats m). a = fat_base m + k * ?f + ?j))"
  proof
    assume "dr = ?hd \<and> (\<exists>k < unat (nbFats m). a = fat_base m + k * ?f + ?j)"
    then obtain k where "dr = ?hd" "k < unat (nbFats m)" "a = fat_base m + k * ?f + ?j" by blast
    with fat_sector_bound [OF assms(2) _ j, of k] a show False by simp
  qed
  then show "disk s' dr a = disk s dr a" by (subst d(3)) (rule if_not_P)
qed

lemma fat_write:
  assumes "fs_inv m s" "wf_meta m" "unat c < nclusters m"
    and buf: "diskBuffer s =
      store32 (disk s (hardDrive m) (fat_base m + unat c div 128)) (4 * (unat c mod 128)) x"
  defines "s' \<equiv> updateEveryFat m (fatLBA m + drop_bit 7 c) s"
  shows "fs_inv m s'" "vol m s' = (vol m s)\<lparr>vfat := (vfat (vol m s))(unat c := x)\<rparr>"
    "diskBuffer s' = diskBuffer s"
proof -
  have ok: "fs_ok s" using assms(1) by (rule fs_inv_fs_ok)
  note d = fat_write_disk [OF assms(1-3), folded s'_def]
  show "fs_inv m s'" "diskBuffer s' = diskBuffer s" by (rule d)+
  have "vfat (vol m s') c' = ((vfat (vol m s))(unat c := x)) c'" for c'
  proof (cases "c' < nclusters m")
    case True
    show ?thesis
    proof (cases "c' = unat c")
      case True
      then show ?thesis
        using assms(3) d(3) [OF div_cluster [OF assms(3)]] ok slot_bound [of "unat c"]
        by (simp add: vfat_vol buf load_store_same)
    next
      case False
      then show ?thesis
        using True d(3) [OF div_cluster [OF True]] ok slot_bound slot_other [of "unat c" c']
        by (auto simp: vfat_vol buf load32_store32_other)
    qed
  next
    case False
    then show ?thesis using assms(3) by (auto simp: vol_def)
  qed
  then have 1: "vfat (vol m s') = (vfat (vol m s))(unat c := x)" by blast
  have 2: "vdata (vol m s') = vdata (vol m s)"
    using d(4) by (intro ext) (simp add: vol_def cluster_sector_def)
  have "vrest (vol m s') dr a = vrest (vol m s) dr a" for dr a
    using d(4) [of dr a] data_base_le_end [of m] by (auto simp: vol_def)
  then show "vol m s' = (vol m s)\<lparr>vfat := (vfat (vol m s))(unat c := x)\<rparr>"
    using 1 2 by (intro volume.equality) (auto simp: fun_eq_iff)
qed

section \<open>Writing data sectors\<close>

lemma data_write_disk:
  assumes "fs_inv m s" "wf_meta m" "valid_cluster m (unat c)"
    and g: "\<forall>k \<in> set ks. g k < unat (sectorPerCluster m)"
  defines "s' \<equiv> fold (\<lambda>k. write_sector (hardDrive m) (clusterSector m c + of_nat (g k))) ks s"
  shows "fs_inv m s'" "diskBuffer s' = diskBuffer s"
    "disk s' dr a = (if dr = hardDrive m \<and> (\<exists>i\<in>g ` set ks. a = cluster_sector m (unat c) i) then diskBuffer s else disk s dr a)"
    "dr \<noteq> hardDrive m \<or> a < data_base m \<or> volume_end m \<le> a \<Longrightarrow> disk s' dr a = disk s dr a"
proof -
  let ?hd = "hardDrive m"
  note f = store.fold_wr [OF fs_inv_fs_ok [OF assms(1)], of ?hd "\<lambda>k. clusterSector m c + of_nat (g k)" ks]
  have "(\<exists>k\<in>set ks. a = unat (clusterSector m c + of_nat (g k))) \<longleftrightarrow>
      (\<exists>i\<in>g ` set ks. a = cluster_sector m (unat c) i)" for a
    using unat_clusterSector [OF assms(2,3) bspec [OF g]] by simp
  with f have d: "disk s' dr a =
      (if dr = ?hd \<and> (\<exists>i\<in>g ` set ks. a = cluster_sector m (unat c) i) then diskBuffer s else disk s dr a)" for dr a
    by (simp add: s'_def)
  then show "disk s' dr a = (if dr = ?hd \<and> (\<exists>i\<in>g ` set ks. a = cluster_sector m (unat c) i) then diskBuffer s else disk s dr a)" .
  show "diskBuffer s' = diskBuffer s" using f by (simp add: s'_def)
  have "data_base m \<le> cluster_sector m (unat c) i \<and> cluster_sector m (unat c) i < volume_end m"
    if "i \<in> g ` set ks" for i
    using cluster_sector_bound [OF assms(2,3), of i] that g by blast
  then have out: "\<not> (\<exists>i\<in>g ` set ks. a = cluster_sector m (unat c) i)" if "a < data_base m \<or> volume_end m \<le> a" for a
    using that by fastforce
  then show "dr \<noteq> ?hd \<or> a < data_base m \<or> volume_end m \<le> a \<Longrightarrow> disk s' dr a = disk s dr a" using d [of dr a] by auto
  have "disk s' ?hd a = disk s ?hd a" if "a < data_base m" for a using out [of a] that d [of ?hd a] by simp
  then have "mirrored m s'"
    using assms(1) fat_sector_bound [OF assms(2)] fat_sector_bound [OF assms(2), of 0] wf_metaD(3) [OF assms(2)]
    by (simp add: fs_inv_def mirrored_def)
  moreover have "fs_ok s'" using f by (simp add: s'_def)
  ultimately show "fs_inv m s'" by (simp add: fs_inv_def)
qed

lemma data_write:
  assumes "fs_inv m s" "wf_meta m" "valid_cluster m (unat c)"
    and g: "\<And>k. k \<in> set ks \<Longrightarrow> g k < unat (sectorPerCluster m)"
  defines "s' \<equiv> fold (\<lambda>k. write_sector (hardDrive m) (clusterSector m c + of_nat (g k))) ks s"
  shows "fs_inv m s'" "diskBuffer s' = diskBuffer s"
    "vol m s' = (vol m s)\<lparr>vdata := (vdata (vol m s))(unat c :=
       (\<lambda>i. if i \<in> g ` set ks then diskBuffer s else vdata (vol m s) (unat c) i))\<rparr>"
proof -
  let ?hd = "hardDrive m" and ?spc = "unat (sectorPerCluster m)"
  have gb: "\<forall>k \<in> set ks. g k < ?spc" using g by blast
  note d = data_write_disk [OF assms(1-3) gb, folded s'_def]
  show "fs_inv m s'" "diskBuffer s' = diskBuffer s" using d(1,2) by simp_all
  have 1: "vfat (vol m s') k = vfat (vol m s) k" for k
    using d(4) [of ?hd "fat_base m + k div 128"] wf_metaD(3) [OF assms(2)]
      fat_sector_bound [OF assms(2), of 0 "k div 128"] div_cluster [of k m]
    by (simp add: vol_def)
  have "fat_base m \<le> data_base m" by (simp add: fat_base_def data_base_def)
  then have 3: "vrest (vol m s') dr a = vrest (vol m s) dr a" for dr a
    using d(4) [of dr a] by (auto simp: vol_def)
  have gi: "i < ?spc" if "i \<in> g ` set ks" for i using that g by blast
  have 2: "vdata (vol m s') c' i = ((vdata (vol m s))(unat c :=
       (\<lambda>i. if i \<in> g ` set ks then diskBuffer s else vdata (vol m s) (unat c) i))) c' i" for c' i
  proof (cases "valid_cluster m c' \<and> i < ?spc")
    case True
    have "cluster_sector m c' i = cluster_sector m (unat c) i' \<longleftrightarrow> c' = unat c \<and> i = i'"
      if "i' \<in> g ` set ks" for i'
      using cluster_sector_inj [of i m i' c' "unat c"] True gi [OF that] assms(3)
      by (simp add: valid_cluster_def)
    then have "(\<exists>i'\<in>g ` set ks. cluster_sector m c' i = cluster_sector m (unat c) i') \<longleftrightarrow>
        c' = unat c \<and> i \<in> g ` set ks" by auto
    then show ?thesis
      using d(3) [of ?hd "cluster_sector m c' i"] True by (auto simp: vdata_vol)
  next
    case False
    then have "vdata (vol m s') c' i = []" "vdata (vol m s) c' i = []" by (auto simp: vol_def)
    then show ?thesis using False gi assms(3) by (auto simp: fun_upd_def)
  qed
  show "vol m s' = (vol m s)\<lparr>vdata := (vdata (vol m s))(unat c :=
       (\<lambda>i. if i \<in> g ` set ks then diskBuffer s else vdata (vol m s) (unat c) i))\<rparr>"
    using 1 2 3 by (intro volume.equality) (auto simp: fun_eq_iff)
qed

section \<open>Allocation\<close>

lemma wipe_buffer: "length b = 512 \<Longrightarrow> wipe_buffer b = replicate 512 0"
  unfolding wipe_buffer_def by (subst fold_store_0) (auto simp: map_replicate_const)

lemma sint_cluster:
  fixes c :: u32
  assumes "wf_meta m" "unat c < nclusters m"
  shows "sint c = int (unat c)" "signed_drop_bit 7 c = drop_bit 7 c"
    "sint c smod 128 = int (unat c mod 128)"
proof -
  have lt: "unat c < 2 ^ 31" using assms nclusters_bound(1) [of m] by simp
  then show s: "sint c = int (unat c)" by (rule sint_small)
  have "sint (drop_bit 7 c) = int (unat c div 2 ^ 7)"
    using lt sint_small [of "drop_bit 7 c"] unfolding unat_shiftr by simp
  moreover have "sint (signed_drop_bit 7 c) = int (unat c) div 2 ^ 7"
    unfolding sint_signed_drop_bit_eq s by (rule drop_bit_eq_div)
  ultimately have "sint (signed_drop_bit 7 c) = sint (drop_bit 7 c)"
    by (simp only: zdiv_int of_nat_power of_nat_numeral)
  then show "signed_drop_bit 7 c = drop_bit 7 c" by (simp only: signed_word_eqI)
  show "sint c smod 128 = int (unat c mod 128)"
    by (cases "c = 0") (simp_all add: s smod_int_alt_def zmod_int)
qed

text \<open>Setting the table entry of a cluster through the buffer.\<close>

lemma set_entry:
  fixes x :: u32
  assumes "fs_inv m s" "wf_meta m" "unat c < nclusters m"
  defines "t \<equiv> read_sector (hardDrive m) (fatLBA m + drop_bit 7 c) s"
  defines "s' \<equiv> updateEveryFat m (fatLBA m + drop_bit 7 c) (t\<lparr>diskBuffer := store32 (diskBuffer t) (4 * (unat c mod 128)) x\<rparr>)"
  shows "fs_inv m s'" "vol m s' = (vol m s)\<lparr>vfat := (vfat (vol m s))(unat c := x)\<rparr>"
proof -
  let ?u = "t\<lparr>diskBuffer := store32 (diskBuffer t) (4 * (unat c mod 128)) x\<rparr>"
  have "fs_inv m t" using assms(1) by (simp add: t_def)
  then have u: "fs_inv m ?u" "vol m ?u = vol m s"
    using slot_bound [of "unat c"] fs_inv_fs_ok [OF assms(1)] by (auto simp: t_def)
  have "diskBuffer ?u = store32 (disk ?u (hardDrive m) (fat_base m + unat c div 128)) (4 * (unat c mod 128)) x"
    by (simp add: t_def unat_fat_sector [OF assms(2,3)])
  from fat_write [OF u(1) assms(2,3) this] show "fs_inv m s'" "vol m s' = (vol m s)\<lparr>vfat := (vfat (vol m s))(unat c := x)\<rparr>"
    unfolding s'_def u(2) by simp_all
qed

text \<open>Claiming a cluster: its table entry ends a chain and its sectors are wiped; then the previous cluster is linked to it.\<close>

definition claimed :: "FAT32_Metadata \<Rightarrow> u32 \<Rightarrow> fs \<Rightarrow> fs" where
  "claimed m c s =
     (let s = updateEveryFat m (fatLBA m + drop_bit 7 c) (s\<lparr>diskBuffer := store32 (diskBuffer s) (4 * (unat c mod 128)) 0x0FFFFFFF\<rparr>)
      in fold (\<lambda>i. write_sector (hardDrive m) (clusterSector m c + of_nat i)) [0..<unat (sectorPerCluster m)]
        (s\<lparr>diskBuffer := wipe_buffer (diskBuffer s)\<rparr>))"

lemma claimed_spec:
  assumes "fs_inv m s" "wf_meta m" "valid_cluster m (unat c)"
    and "diskBuffer s = disk s (hardDrive m) (fat_base m + unat c div 128)"
  shows "fs_inv m (claimed m c s)" "vol m (claimed m c s) = vol_alloc m 0 (unat c) (vol m s)"
proof -
  have c: "unat c < nclusters m" using assms(3) by (simp add: valid_cluster_def)
  define s1 where "s1 = s\<lparr>diskBuffer := store32 (diskBuffer s) (4 * (unat c mod 128)) 0x0FFFFFFF\<rparr>"
  define s2 where "s2 = updateEveryFat m (fatLBA m + drop_bit 7 c) s1"
  define s3 where "s3 = s2\<lparr>diskBuffer := wipe_buffer (diskBuffer s2)\<rparr>"
  have s1: "fs_inv m s1" "vol m s1 = vol m s"
    using assms(1) fs_inv_fs_ok [OF assms(1)] slot_bound [of "unat c"] by (auto simp: s1_def)
  have b1: "diskBuffer s1 = store32 (disk s1 (hardDrive m) (fat_base m + unat c div 128)) (4 * (unat c mod 128)) EOC"
    using assms(4) by (simp add: s1_def EOC_def)
  note s2 = fat_write [OF s1(1) assms(2) c b1, folded s2_def]
  have s3: "fs_inv m s3" "vol m s3 = vol m s2" "diskBuffer s3 = replicate 512 0"
    using s2(1) fs_inv_fs_ok [OF s2(1)] by (auto simp: s3_def wipe_buffer)
  note w = data_write [OF s3(1) assms(2,3), of "[0..<unat (sectorPerCluster m)]" "\<lambda>i. i"]
  have d: "claimed m c s = fold (\<lambda>i. write_sector (hardDrive m) (clusterSector m c + of_nat i)) [0..<unat (sectorPerCluster m)] s3"
    by (simp add: claimed_def Let_def s1_def s2_def s3_def)
  show "fs_inv m (claimed m c s)" using w(1) d by simp
  have "(\<lambda>i. if i \<in> (\<lambda>i. i) ` set [0..<unat (sectorPerCluster m)] then diskBuffer s3
      else vdata (vol m s3) (unat c) i) = wiped m"
    by (intro ext) (auto simp: wiped_def s3(3), auto simp: vol_def)
  then show "vol m (claimed m c s) = vol_alloc m 0 (unat c) (vol m s)"
    using w(3) s3(2) s2(2) s1(2) d by (simp add: vol_alloc_def)
qed

lemma claimCluster_spec:
  assumes "fs_inv m s" "wf_meta m" "valid_cluster m (unat c)" "unat prev < nclusters m"
    and "diskBuffer s = disk s (hardDrive m) (fat_base m + unat c div 128)"
  shows "\<exists>s'. claimCluster m prev (fatLBA m + drop_bit 7 c) c s = Inr (c, s') \<and> fs_inv m s' \<and>
    vol m s' = vol_alloc m (unat prev) (unat c) (vol m s)"
proof (cases "prev = 0")
  case True
  then have "claimCluster m prev (fatLBA m + drop_bit 7 c) c s = Inr (c, claimed m c s)"
    by (simp add: claimCluster_def claimed_def Let_def sint_counts [OF assms(2)])
  with True claimed_spec [OF assms(1-3,5)] show ?thesis by simp
next
  case False
  let ?s4 = "claimed m c s" and ?psec = "fatLBA m + drop_bit 7 prev"
  define s5 where "s5 = read_sector (hardDrive m) ?psec ?s4"
  define s7 where "s7 = updateEveryFat m ?psec (s5\<lparr>diskBuffer := store32 (diskBuffer s5) (4 * (unat prev mod 128)) c\<rparr>)"
  have slot: "\<not> sint prev smod 128 < 0" "nat (sint prev smod 128) = unat prev mod 128"
    unfolding sint_cluster(3) [OF assms(2,4)] by (simp_all only: of_nat_less_0_iff nat_int not_False_eq_True)
  have claim: "claimCluster m prev (fatLBA m + drop_bit 7 c) c s = Inr (c, s7)"
    using False slot
    by (simp add: claimCluster_def claimed_def Let_def s5_def s7_def sint_counts [OF assms(2)] sint_cluster(2) [OF assms(2,4)])
  note s4 = claimed_spec [OF assms(1-3,5)]
  note s7 = set_entry [OF s4(1) assms(2,4), of c, folded s5_def, folded s7_def]
  have "unat prev \<noteq> 0" using False by (simp add: unat_0_iff)
  then have "vol m s7 = vol_alloc m (unat prev) (unat c) (vol m s)" using s7(2) s4(2) by (simp add: vol_alloc_def)
  with claim s7(1) show ?thesis by blast
qed

lemma unat_Suc_cluster:
  fixes c :: u32
  assumes "wf_meta m" "unat c < nclusters m"
  shows "unat (c + 1) = Suc (unat c)"
  using assms nclusters_bound(1) [OF assms(1)] by (simp add: unat_word_ariths)

lemma fat_sector_less:
  assumes "wf_meta m" "unat c \<le> nclusters m"
  shows "sint (fatLBA m + drop_bit 7 c) < sint (fatLBA m + sectorPerFat m) \<longleftrightarrow> unat c < nclusters m"
proof -
  have "fat_base m + 1 * unat (sectorPerFat m) \<le> data_base m"
    using wf_metaD(3) [OF assms(1)] unfolding fat_base_def data_base_def
    by (intro add_left_mono mult_le_mono1) simp
  then have le: "fat_base m + unat (sectorPerFat m) \<le> 2 ^ 28"
    using data_base_le_end [of m] volume_end_bound [OF assms(1)] by simp
  have q: "unat c div 128 \<le> unat (sectorPerFat m)"
    "unat c div 128 < unat (sectorPerFat m) \<longleftrightarrow> unat c < nclusters m"
    using assms(2) by (auto simp: nclusters_def)
  have a: "unat (fatLBA m + drop_bit 7 c) = fat_base m + unat c div 128"
    using le q(1) by (simp add: fat_base_def unat_word_ariths unat_shiftr)
  have b: "unat (fatLBA m + sectorPerFat m) = fat_base m + unat (sectorPerFat m)"
    using le by (simp add: fat_base_def unat_word_ariths)
  have "sint (fatLBA m + drop_bit 7 c) = int (unat (fatLBA m + drop_bit 7 c))"
    by (rule sint_small, unfold a, rule le_less_trans [OF add_left_mono [OF q(1)]], use le in simp)
  moreover have "sint (fatLBA m + sectorPerFat m) = int (unat (fatLBA m + sectorPerFat m))"
    by (rule sint_small, unfold b, rule le_less_trans [OF le], simp)
  ultimately show ?thesis by (simp only: a b of_nat_less_iff add_less_cancel_left q(2))
qed

lemma drop_bit_Suc_cluster:
  assumes "wf_meta m" "unat c < nclusters m"
  shows "(if unat (c + 1) mod 128 = 0 then fatLBA m + drop_bit 7 c + 1 else fatLBA m + drop_bit 7 c)
    = fatLBA m + drop_bit 7 (c + 1)"
proof -
  have "unat (drop_bit 7 (c + 1)) = (if unat (c + 1) mod 128 = 0 then unat c div 128 + 1 else unat c div 128)"
    unfolding unat_shiftr unat_Suc_cluster [OF assms] by (simp add: div_Suc)
  moreover have "unat (drop_bit 7 c + 1) = unat c div 128 + 1"
    using nclusters_bound(1) [OF assms(1)] assms(2)
    by (simp add: unat_word_ariths unat_shiftr)
  ultimately have "drop_bit 7 (c + 1) = (if unat (c + 1) mod 128 = 0 then drop_bit 7 c + 1 else drop_bit 7 c)"
    by (simp add: word_unat_eq_iff unat_shiftr)
  then show ?thesis by simp
qed

lemma alloc_loop_found:
  assumes "wf_meta m" "unat c < nclusters m" "vfat (vol m s) (unat c) = 0"
  shows "alloc_loop m prev (fatLBA m + drop_bit 7 c) c s =
    claimCluster m prev (fatLBA m + drop_bit 7 c) c (read_sector (hardDrive m) (fatLBA m + drop_bit 7 c) s)"
  using assms fat_sector_less [OF assms(1), of c] unat_fat_sector(1) [OF assms(1,2)]
  by (subst alloc_loop.simps) (simp add: Let_def vfat_vol)

lemma alloc_loop_step:
  assumes "wf_meta m" "unat c < nclusters m" "vfat (vol m s) (unat c) \<noteq> 0"
  shows "alloc_loop m prev (fatLBA m + drop_bit 7 c) c s =
    alloc_loop m prev (fatLBA m + drop_bit 7 (c + 1)) (c + 1)
      (read_sector (hardDrive m) (fatLBA m + drop_bit 7 c) s)"
  using assms fat_sector_less [OF assms(1), of c] unat_fat_sector(1) [OF assms(1,2)]
    drop_bit_Suc_cluster [OF assms(1,2)]
  by (subst alloc_loop.simps) (simp add: Let_def vfat_vol)

lemma alloc_loop_full:
  assumes "wf_meta m" "unat c \<le> nclusters m"
    "\<And>k. unat c \<le> k \<Longrightarrow> k < nclusters m \<Longrightarrow> vfat (vol m s) k \<noteq> 0"
  shows "alloc_loop m prev (fatLBA m + drop_bit 7 c) c s = Inl (Panic ''no new cluster can be allocated'')"
  using assms
proof (induction "nclusters m - unat c" arbitrary: c s)
  case 0
  then show ?case using fat_sector_less [of m c] by (subst alloc_loop.simps) simp
next
  case (Suc d)
  then have lt: "unat c < nclusters m" by simp
  show ?case
    unfolding alloc_loop_step [OF Suc.prems(1) lt Suc.prems(3) [OF order_refl lt]]
    using Suc unat_Suc_cluster [OF Suc.prems(1) lt]
    by (intro Suc.hyps(1)) auto
qed

lemma alloc_loop_first:
  assumes "wf_meta m" "unat c \<le> k" "k < nclusters m" "vfat (vol m s) k = 0"
    "\<And>j. unat c \<le> j \<Longrightarrow> j < k \<Longrightarrow> vfat (vol m s) j \<noteq> 0"
  shows "\<exists>s'. disk s' = disk s \<and> (fs_ok s \<longrightarrow> fs_ok s') \<and>
    diskBuffer s' = disk s (hardDrive m) (fat_base m + k div 128) \<and>
    alloc_loop m prev (fatLBA m + drop_bit 7 c) c s =
      claimCluster m prev (fatLBA m + drop_bit 7 (of_nat k)) (of_nat k) s'"
  using assms
proof (induction "k - unat c" arbitrary: c s)
  case 0
  then have k: "k = unat c" by simp
  then have "(of_nat k :: u32) = c" by simp
  then show ?case
    using 0 k unat_fat_sector(1) [of m c]
    by (intro exI [of _ "read_sector (hardDrive m) (fatLBA m + drop_bit 7 c) s"])
      (simp add: alloc_loop_found store.ok_rd)
next
  case (Suc d)
  then have lt: "unat c < nclusters m" by simp
  have ne: "vfat (vol m s) (unat c) \<noteq> 0" using Suc.hyps(2) Suc.prems(5) [of "unat c"] by simp
  let ?s = "read_sector (hardDrive m) (fatLBA m + drop_bit 7 c) s"
  have c1: "unat (c + 1) = Suc (unat c)" by (rule unat_Suc_cluster [OF Suc.prems(1) lt])
  have "\<exists>s'. disk s' = disk ?s \<and> (fs_ok ?s \<longrightarrow> fs_ok s') \<and>
      diskBuffer s' = disk ?s (hardDrive m) (fat_base m + k div 128) \<and>
      alloc_loop m prev (fatLBA m + drop_bit 7 (c + 1)) (c + 1) ?s =
        claimCluster m prev (fatLBA m + drop_bit 7 (of_nat k)) (of_nat k) s'"
    by (rule Suc.hyps(1)) (use Suc.prems Suc.hyps(2) c1 in auto)
  then show ?case
    unfolding alloc_loop_step [OF Suc.prems(1) lt ne] by (auto simp: store.ok_rd)
qed

lemma allocateFreeCluster_spec:
  assumes "fs_inv m s" "wf_meta m" "unat prev < nclusters m"
    and "is_free m (vol m s) c" "\<And>j. j < c \<Longrightarrow> \<not> is_free m (vol m s) j"
  shows "\<exists>s'. allocateFreeCluster m prev s = Inr (of_nat c, s') \<and> fs_inv m s' \<and>
    vol m s' = vol_alloc m (unat prev) c (vol m s)"
proof -
  have c: "valid_cluster m c" "c < nclusters m" "vfat (vol m s) c = 0" "2 \<le> c"
    using assms(4) by (auto simp: is_free_def valid_cluster_def)
  have "c < 2 ^ 32" using c(2) nclusters_bound(1) [OF assms(2)] by simp
  then have uc: "unat (of_nat c :: u32) = c" by (simp add: unat_of_nat)
  have two: "unat (2 :: u32) = 2" "drop_bit 7 (2 :: u32) = 0" by simp_all
  have skip: "vfat (vol m s) j \<noteq> 0" if "unat (2 :: u32) \<le> j" "j < c" for j
    using assms(5) [of j] that c(2) by (simp add: is_free_def valid_cluster_def)
  have le: "unat (2 :: u32) \<le> c" using c(4) by simp
  obtain s1 where s1: "disk s1 = disk s" "fs_ok s \<longrightarrow> fs_ok s1"
      "diskBuffer s1 = disk s (hardDrive m) (fat_base m + c div 128)"
      "alloc_loop m prev (fatLBA m + drop_bit 7 2) 2 s =
        claimCluster m prev (fatLBA m + drop_bit 7 (of_nat c)) (of_nat c) s1"
    using alloc_loop_first [OF assms(2) le c(2,3), of prev] skip by blast
  have inv: "fs_inv m s1" using assms(1) s1(1,2) by (simp add: fs_inv_def mirrored_def)
  have "diskBuffer s1 = disk s1 (hardDrive m) (fat_base m + unat (of_nat c :: u32) div 128)"
    using s1(1,3) uc by simp
  from claimCluster_spec [OF inv assms(2) _ assms(3) this] c(1)
  show ?thesis
    using s1(4) vol_disk [OF s1(1), of m] by (simp add: allocateFreeCluster_def uc)
qed

lemma allocateFreeCluster_full:
  assumes "wf_meta m" "\<And>c. \<not> is_free m (vol m s) c"
  shows "allocateFreeCluster m prev s = Inl (Panic ''no new cluster can be allocated'')"
proof -
  have "vfat (vol m s) k \<noteq> 0" if "unat (2 :: u32) \<le> k" "k < nclusters m" for k
    using assms(2) [of k] that by (simp add: is_free_def valid_cluster_def)
  then show ?thesis
    using alloc_loop_full [OF assms(1), of 2 s prev] nclusters_bound(2) [OF assms(1)]
    by (simp add: allocateFreeCluster_def)
qed

end
