(* ===== verification/Fat32_Chain.thy ===== *)
theory Fat32_Chain
  imports Fat32_Table
begin

text \<open>
  Cluster chains: the lists of clusters that the table links from a first cluster to an
  end mark. A chain has no repetition, \<open>nextCluster\<close> walks and extends it, and
  \<open>removeFATChain\<close> frees exactly its clusters, which is the abstract operation \<open>vol_free\<close>.
\<close>

section \<open>Following a chain\<close>

definition is_eoc :: "u32 \<Rightarrow> bool" where
  "is_eoc x \<longleftrightarrow> 0x0FFFFFF8 \<le> sint x"

lemma is_eoc_EOC [simp]: "is_eoc EOC"
  by (simp add: is_eoc_def EOC_def)

lemma not_eoc_cluster:
  assumes "wf_meta m" "c < nclusters m"
  shows "\<not> is_eoc (of_nat c)" "unat (of_nat c :: u32) = c"
proof -
  have lt: "c < 0x0FFFFFF8" using assms nclusters_bound(1) by fastforce
  then show u: "unat (of_nat c :: u32) = c" by (simp add: unat_of_nat)
  have "sint (of_nat c :: u32) = int c"
    using lt u sint_small [of "of_nat c"] by simp
  then show "\<not> is_eoc (of_nat c)" using lt by (simp add: is_eoc_def)
qed

lemma nextCluster_eq:
  assumes "wf_meta m" "unat c < nclusters m"
  shows "nextCluster m c s =
    (let s = read_sector (hardDrive m) (fatLBA m + drop_bit 7 c) s in
     if is_eoc (vfat (vol m s) (unat c)) then allocateFreeCluster m c s
     else Inr (vfat (vol m s) (unat c), s))"
  using assms(2) unat_fat_sector(1) [OF assms]
  by (simp add: nextCluster_def Let_def is_eoc_def vfat_vol)

text \<open>
  \<open>chain m v cs\<close>: the clusters \<open>cs\<close> are linked in this order in the table of \<open>v\<close>, and the
  last one carries an end mark.
\<close>

fun chain :: "FAT32_Metadata \<Rightarrow> volume \<Rightarrow> nat list \<Rightarrow> bool" where
  "chain m v [] = False"
| "chain m v [c] = (valid_cluster m c \<and> is_eoc (vfat v c))"
| "chain m v (c # d # cs) = (valid_cluster m c \<and> vfat v c = of_nat d \<and> chain m v (d # cs))"

lemma chain_hd: "chain m v (c # cs) \<Longrightarrow> valid_cluster m c"
  by (cases cs) auto

lemma chain_valid: "chain m v cs \<Longrightarrow> c \<in> set cs \<Longrightarrow> valid_cluster m c"
  by (induction m v cs rule: chain.induct) auto

lemma chain_nonempty: "chain m v cs \<Longrightarrow> cs \<noteq> []"
  by auto

lemma chain_cong:
  "(\<And>c. c \<in> set cs \<Longrightarrow> vfat v c = vfat v' c) \<Longrightarrow> chain m v cs = chain m v' cs"
  by (induction m v cs rule: chain.induct) auto

lemma chain_unique:
  assumes "wf_meta m"
  shows "chain m v (c # cs) \<Longrightarrow> chain m v (c # ds) \<Longrightarrow> cs = ds"
proof (induction cs arbitrary: c ds)
  case Nil
  then show ?case
    using not_eoc_cluster [OF assms] chain_hd [of m v] by (cases ds) (auto simp: valid_cluster_def)
next
  case (Cons d cs)
  from Cons.prems(1) have d: "vfat v c = of_nat d" "chain m v (d # cs)" "d < nclusters m"
    using chain_hd [of m v d cs] by (auto simp: valid_cluster_def)
  then obtain e es where ds: "ds = e # es"
    using Cons.prems(2) not_eoc_cluster(1) [OF assms d(3)] by (cases ds) auto
  with Cons.prems(2) have e: "vfat v c = of_nat e" "chain m v (e # es)" "e < nclusters m"
    using chain_hd [of m v e es] by (auto simp: valid_cluster_def)
  have "d = e"
    using d(1,3) e(1,3) not_eoc_cluster(2) [OF assms] by metis
  with Cons.IH d(2) e(2) ds show ?case by blast
qed

lemma chain_append:
  "chain m v (xs @ c # ys) \<Longrightarrow> chain m v (c # ys)"
  by (induction m v xs rule: chain.induct) (auto elim: chain.elims)

lemma chain_distinct:
  assumes "wf_meta m"
  shows "chain m v cs \<Longrightarrow> distinct cs"
proof (induction cs)
  case Nil
  then show ?case by simp
next
  case (Cons c cs)
  show ?case
  proof (cases cs)
    case Nil
    then show ?thesis by simp
  next
    case (Cons d ds)
    with Cons.prems have tl: "chain m v cs" by simp
    have "c \<notin> set cs"
    proof
      assume "c \<in> set cs"
      then obtain xs ys where cs: "cs = xs @ c # ys" by (meson split_list)
      with tl have "chain m v (c # ys)" by (simp add: chain_append)
      with chain_unique [OF assms Cons.prems] have "cs = ys" by blast
      with cs show False by simp
    qed
    with Cons.IH [OF tl] show ?thesis by simp
  qed
qed

text \<open>Inside a chain \<open>nextCluster\<close> returns the next cluster and changes nothing.\<close>

lemma nextCluster_inner:
  assumes "wf_meta m" "fs_inv m s" "chain m (vol m s) (unat c # d # cs)"
  shows "\<exists>s'. nextCluster m c s = Inr (of_nat d, s') \<and> fs_inv m s' \<and> disk s' = disk s"
proof -
  have c: "unat c < nclusters m" "vfat (vol m s) (unat c) = of_nat d" "d < nclusters m"
    using assms(3) chain_hd [of m "vol m s" d cs] by (auto simp: valid_cluster_def)
  have "nextCluster m c s = Inr (of_nat d, read_sector (hardDrive m) (fatLBA m + drop_bit 7 c) s)"
    using nextCluster_eq [OF assms(1) c(1)] c(2) not_eoc_cluster(1) [OF assms(1) c(3)]
    by (simp add: Let_def)
  then show ?thesis using assms(2) by auto
qed

text \<open>At the end of a chain it appends the first free cluster, wiped.\<close>

lemma nextCluster_extend:
  assumes "wf_meta m" "fs_inv m s" "chain m (vol m s) [unat c]"
    and "is_free m (vol m s) d" "\<And>j. j < d \<Longrightarrow> \<not> is_free m (vol m s) j"
  shows "\<exists>s'. nextCluster m c s = Inr (of_nat d, s') \<and> fs_inv m s' \<and>
    vol m s' = vol_alloc m (unat c) d (vol m s)"
proof -
  have c: "unat c < nclusters m" "is_eoc (vfat (vol m s) (unat c))"
    using assms(3) by (auto simp: valid_cluster_def)
  show ?thesis
    using nextCluster_eq [OF assms(1) c(1), of s] c(2)
      allocateFreeCluster_spec [OF fs_inv_read [OF assms(2)] assms(1) c(1), of "hardDrive m" _ d] assms(4,5)
    by (simp add: Let_def)
qed

lemma nextCluster_full:
  assumes "wf_meta m" "chain m (vol m s) [unat c]" "\<And>d. \<not> is_free m (vol m s) d"
  shows "nextCluster m c s = Inl (Panic ''no new cluster can be allocated'')"
proof -
  have c: "unat c < nclusters m" "is_eoc (vfat (vol m s) (unat c))"
    using assms(2) by (auto simp: valid_cluster_def)
  show ?thesis
    using nextCluster_eq [OF assms(1) c(1), of s] c(2)
      allocateFreeCluster_full [OF assms(1), of "read_sector (hardDrive m) (fatLBA m + drop_bit 7 c) s"]
      assms(3)
    by (simp add: Let_def)
qed

section \<open>Freeing a chain\<close>

definition vol_free :: "nat list \<Rightarrow> volume \<Rightarrow> volume" where
  "vol_free cs v = v\<lparr>vfat := (\<lambda>c. if c \<in> set cs then 0 else vfat v c)\<rparr>"

lemma vol_free_Cons: "vol_free cs (v\<lparr>vfat := (vfat v)(c := 0)\<rparr>) = vol_free (c # cs) v"
  by (rule volume.equality) (auto simp: vol_free_def)

text \<open>The state in which \<open>removeFATChain\<close> recurses: the entry of the cluster is 0 in every copy.\<close>

definition cut_entry :: "FAT32_Metadata \<Rightarrow> u32 \<Rightarrow> fs \<Rightarrow> fs" where
  "cut_entry m c s =
     (let s = read_sector (hardDrive m) (fatLBA m + drop_bit 7 c) s
      in updateEveryFat m (fatLBA m + drop_bit 7 c)
           (s\<lparr>diskBuffer := store32 (diskBuffer s) (4 * (unat c mod 128)) 0\<rparr>))"

lemma cut_entry:
  assumes "wf_meta m" "fs_inv m s" "unat c < nclusters m"
  shows "fs_inv m (cut_entry m c s)"
    "vol m (cut_entry m c s) = (vol m s)\<lparr>vfat := (vfat (vol m s))(unat c := 0)\<rparr>"
    "load32 (disk s (hardDrive m) (unat (fatLBA m + drop_bit 7 c))) (4 * (unat c mod 128))
      = vfat (vol m s) (unat c)"
proof -
  let ?sec = "fatLBA m + drop_bit 7 c"
  define s1 where "s1 = read_sector (hardDrive m) ?sec s"
  define s2 where "s2 = s1\<lparr>diskBuffer := store32 (diskBuffer s1) (4 * (unat c mod 128)) 0\<rparr>"
  have s1: "fs_inv m s1" "fs_ok s1" "disk s1 = disk s"
    using assms(2) fs_inv_fs_ok by (auto simp: s1_def store.ok_rd)
  have s2: "fs_inv m s2" "vol m s2 = vol m s"
    using s1 slot_bound [of "unat c"] vol_disk [OF s1(3), of m] by (auto simp: s2_def)
  have "diskBuffer s2 =
      store32 (disk s2 (hardDrive m) (fat_base m + unat c div 128)) (4 * (unat c mod 128)) 0"
    using unat_fat_sector(1) [OF assms(1,3)] by (simp add: s2_def s1_def)
  note s3 = fat_write [OF s2(1) assms(1,3) this]
  have "cut_entry m c s = updateEveryFat m ?sec s2"
    by (simp add: cut_entry_def Let_def s2_def s1_def)
  then show "fs_inv m (cut_entry m c s)"
    "vol m (cut_entry m c s) = (vol m s)\<lparr>vfat := (vfat (vol m s))(unat c := 0)\<rparr>"
    using s3(1,2) s2(2) by simp_all
  show "load32 (disk s (hardDrive m) (unat ?sec)) (4 * (unat c mod 128)) = vfat (vol m s) (unat c)"
    using unat_fat_sector(1) [OF assms(1,3)] assms(3) by (simp add: vfat_vol)
qed

lemma remove_chain_step:
  assumes "wf_meta m" "fs_inv m s" "unat c < nclusters m"
  shows "remove_chain m c s =
    (if is_eoc (vfat (vol m s) (unat c)) then Some (cut_entry m c s)
     else remove_chain m (vfat (vol m s) (unat c)) (cut_entry m c s))"
  using cut_entry(3) [OF assms]
  by (subst remove_chain.simps) (simp add: Let_def cut_entry_def is_eoc_def not_le)

lemma remove_chain_spec:
  assumes "wf_meta m"
  shows "fs_inv m s \<Longrightarrow> chain m (vol m s) (unat c # cs) \<Longrightarrow>
    \<exists>s'. remove_chain m c s = Some s' \<and> fs_inv m s' \<and> vol m s' = vol_free (unat c # cs) (vol m s)"
proof (induction cs arbitrary: c s)
  case Nil
  then have "unat c < nclusters m" "is_eoc (vfat (vol m s) (unat c))"
    by (auto simp: valid_cluster_def)
  with remove_chain_step [OF assms Nil.prems(1)] cut_entry [OF assms Nil.prems(1)] show ?case
    by (simp add: vol_free_def fun_upd_def)
next
  case (Cons d cs)
  then have c: "unat c < nclusters m" "vfat (vol m s) (unat c) = of_nat d" "chain m (vol m s) (d # cs)"
    by (auto simp: valid_cluster_def)
  have d: "d < nclusters m" using chain_hd [OF c(3)] by (simp add: valid_cluster_def)
  note nd = not_eoc_cluster [OF assms d]
  obtain s1 where s1: "fs_inv m s1" "vol m s1 = (vol m s)\<lparr>vfat := (vfat (vol m s))(unat c := 0)\<rparr>"
      "remove_chain m c s = remove_chain m (of_nat d) s1"
    using remove_chain_step [OF assms Cons.prems(1) c(1)] cut_entry [OF assms Cons.prems(1) c(1)] c(2) nd(1)
    by auto
  have "unat c \<notin> set (d # cs)" using chain_distinct [OF assms Cons.prems(2)] by simp
  then have "chain m (vol m s1) (d # cs) = chain m (vol m s) (d # cs)"
    by (intro chain_cong) (auto simp: s1(2))
  then have "chain m (vol m s1) (unat (of_nat d :: u32) # cs)"
    using c(3) by (simp add: nd(2))
  from Cons.IH [OF s1(1) this] obtain s2 where
    "remove_chain m (of_nat d) s1 = Some s2" "fs_inv m s2" "vol m s2 = vol_free (d # cs) (vol m s1)"
    by (auto simp: nd(2))
  moreover from this(3) have "vol m s2 = vol_free (unat c # d # cs) (vol m s)"
    by (simp only: s1(2) vol_free_Cons)
  ultimately show ?case using s1(3) by auto
qed

end
