(* ===== verification/Fat32_File.thy ===== *)
theory Fat32_File
  imports Fat32_Chain
begin

text \<open>
  The contents of files: \<open>readFile\<close> returns the bytes stored along a chain, and
  \<open>writeFile\<close> stores the caller's bytes along a chain it allocates, cluster by cluster,
  leaving every other cluster as it was.
\<close>

section \<open>Contents of a chain\<close>

text \<open>The bytes from sector \<open>i\<close> of cluster \<open>c\<close> to the end of the chain \<open>c # cs\<close>.\<close>

definition tail_bytes :: "FAT32_Metadata \<Rightarrow> volume \<Rightarrow> nat \<Rightarrow> nat \<Rightarrow> nat list \<Rightarrow> bytes" where
  "tail_bytes m v c i cs =
     concat (map (vdata v c) [i..<unat (sectorPerCluster m)]) @
     concat (map (\<lambda>c. concat (map (vdata v c) [0..<unat (sectorPerCluster m)])) cs)"

definition chain_bytes :: "FAT32_Metadata \<Rightarrow> volume \<Rightarrow> nat list \<Rightarrow> bytes" where
  "chain_bytes m v cs = concat (map (\<lambda>c. concat (map (vdata v c) [0..<unat (sectorPerCluster m)])) cs)"

definition sectors_for :: "nat \<Rightarrow> nat" where
  "sectors_for n = (n + 511) div 512"

definition free_clusters :: "FAT32_Metadata \<Rightarrow> volume \<Rightarrow> nat set" where
  "free_clusters m v = {c. is_free m v c}"

lemma chain_bytes_Cons: "chain_bytes m v (c # cs) = tail_bytes m v c 0 cs"
  by (simp add: chain_bytes_def tail_bytes_def)

lemma tail_bytes_step:
  "i < unat (sectorPerCluster m) \<Longrightarrow> tail_bytes m v c i cs = vdata v c i @ tail_bytes m v c (Suc i) cs"
  by (simp add: tail_bytes_def upt_conv_Cons)

lemma tail_bytes_next:
  "unat (sectorPerCluster m) \<le> i \<Longrightarrow> tail_bytes m v c i (d # cs) = tail_bytes m v d 0 cs"
  by (simp add: tail_bytes_def)

lemma tail_bytes_cong:
  assumes "\<And>j. i \<le> j \<Longrightarrow> vdata v c j = vdata v' c j" "\<And>d. d \<in> set cs \<Longrightarrow> vdata v d = vdata v' d"
  shows "tail_bytes m v c i cs = tail_bytes m v' c i cs"
proof -
  have "map (vdata v c) [i..<n] = map (vdata v' c) [i..<n]" for n using assms(1) by simp
  moreover have "map (\<lambda>c. concat (map (vdata v c) [0..<n])) cs = map (\<lambda>c. concat (map (vdata v' c) [0..<n])) cs"
    for n using assms(2) by simp
  ultimately show ?thesis by (simp only: tail_bytes_def)
qed

lemma take_append_512:
  "length d = 512 \<Longrightarrow> take n (d @ r) = take (min n 512) d @ take (n - min n 512) r"
  by (simp add: min_def)

lemma sectors_for_step: "0 < n \<Longrightarrow> sectors_for n = Suc (sectors_for (n - min n 512))"
  by (simp add: sectors_for_def min_def div_eq_0_iff) linarith

lemma sectors_for_0 [simp]: "sectors_for 0 = 0"
  by (simp add: sectors_for_def)

section \<open>The free clusters\<close>

lemma finite_free [simp]: "finite (free_clusters m v)"
  by (rule finite_subset [of _ "{..<nclusters m}"])
    (auto simp: free_clusters_def is_free_def valid_cluster_def)

lemma least_free:
  assumes "is_free m v c"
  obtains d where "is_free m v d" "\<And>j. j < d \<Longrightarrow> \<not> is_free m v j"
  using assms LeastI [of "is_free m v" c] not_less_Least [of _ "is_free m v"] by blast

lemma least_free_card:
  assumes "0 < card (free_clusters m v)"
  obtains d where "is_free m v d" "\<And>j. j < d \<Longrightarrow> \<not> is_free m v j"
proof -
  obtain c where "is_free m v c" using assms by (auto simp: free_clusters_def card_gt_0_iff)
  then show ?thesis by (rule least_free) (rule that)
qed

lemma vol_alloc_simps [simp]:
  "vrest (vol_alloc m p c v) = vrest v"
  "vdata (vol_alloc m p c v) = (vdata v)(c := wiped m)"
  by (simp_all add: vol_alloc_def)

lemma vfat_vol_alloc:
  "vfat (vol_alloc m p c v) x =
    (if p \<noteq> 0 \<and> x = p then of_nat c else if x = c then EOC else vfat v x)"
  by (simp add: vol_alloc_def)

lemma EOC_neq_0 [simp]: "EOC \<noteq> 0"
  by (simp add: EOC_def)

lemma free_vol_alloc:
  assumes "wf_meta m" "is_free m v c" "p = 0 \<or> \<not> is_free m v p"
  shows "free_clusters m (vol_alloc m p c v) = free_clusters m v - {c}"
proof -
  have "c < nclusters m" "2 \<le> c" using assms(2) by (auto simp: is_free_def valid_cluster_def)
  then have "(of_nat c :: u32) \<noteq> 0"
    using not_eoc_cluster(2) [OF assms(1)] by (metis not_numeral_le_zero unat_0)
  then show ?thesis
    using assms(2,3) by (auto simp: free_clusters_def is_free_def vfat_vol_alloc)
qed

section \<open>Reading\<close>

lemma sint_bytes:
  fixes b :: c_int
  assumes "sint b = int n" "0 < n"
  shows "b \<noteq> 0" "nat (sint (if 512 \<le> sint b then 512 else b)) = min n 512"
    "sint (b - (if 512 \<le> sint b then 512 else b)) = int (n - min n 512)"
  using assms sint_minus_512 [of b] by auto

lemma sint_sector_index:
  assumes "wf_meta m" "i < unat (sectorPerCluster m)"
  shows "(of_nat i :: c_int) + 1 = of_nat (Suc i)"
    "sint (sectorPerCluster m) \<le> sint (of_nat (Suc i) :: c_int) \<longleftrightarrow> unat (sectorPerCluster m) \<le> Suc i"
proof -
  have "Suc i < 2 ^ 31" using assms wf_metaD(2) [OF assms(1)] by simp
  then have "sint (of_nat (Suc i) :: c_int) = int (Suc i)"
    by (subst sint_small) (simp_all add: unat_of_nat del: of_nat_Suc)
  then show "sint (sectorPerCluster m) \<le> sint (of_nat (Suc i) :: c_int) \<longleftrightarrow>
      unat (sectorPerCluster m) \<le> Suc i"
    unfolding sint_counts(3) [OF assms(1)] by (simp only: of_nat_le_iff)
qed simp

text \<open>One turn of the read loop, with the sector it copies named by cluster and index.\<close>

lemma readFile_step:
  assumes "wf_meta m" "fs_inv m s" "valid_cluster m (unat c)" "i < unat (sectorPerCluster m)"
    and n: "sint b = int n" "0 < n"
  shows "\<exists>s'. fs_inv m s' \<and> disk s' = disk s \<and>
    readFile_loop m c (of_nat i) b acc s =
      (let acc = acc @ take (min n 512) (vdata (vol m s) (unat c) i);
           b = b - (if 512 \<le> sint b then 512 else b)
       in if unat (sectorPerCluster m) \<le> Suc i then
            bind (nextCluster m c s') (\<lambda>(c, s). readFile_loop m c 0 b acc s)
          else readFile_loop m c (of_nat (Suc i)) b acc s')"
  using assms unat_clusterSector [OF assms(1,3,4)]
  by (intro exI [of _ "read_sector (hardDrive m) (clusterSector m c + of_nat i) s"])
    (simp add: readFile_loop.simps [of m c "of_nat i" b acc s] Let_def sint_bytes [OF n]
      sint_sector_index [OF assms(1,4)] vdata_vol del: of_nat_Suc)

text \<open>
  The loop returns the bytes of the chain. It leaves the volume as it is unless it reads
  the last sector of the chain: then it has already stepped to the next cluster, which
  \<open>nextCluster\<close> allocates.
\<close>

definition read_effect :: "FAT32_Metadata \<Rightarrow> nat list \<Rightarrow> nat \<Rightarrow> nat \<Rightarrow> volume \<Rightarrow> volume" where
  "read_effect m cs k d v =
     (if k < unat (sectorPerCluster m) * length cs then v else vol_alloc m (last cs) d v)"

text \<open>
  What the loop needs to read \<open>n\<close> bytes from sector \<open>i\<close> of the cluster \<open>c\<close> on, \<open>d\<close> being the lowest free cluster if it reads to the end, and
  what it then returns.
\<close>

definition readable :: "FAT32_Metadata \<Rightarrow> nat \<Rightarrow> u32 \<Rightarrow> nat list \<Rightarrow> nat \<Rightarrow> nat \<Rightarrow> fs \<Rightarrow> bool" where
  "readable m d c cs i n s \<longleftrightarrow> fs_inv m s \<and> chain m (vol m s) (unat c # cs) \<and> i < unat (sectorPerCluster m) \<and>
     i + sectors_for n \<le> unat (sectorPerCluster m) * Suc (length cs) \<and>
     (i + sectors_for n < unat (sectorPerCluster m) * Suc (length cs) \<or>
      is_free m (vol m s) d \<and> (\<forall>j < d. \<not> is_free m (vol m s) j))"

definition reads :: "FAT32_Metadata \<Rightarrow> nat \<Rightarrow> u32 \<Rightarrow> nat list \<Rightarrow> nat \<Rightarrow> nat \<Rightarrow> bytes \<Rightarrow> fs \<Rightarrow> (bytes \<times> fs) result \<Rightarrow> bool" where
  "reads m d c cs i n acc s r \<longleftrightarrow> (\<exists>s'. r = Inr (acc @ take n (tail_bytes m (vol m s) (unat c) i cs), s') \<and> fs_inv m s' \<and>
     vol m s' = read_effect m (unat c # cs) (i + sectors_for n) d (vol m s))"

lemma take_tail:
  assumes "readable m d c cs i n s"
  shows "take n (tail_bytes m (vol m s) (unat c) i cs) =
    take (min n 512) (vdata (vol m s) (unat c) i) @ take (n - min n 512) (tail_bytes m (vol m s) (unat c) (Suc i) cs)"
proof -
  have i: "i < unat (sectorPerCluster m)" and "length (vdata (vol m s) (unat c) i) = 512"
    using assms chain_hd length_vdata [OF fs_inv_fs_ok] unfolding readable_def by blast+
  then show ?thesis unfolding tail_bytes_step [OF i] by (intro take_append_512)
qed

lemma reads_same_cluster:
  assumes "readable m d c cs i n s" "0 < n" "Suc i < unat (sectorPerCluster m)" "fs_inv m t" "vol m t = vol m s"
  shows "readable m d c cs (Suc i) (n - min n 512) t"
    "reads m d c cs (Suc i) (n - min n 512) (acc @ take (min n 512) (vdata (vol m s) (unat c) i)) t r \<Longrightarrow> reads m d c cs i n acc s r"
  using assms sectors_for_step [OF assms(2)] take_tail [OF assms(1)] by (auto simp: readable_def reads_def)

lemma reads_next_cluster:
  assumes "wf_meta m" "readable m d c (a # cs) i n s" "0 < n" "Suc i = unat (sectorPerCluster m)" "fs_inv m t" "vol m t = vol m s"
  shows "readable m d (of_nat a) cs 0 (n - min n 512) t"
    "reads m d (of_nat a) cs 0 (n - min n 512) (acc @ take (min n 512) (vdata (vol m s) (unat c) i)) t r \<Longrightarrow> reads m d c (a # cs) i n acc s r"
proof -
  have "chain m (vol m s) (a # cs)" using assms(2) by (simp add: readable_def)
  then have u: "unat (of_nat a :: u32) = a"
    using chain_hd not_eoc_cluster(2) [OF assms(1)] unfolding valid_cluster_def by blast
  have sf: "i + sectors_for n = unat (sectorPerCluster m) + sectors_for (n - min n 512)"
    using sectors_for_step [OF assms(3)] assms(4) by simp
  show "readable m d (of_nat a) cs 0 (n - min n 512) t"
    using assms(2,5,6) wf_metaD(1) [OF assms(1)] unfolding readable_def u sf by auto
  have "tail_bytes m (vol m s) (unat c) (Suc i) (a # cs) = tail_bytes m (vol m s) a 0 cs"
    using assms(4) by (intro tail_bytes_next) simp
  then show "reads m d (of_nat a) cs 0 (n - min n 512) (acc @ take (min n 512) (vdata (vol m s) (unat c) i)) t r \<Longrightarrow>
      reads m d c (a # cs) i n acc s r"
    unfolding reads_def read_effect_def u sf take_tail [OF assms(2)] by (auto simp: assms(6))
qed

text \<open>The last sector of the chain: nothing is left to read, and the loop steps to a cluster that it allocates.\<close>

lemma reads_last:
  assumes "wf_meta m" "readable m d c [] i n s" "0 < n" "Suc i = unat (sectorPerCluster m)" "fs_inv m t" "vol m t = vol m s"
  shows "n - min n 512 = 0"
    "\<exists>t'. nextCluster m c t = Inr (of_nat d, t') \<and> reads m d c [] i n acc s (Inr (acc @ take (min n 512) (vdata (vol m s) (unat c) i), t'))"
proof -
  have sf: "i + sectors_for n = unat (sectorPerCluster m) + sectors_for (n - min n 512)"
    using sectors_for_step [OF assms(3)] assms(4) by simp
  then have "sectors_for (n - min n 512) = 0" using assms(2) by (simp add: readable_def)
  then show n: "n - min n 512 = 0" by (auto simp: sectors_for_def)
  obtain t' where "nextCluster m c t = Inr (of_nat d, t')" "fs_inv m t'" "vol m t' = vol_alloc m (unat c) d (vol m s)"
    using nextCluster_extend [OF assms(1,5), of c d] assms(2,6) sf unfolding readable_def by auto
  then show "\<exists>t'. nextCluster m c t = Inr (of_nat d, t') \<and>
      reads m d c [] i n acc s (Inr (acc @ take (min n 512) (vdata (vol m s) (unat c) i), t'))"
    using n sf take_tail [OF assms(2)] by (simp add: reads_def read_effect_def)
qed

lemma readFile_loop_reads:
  assumes "wf_meta m"
  shows "readable m d c cs i n s \<Longrightarrow> sint b = int n \<Longrightarrow> reads m d c cs i n acc s (readFile_loop m c (of_nat i) b acc s)"
proof (induction n arbitrary: s c cs i b acc rule: less_induct)
  case (less n)
  let ?spc = "unat (sectorPerCluster m)" and ?n = "n - min n 512" and ?b = "b - (if 512 \<le> sint b then 512 else b)"
  show ?case
  proof (cases "n = 0")
    case True
    then have "b = 0" using less.prems(2) by (simp add: signed_eq_0_iff)
    then show ?thesis using True less.prems(1) by (simp add: readFile_loop.simps reads_def readable_def read_effect_def)
  next
    case False
    then have n: "0 < n" "?n < n" "sint ?b = int ?n" using sint_bytes(3) [OF less.prems(2)] by simp_all
    have r: "fs_inv m s" "valid_cluster m (unat c)" "i < ?spc" using less.prems(1) chain_hd unfolding readable_def by blast+
    let ?acc = "acc @ take (min n 512) (vdata (vol m s) (unat c) i)"
    obtain t where t: "fs_inv m t" "disk t = disk s" and step: "readFile_loop m c (of_nat i) b acc s =
        (if ?spc \<le> Suc i then bind (nextCluster m c t) (\<lambda>(c, s). readFile_loop m c 0 ?b ?acc s)
         else readFile_loop m c (of_nat (Suc i)) ?b ?acc t)"
      using readFile_step [OF assms r less.prems(2) n(1)] by (auto simp: Let_def)
    note t = t(1) vol_disk [OF t(2)]
    have "Suc i < ?spc \<or> Suc i = ?spc" using r(3) by linarith
    then consider "Suc i < ?spc" | a ds where "Suc i = ?spc" "cs = a # ds" | "Suc i = ?spc" "cs = []"
      by (cases cs) auto
    then show ?thesis
    proof cases
      case 1
      note same = reads_same_cluster [OF less.prems(1) n(1) 1 t]
      show ?thesis using 1 step same(2) [OF less.IH [OF n(2) same(1) n(3)]] by (simp del: of_nat_Suc)
    next
      case 2
      obtain u where u: "nextCluster m c t = Inr (of_nat a, u)" "fs_inv m u" "disk u = disk t"
        using nextCluster_inner [OF assms t(1), of c a ds] less.prems(1) t(2) 2(2) by (auto simp: readable_def)
      note nxt = reads_next_cluster [OF assms less.prems(1) [unfolded 2(2)] n(1) 2(1) u(2) trans [OF vol_disk [OF u(3)] t(2)]]
      show ?thesis using 2 step u(1) nxt(2) [OF less.IH [OF n(2) nxt(1) n(3)]] by simp
    next
      case 3
      note lst = reads_last [OF assms less.prems(1) [unfolded 3(2)] n(1) 3(1) t]
      have "?b = 0" using n(3) lst(1) by (simp add: signed_eq_0_iff)
      then show ?thesis using 3 step lst(2) [of acc] by (auto simp: readFile_loop.simps)
    qed
  qed
qed

text \<open>\<open>readFile\<close> on a file of \<open>n\<close> bytes whose chain is \<open>c # cs\<close>.\<close>

lemma readFile_spec:
  assumes "wf_meta m" "fs_inv m s" "chain m (vol m s) (unat c # cs)" "sint b = int n"
    and "sectors_for n < unat (sectorPerCluster m) * Suc (length cs)"
  shows "\<exists>s'. readFile m c b s = Inr (take n (chain_bytes m (vol m s) (unat c # cs)), s') \<and>
    fs_inv m s' \<and> vol m s' = vol m s"
  using readFile_loop_reads [OF assms(1), of 0 c cs 0 n s b "[]"] wf_metaD(1) [OF assms(1)] assms(2-5)
  by (simp add: readFile_def readable_def reads_def chain_bytes_Cons read_effect_def)

lemma readFile_extends:
  assumes "wf_meta m" "fs_inv m s" "chain m (vol m s) (unat c # cs)" "sint b = int n"
    and "sectors_for n = unat (sectorPerCluster m) * Suc (length cs)"
    and "is_free m (vol m s) d" "\<And>j. j < d \<Longrightarrow> \<not> is_free m (vol m s) j"
  shows "\<exists>s'. readFile m c b s = Inr (take n (chain_bytes m (vol m s) (unat c # cs)), s') \<and>
    fs_inv m s' \<and> vol m s' = vol_alloc m (last (unat c # cs)) d (vol m s)"
  using readFile_loop_reads [OF assms(1), of d c cs 0 n s b "[]"] wf_metaD(1) [OF assms(1)] assms(2-7)
  by (simp add: readFile_def readable_def reads_def chain_bytes_Cons read_effect_def)

section \<open>Writing\<close>

definition new_sector :: "(nat \<Rightarrow> u8) \<Rightarrow> nat \<Rightarrow> nat \<Rightarrow> bytes \<Rightarrow> bytes" where
  "new_sector buf k n old = map (\<lambda>i. buf (k + i)) [0..<min n 512] @ drop (min n 512) old"

definition put_sector :: "nat \<Rightarrow> nat \<Rightarrow> bytes \<Rightarrow> volume \<Rightarrow> volume" where
  "put_sector c i b v = v\<lparr>vdata := (vdata v)(c := (vdata v c)(i := b))\<rparr>"

lemma put_sector_simps [simp]:
  "vfat (put_sector c i b v) = vfat v" "vrest (put_sector c i b v) = vrest v"
  "vdata (put_sector c i b v) = (vdata v)(c := (vdata v c)(i := b))"
  by (simp_all add: put_sector_def)

lemma length_new_sector: "length old = 512 \<Longrightarrow> length (new_sector buf k n old) = 512"
  by (simp add: new_sector_def)

lemma take_new_sector:
  "take (min n 512) (new_sector buf k n old @ r) = map buf [k..<k + min n 512]"
  by (intro nth_equalityI) (simp_all add: new_sector_def nth_append)

text \<open>Writing the buffer to sector \<open>i\<close> of cluster \<open>c\<close>.\<close>

lemma write_data_sector:
  assumes "wf_meta m" "fs_inv m s" "valid_cluster m (unat c)" "i < unat (sectorPerCluster m)"
    "length b = 512"
  defines "s' \<equiv> write_sector (hardDrive m) (clusterSector m c + of_nat i) (s\<lparr>diskBuffer := b\<rparr>)"
  shows "fs_inv m s'" "vol m s' = put_sector (unat c) i b (vol m s)"
proof -
  have s: "fs_inv m (s\<lparr>diskBuffer := b\<rparr>)" using assms(2,5) by (rule fs_inv_buffer)
  note w = data_write [OF s assms(1,3), of "[i]" "\<lambda>i. i"]
  show "fs_inv m s'" using w(1) assms(4) by (simp add: s'_def)
  have "(\<lambda>j. if j \<in> (\<lambda>i. i) ` set [i] then b else vdata (vol m s) (unat c) j)
      = (vdata (vol m s) (unat c))(i := b)"
    by auto
  then show "vol m s' = put_sector (unat c) i b (vol m s)"
    using w(3) assms(4) by (simp add: s'_def put_sector_def fun_upd_def cong: if_cong)
qed

lemma writeFile_step:
  fixes k :: nat
  assumes "wf_meta m" "fs_inv m s" "valid_cluster m (unat c)" "i < unat (sectorPerCluster m)"
    and n: "sint b = int n" "0 < n"
  defines "b' \<equiv> b - (if 512 \<le> sint b then 512 else b)" and "k' \<equiv> k + min n 512"
  shows "\<exists>s'. fs_inv m s' \<and>
    vol m s' = put_sector (unat c) i (new_sector buf k n (vdata (vol m s) (unat c) i)) (vol m s) \<and>
    writeFile_loop m c (of_nat i) b buf k s =
      (if unat (sectorPerCluster m) \<le> Suc i then
         bind (nextCluster m c s') (\<lambda>(c, s). writeFile_loop m c 0 b' buf k' s)
       else writeFile_loop m c (of_nat (Suc i)) b' buf k' s')"
proof -
  let ?sec = "clusterSector m c + of_nat i"
  let ?old = "vdata (vol m s) (unat c) i"
  let ?s1 = "read_sector (hardDrive m) ?sec s"
  have len: "length ?old = 512" using fs_inv_fs_ok [OF assms(2)] assms(3,4) by (rule length_vdata)
  have old: "diskBuffer ?s1 = ?old"
    using unat_clusterSector [OF assms(1,3,4)] assms(3,4) by (simp add: vdata_vol)
  have f: "fold (\<lambda>j b. b[j := buf (k + j)]) [0..<min n 512] ?old = new_sector buf k n ?old"
    unfolding new_sector_def by (rule fold_store_0) (simp add: len)
  let ?s2 = "write_sector (hardDrive m) ?sec (?s1\<lparr>diskBuffer := new_sector buf k n ?old\<rparr>)"
  note w = write_data_sector [OF assms(1) fs_inv_read [OF assms(2)] assms(3,4)
      length_new_sector [OF len, of buf k n], of "hardDrive m" ?sec]
  have "writeFile_loop m c (of_nat i) b buf k s =
      (if unat (sectorPerCluster m) \<le> Suc i then
         bind (nextCluster m c ?s2) (\<lambda>(c, s). writeFile_loop m c 0 b' buf k' s)
       else writeFile_loop m c (of_nat (Suc i)) b' buf k' ?s2)"
    using old f
    by (simp add: writeFile_loop.simps [of m c "of_nat i" b buf k s] Let_def sint_bytes [OF n]
        sint_sector_index [OF assms(1,4)] b'_def k'_def del: of_nat_Suc)
  with w show ?thesis by auto
qed

text \<open>
  What the write loop establishes, from sector \<open>i\<close> of cluster \<open>c\<close> on: the chain grew by
  the clusters \<open>cs\<close>, all of them free before, the bytes are stored in order, and
  everything else is unchanged.
\<close>

definition written ::
  "FAT32_Metadata \<Rightarrow> volume \<Rightarrow> nat \<Rightarrow> nat \<Rightarrow> nat list \<Rightarrow> bytes \<Rightarrow> volume \<Rightarrow> bool" where
  "written m v c i cs xs v' \<longleftrightarrow>
     chain m v' (c # cs) \<and> set cs \<subseteq> free_clusters m v \<and>
     length cs = (i + sectors_for (length xs)) div unat (sectorPerCluster m) \<and>
     take (length xs) (tail_bytes m v' c i cs) = xs \<and>
     (\<forall>j < i. vdata v' c j = vdata v c j) \<and>
     (\<forall>x. x \<notin> set (c # cs) \<longrightarrow> vfat v' x = vfat v x \<and> vdata v' x = vdata v x) \<and>
     vrest v' = vrest v"

lemma written_Nil:
  "chain m v [c] \<Longrightarrow> i < unat (sectorPerCluster m) \<Longrightarrow> written m v c i [] [] v"
  by (simp add: written_def)

lemma free_put_sector [simp]: "is_free m (put_sector c i b v) = is_free m v"
  by (auto simp: is_free_def fun_eq_iff)

lemma free_clusters_put_sector [simp]:
  "free_clusters m (put_sector c i b v) = free_clusters m v"
  by (simp add: free_clusters_def)

lemma sectors_for_append:
  assumes "xs \<noteq> []" "length xs \<le> 512" "length xs < 512 \<longrightarrow> ys = []"
  shows "sectors_for (length (xs @ ys)) = Suc (sectors_for (length ys))"
proof -
  have "length (xs @ ys) - min (length (xs @ ys)) 512 = length ys"
    using assms by (cases "length xs < 512") (auto simp: min_def)
  then show ?thesis using assms(1) sectors_for_step [of "length (xs @ ys)"] by simp
qed

lemma take_sector_append:
  assumes "length b = 512" "take (length xs) b = xs" "length xs < 512 \<longrightarrow> ys = []" "length xs \<le> 512"
    "take (length ys) r = ys"
  shows "take (length (xs @ ys)) (b @ r) = xs @ ys"
  using assms by (cases "length xs < 512") auto

lemma written_same_cluster:
  assumes w: "written m (put_sector c i b v) c (Suc i) cs ys v'" and "length b = 512"
    and i: "i < unat (sectorPerCluster m)"
    and xs: "xs \<noteq> []" "length xs \<le> 512" "length xs < 512 \<longrightarrow> ys = []" "take (length xs) b = xs"
  shows "written m v c i cs (xs @ ys) v'"
  unfolding written_def
proof (intro conjI)
  have b: "vdata v' c i = b" using w by (simp add: written_def)
  show "chain m v' (c # cs)" "set cs \<subseteq> free_clusters m v" "vrest v' = vrest v"
    using w by (simp_all add: written_def)
  show "length cs = (i + sectors_for (length (xs @ ys))) div unat (sectorPerCluster m)"
    unfolding sectors_for_append [OF xs(1-3)] using w by (simp add: written_def)
  show "take (length (xs @ ys)) (tail_bytes m v' c i cs) = xs @ ys"
    unfolding tail_bytes_step [OF i] b
    by (rule take_sector_append) (use assms w in \<open>auto simp: written_def\<close>)
  show "\<forall>j<i. vdata v' c j = vdata v c j" using w by (simp add: written_def)
  show "\<forall>x. x \<notin> set (c # cs) \<longrightarrow> vfat v' x = vfat v x \<and> vdata v' x = vdata v x"
    using w by (simp add: written_def)
qed

lemma written_next_cluster:
  assumes wf: "wf_meta m" and ch: "chain m v [c]" and d: "is_free m v d"
    and w: "written m (vol_alloc m c d (put_sector c i b v)) d 0 cs ys v'" and "length b = 512"
    and i: "Suc i = unat (sectorPerCluster m)"
    and xs: "xs \<noteq> []" "length xs \<le> 512" "length xs < 512 \<longrightarrow> ys = []" "take (length xs) b = xs"
  shows "written m v c i (d # cs) (xs @ ys) v'"
proof -
  let ?v2 = "vol_alloc m c d (put_sector c i b v)"
  have nf: "\<not> is_free m v c" using ch by (auto simp: is_free_def is_eoc_def)
  have cd: "c \<noteq> d" "c \<noteq> 0" using nf d ch by (auto simp: valid_cluster_def)
  have "free_clusters m ?v2 = free_clusters m v - {d}"
    using free_vol_alloc [OF wf, of "put_sector c i b v" d c] d nf by simp
  then have cs: "set cs \<subseteq> free_clusters m v - {d}" using w by (simp add: written_def)
  then have c: "c \<notin> set (d # cs)" using nf cd by (auto simp: free_clusters_def)
  have same: "vfat v' x = vfat ?v2 x" "vdata v' x = vdata ?v2 x" if "x \<notin> set (d # cs)" for x
    using w that by (simp_all add: written_def)
  have b: "vdata v' c i = b" using same(2) [OF c] cd by simp
  show ?thesis
    unfolding written_def
  proof (intro conjI)
    show "chain m v' (c # d # cs)"
      using w ch same(1) [OF c] cd by (simp add: written_def vfat_vol_alloc)
    show "set (d # cs) \<subseteq> free_clusters m v"
      using cs d by (auto simp: free_clusters_def)
    show "vrest v' = vrest v" using w by (simp add: written_def)
    have "length cs = sectors_for (length ys) div unat (sectorPerCluster m)"
      using w by (simp add: written_def)
    moreover have e: "i + Suc (sectors_for (length ys)) = sectors_for (length ys) + unat (sectorPerCluster m)"
      using i by simp
    moreover have "0 < unat (sectorPerCluster m)" using i by simp
    ultimately show "length (d # cs) = (i + sectors_for (length (xs @ ys))) div unat (sectorPerCluster m)"
      unfolding sectors_for_append [OF xs(1-3)] e by (simp add: div_add_self2)
    have "tail_bytes m v' c (Suc i) (d # cs) = tail_bytes m v' d 0 cs"
      by (rule tail_bytes_next) (simp add: i)
    then show "take (length (xs @ ys)) (tail_bytes m v' c i (d # cs)) = xs @ ys"
      using i assms(5) xs w b tail_bytes_step [of i m v' c "d # cs"]
        take_sector_append [of b xs ys "tail_bytes m v' d 0 cs"]
      by (simp add: written_def)
    show "\<forall>j<i. vdata v' c j = vdata v c j" using same(2) [OF c] cd by simp
    show "\<forall>x. x \<notin> set (c # d # cs) \<longrightarrow> vfat v' x = vfat v x \<and> vdata v' x = vdata v x"
      using same by (simp add: vfat_vol_alloc)
  qed
qed

text \<open>The step to the next cluster: the lowest free one is appended, and there are enough left.\<close>

lemma write_extend:
  assumes wf: "wf_meta m" and ch: "chain m v [unat c]" and i: "Suc i = unat (sectorPerCluster m)"
    and sf: "sectors_for n = Suc (sectors_for k)" "(i + sectors_for n) div unat (sectorPerCluster m) \<le> card (free_clusters m v)"
    and s: "fs_inv m s" "vol m s = put_sector (unat c) i b v"
  obtains d t where "is_free m v d" "unat (of_nat d :: u32) = d" "nextCluster m c s = Inr (of_nat d, t)" "fs_inv m t"
    "vol m t = vol_alloc m (unat c) d (put_sector (unat c) i b v)" "chain m (vol m t) [unat (of_nat d :: u32)]"
    "(0 + sectors_for k) div unat (sectorPerCluster m) \<le> card (free_clusters m (vol m t))"
proof -
  have "i + sectors_for n = sectors_for k + unat (sectorPerCluster m)" using sf(1) i by simp
  then have q: "(i + sectors_for n) div unat (sectorPerCluster m) = Suc (sectors_for k div unat (sectorPerCluster m))"
    using i by (simp add: div_add_self2)
  then have "0 < card (free_clusters m v)" using sf(2) by simp
  then obtain d where d: "is_free m v d" "\<And>j. j < d \<Longrightarrow> \<not> is_free m v j" using least_free_card by blast
  obtain t where t: "nextCluster m c s = Inr (of_nat d, t)" "fs_inv m t"
      "vol m t = vol_alloc m (unat c) d (put_sector (unat c) i b v)"
    using nextCluster_extend [OF wf s(1), of c d] ch d s(2) by auto
  have dv: "valid_cluster m d" using d(1) by (simp add: is_free_def)
  then have ud: "unat (of_nat d :: u32) = d" using not_eoc_cluster(2) [OF wf] by (simp add: valid_cluster_def)
  have nf: "\<not> is_free m v (unat c)" using ch by (auto simp: is_free_def is_eoc_def)
  then have "unat c \<noteq> d" using d(1) by blast
  then have "chain m (vol m t) [unat (of_nat d :: u32)]" using dv by (simp add: ud t(3) vfat_vol_alloc)
  moreover have "free_clusters m (vol m t) = free_clusters m v - {d}"
    unfolding t(3) using free_vol_alloc [OF wf, of "put_sector (unat c) i b v" d "unat c"] d(1) nf by simp
  then have "(0 + sectors_for k) div unat (sectorPerCluster m) \<le> card (free_clusters m (vol m t))"
    using sf(2) q d(1) by (simp add: free_clusters_def card_Diff_singleton_if)
  ultimately show ?thesis using that [OF d(1) ud t] by blast
qed

text \<open>The bytes of one turn of the loop, a sector or what is left, and those of the other turns.\<close>

lemma write_chunk:
  fixes b :: c_int and k :: nat
  assumes "sint b = int n" "0 < n"
  defines "n' \<equiv> n - min n 512" and "k' \<equiv> k + min n 512"
  shows "sint (b - (if 512 \<le> sint b then 512 else b)) = int n'" "n' < n" "sectors_for n = Suc (sectors_for n')"
    and "map buf [k..<k'] \<noteq> []" "length (map buf [k..<k']) \<le> 512"
    and "length (map buf [k..<k']) < 512 \<longrightarrow> map buf [k'..<k' + n'] = []"
    and "take (length (map buf [k..<k'])) (new_sector buf k n old) = map buf [k..<k']"
    and "map buf [k..<k'] @ map buf [k'..<k' + n'] = map buf [k..<k + n]"
proof -
  show "sint (b - (if 512 \<le> sint b then 512 else b)) = int n'" using sint_bytes(3) [OF assms(1,2)] by (simp add: n'_def)
  show "n' < n" "sectors_for n = Suc (sectors_for n')" using assms(2) by (simp_all add: n'_def sectors_for_step)
  show "map buf [k..<k'] \<noteq> []" "length (map buf [k..<k']) \<le> 512"
    "length (map buf [k..<k']) < 512 \<longrightarrow> map buf [k'..<k' + n'] = []"
    "take (length (map buf [k..<k'])) (new_sector buf k n old) = map buf [k..<k']"
    using assms(2) take_new_sector [of n buf k _ "[]"] by (auto simp: n'_def k'_def)
  have "[k..<k + n] = [k..<k'] @ [k'..<k' + n']"
    using upt_add_eq_append [of k k' n'] by (simp add: n'_def k'_def)
  then show "map buf [k..<k'] @ map buf [k'..<k' + n'] = map buf [k..<k + n]" by (simp only: map_append)
qed

text \<open>One turn of the loop, when the turns after it do what is claimed: they go on in the same cluster, or in the next one.\<close>

lemma write_turn:
  fixes b :: c_int
  assumes wf: "wf_meta m" and s: "fs_inv m s" and ch: "chain m (vol m s) [unat c]" and i: "i < unat (sectorPerCluster m)"
    and b: "sint b = int n" "0 < n"
    and room: "(i + sectors_for n) div unat (sectorPerCluster m) \<le> card (free_clusters m (vol m s))"
    and IH: "\<And>s c i b k. fs_inv m s \<Longrightarrow> chain m (vol m s) [unat c] \<Longrightarrow> i < unat (sectorPerCluster m) \<Longrightarrow> sint b = int (n - min n 512) \<Longrightarrow>
      (i + sectors_for (n - min n 512)) div unat (sectorPerCluster m) \<le> card (free_clusters m (vol m s)) \<Longrightarrow>
      \<exists>s' cs. writeFile_loop m c (of_nat i) b buf k s = Inr ((), s') \<and> fs_inv m s' \<and>
        written m (vol m s) (unat c) i cs (map buf [k..<k + (n - min n 512)]) (vol m s')"
  shows "\<exists>s' cs. writeFile_loop m c (of_nat i) b buf k s = Inr ((), s') \<and> fs_inv m s' \<and>
    written m (vol m s) (unat c) i cs (map buf [k..<k + n]) (vol m s')"
proof -
  let ?spc = "unat (sectorPerCluster m)" and ?v = "vol m s" and ?k' = "k + min n 512"
  let ?b' = "b - (if 512 \<le> sint b then 512 else b)" and ?new = "new_sector buf k n (vdata (vol m s) (unat c) i)"
  note chunk = write_chunk [OF b]
  note b' = chunk(1) and sf = chunk(3) and xs = chunk(4-7) and app = chunk(8)
  have c: "valid_cluster m (unat c)" using ch by simp
  have len: "length ?new = 512" using fs_inv_fs_ok [OF s] c i by (intro length_new_sector length_vdata)
  obtain s1 where s1: "fs_inv m s1" "vol m s1 = put_sector (unat c) i ?new ?v" and step:
    "writeFile_loop m c (of_nat i) b buf k s =
      (if ?spc \<le> Suc i then bind (nextCluster m c s1) (\<lambda>(c, s). writeFile_loop m c 0 ?b' buf ?k' s)
       else writeFile_loop m c (of_nat (Suc i)) ?b' buf ?k' s1)"
    using writeFile_step [OF wf s c i b, of buf k] by auto
  show ?thesis
  proof (cases "Suc i < ?spc")
    case True
    have ch1: "chain m (vol m s1) [unat c]" using ch s1(2) by simp
    obtain s' cs where s': "writeFile_loop m c (of_nat (Suc i)) ?b' buf ?k' s1 = Inr ((), s')" "fs_inv m s'"
      "written m (put_sector (unat c) i ?new ?v) (unat c) (Suc i) cs (map buf [?k'..<?k' + (n - min n 512)]) (vol m s')"
      using IH [OF s1(1) ch1 True b', of ?k'] room sf s1(2) by auto
    have "written m ?v (unat c) i cs (map buf [k..<k + n]) (vol m s')"
      unfolding app [of buf k, symmetric] by (rule written_same_cluster [OF s'(3) len i xs])
    then show ?thesis using True step s'(1,2) by (auto simp del: of_nat_Suc)
  next
    case False
    then have last: "Suc i = ?spc" using i by simp
    obtain d s2 where d: "is_free m ?v d" and ud: "unat (of_nat d :: u32) = d"
        and s2: "nextCluster m c s1 = Inr (of_nat d, s2)" "fs_inv m s2" "vol m s2 = vol_alloc m (unat c) d (put_sector (unat c) i ?new ?v)"
        and ch2: "chain m (vol m s2) [unat (of_nat d :: u32)]" and card: "(0 + sectors_for (n - min n 512)) div ?spc \<le> card (free_clusters m (vol m s2))"
      by (rule write_extend [OF wf ch last sf room s1])
    from IH [OF s2(2) ch2 wf_metaD(1) [OF wf] b' card, of ?k']
    obtain s' cs where s': "writeFile_loop m (of_nat d) 0 ?b' buf ?k' s2 = Inr ((), s')"
      "fs_inv m s'" "written m (vol m s2) d 0 cs (map buf [?k'..<?k' + (n - min n 512)]) (vol m s')"
      by (auto simp: ud)
    have "written m ?v (unat c) i (d # cs) (map buf [k..<k + n]) (vol m s')"
      unfolding app [of buf k, symmetric] by (rule written_next_cluster [OF wf ch d s'(3) [unfolded s2(3)] len last xs])
    then show ?thesis using False step s2(1) s'(1,2) by auto
  qed
qed

text \<open>
  With enough free clusters the write loop succeeds and establishes \<open>written\<close>. It needs
  one cluster for every cluster it fills, since it always moves on to a next one.
\<close>

lemma writeFile_loop_spec:
  assumes "wf_meta m"
  shows "fs_inv m s \<Longrightarrow> chain m (vol m s) [unat c] \<Longrightarrow> i < unat (sectorPerCluster m) \<Longrightarrow>
    sint b = int n \<Longrightarrow>
    (i + sectors_for n) div unat (sectorPerCluster m) \<le> card (free_clusters m (vol m s)) \<Longrightarrow>
    \<exists>s' cs. writeFile_loop m c (of_nat i) b buf k s = Inr ((), s') \<and> fs_inv m s' \<and>
      written m (vol m s) (unat c) i cs (map buf [k..<k + n]) (vol m s')"
proof (induction n arbitrary: s c i b k rule: less_induct)
  case (less n)
  show ?case
  proof (cases "n = 0")
    case True
    then have "b = 0" using less.prems(4) by (simp add: signed_eq_0_iff)
    then show ?thesis
      using True less.prems(1) written_Nil [OF less.prems(2,3)]
      by (intro exI [of _ s] exI [of _ "[]"]) (simp add: writeFile_loop.simps)
  next
    case False
    then have n: "0 < n" "n - min n 512 < n" by simp_all
    show ?thesis by (rule write_turn [OF assms less.prems(1-4) n(1) less.prems(5) less.IH [OF n(2)]])
  qed
qed

end
