(* ===== verification/Fat32_Dir.thy ===== *)
theory Fat32_Dir
  imports Fat32_File
begin

text \<open>
  Directories: the 32-byte records along a chain, numbered from 0. \<open>getToDirEl\<close> finds
  the sector of a record, \<open>addFileToDirectory\<close> fills the first record whose first byte is
  0, extending the chain when all are used, and what it stored is what
  \<open>getMetadataFileFromDirectory\<close> reads back.
\<close>

section \<open>Records of a directory\<close>

definition dir_capacity :: "FAT32_Metadata \<Rightarrow> nat list \<Rightarrow> nat" where
  "dir_capacity m ds = 16 * (unat (sectorPerCluster m) * length ds)"

definition dir_cluster :: "FAT32_Metadata \<Rightarrow> nat list \<Rightarrow> nat \<Rightarrow> nat" where
  "dir_cluster m ds k = ds ! (k div 16 div unat (sectorPerCluster m))"

definition dir_index :: "FAT32_Metadata \<Rightarrow> nat \<Rightarrow> nat" where
  "dir_index m k = k div 16 mod unat (sectorPerCluster m)"

definition dir_sector :: "FAT32_Metadata \<Rightarrow> volume \<Rightarrow> nat list \<Rightarrow> nat \<Rightarrow> bytes" where
  "dir_sector m v ds k = vdata v (dir_cluster m ds k) (dir_index m k)"

definition record_used :: "FAT32_Metadata \<Rightarrow> volume \<Rightarrow> nat list \<Rightarrow> nat \<Rightarrow> bool" where
  "record_used m v ds k \<longleftrightarrow> dir_sector m v ds k ! (32 * (k mod 16)) \<noteq> 0"

text \<open>How \<open>getMetadataFileFromDirectory\<close> decodes a record.\<close>

definition parse_record :: "bytes \<Rightarrow> nat \<Rightarrow> bytes \<Rightarrow> FAT32_entry" where
  "parse_record b off old =
     (let c = push_bit 16 (ucast (load16 b (off + 20))) + ucast (load16 b (off + 26))
      in \<lparr>ename = readFileName (drop off b) old, eattr = b ! (off + 11),
          efstCluster = (if c = 0 then 2 else c), esize = load32 b (off + 28)\<rparr>)"

lemma dir_position:
  assumes "wf_meta m" "k < dir_capacity m ds"
  shows "k div 16 div unat (sectorPerCluster m) < length ds" "dir_index m k < unat (sectorPerCluster m)"
proof -
  have "k div 16 < unat (sectorPerCluster m) * length ds"
    using assms(2) by (auto simp: dir_capacity_def)
  then show "k div 16 div unat (sectorPerCluster m) < length ds"
    by (simp add: less_mult_imp_div_less mult.commute)
  show "dir_index m k < unat (sectorPerCluster m)"
    using wf_metaD(1) [OF assms(1)] by (simp add: dir_index_def)
qed

lemma dir_cluster_valid:
  "wf_meta m \<Longrightarrow> chain m v ds \<Longrightarrow> k < dir_capacity m ds \<Longrightarrow> valid_cluster m (dir_cluster m ds k)"
  using dir_position(1) by (auto simp: dir_cluster_def intro: chain_valid)

lemma unat_chain_cluster:
  "wf_meta m \<Longrightarrow> chain m v ds \<Longrightarrow> c \<in> set ds \<Longrightarrow> unat (of_nat c :: u32) = c"
  using chain_valid not_eoc_cluster(2) by (fastforce simp: valid_cluster_def)

lemma length_dir_sector:
  assumes "wf_meta m" "fs_inv m s" "chain m (vol m s) ds" "k < dir_capacity m ds"
  shows "length (dir_sector m (vol m s) ds k) = 512"
  unfolding dir_sector_def
  using assms dir_cluster_valid dir_position(2) fs_inv_fs_ok by (intro length_vdata) blast+

lemma record_offset: "32 * (k mod 16) + 32 \<le> (512 :: nat)"
proof -
  have "k mod 16 < 16" by simp
  then show ?thesis by linarith
qed

section \<open>Walking to a record\<close>

lemma walk_clusters_spec:
  assumes "wf_meta m"
  shows "fs_inv m s \<Longrightarrow> chain m (vol m s) (unat c # cs) \<Longrightarrow> n \<le> length cs \<Longrightarrow>
    \<exists>s'. walk_clusters m n c s = Inr (of_nat ((unat c # cs) ! n), s') \<and> fs_inv m s' \<and> disk s' = disk s"
proof (induction n arbitrary: s c cs)
  case 0
  then show ?case by simp
next
  case (Suc n)
  then obtain d ds where cs: "cs = d # ds" by (cases cs) auto
  with Suc.prems(2) have d: "chain m (vol m s) (d # ds)" by simp
  have ud: "unat (of_nat d :: u32) = d" using unat_chain_cluster [OF assms d] by simp
  obtain s1 where s1: "nextCluster m c s = Inr (of_nat d, s1)" "fs_inv m s1" "disk s1 = disk s"
    using nextCluster_inner [OF assms Suc.prems(1)] Suc.prems(2) cs by blast
  have "chain m (vol m s1) (unat (of_nat d :: u32) # ds)" using d ud vol_disk [OF s1(3), of m] by simp
  from Suc.IH [OF s1(2) this] Suc.prems(3) cs
  obtain s2 where "walk_clusters m n (of_nat d) s1 = Inr (of_nat ((d # ds) ! n), s2)"
    "fs_inv m s2" "disk s2 = disk s1"
    by (auto simp: ud)
  with s1 cs show ?case by simp
qed

lemma sdiv_smod_nat: "int a sdiv int b = int (a div b)" "int a smod int b = int (a mod b)"
proof -
  show "int a sdiv int b = int (a div b)"
    by (cases "a = 0 \<or> b = 0") (auto simp: signed_divide_int_def zdiv_int)
  show "int a smod int b = int (a mod b)"
    by (cases "a = 0") (auto simp: smod_int_alt_def zmod_int)
qed

lemma getToDirEl_spec:
  assumes "wf_meta m" "fs_inv m s" "chain m (vol m s) (unat c # cs)"
    and "unat k < dir_capacity m (unat c # cs)"
  shows "\<exists>s'. getToDirEl m c k s = Inr ((32 * (unat k mod 16),
      clusterSector m (of_nat (dir_cluster m (unat c # cs) (unat k))) + of_nat (dir_index m (unat k))), s') \<and>
    fs_inv m s' \<and> disk s' = disk s \<and> diskBuffer s' = dir_sector m (vol m s) (unat c # cs) (unat k)"
proof -
  let ?spc = "unat (sectorPerCluster m)" and ?ds = "unat c # cs" and ?j = "unat k div 16"
  have kd: "unat (k div 16) = ?j" by (simp add: unat_div)
  have "?j < 2 ^ 28" using unat_lt_2p [of k] by simp
  then have sk: "sint (k div 16) = int ?j" using sint_small [of "k div 16"] kd by simp
  have spc: "sint (sectorPerCluster m) = int ?spc" "sectorPerCluster m \<noteq> 0"
    using sint_counts(3) [OF assms(1)] wf_metaD(1) [OF assms(1)] by auto
  have qr: "sint (k div 16) sdiv sint (sectorPerCluster m) = int (?j div ?spc)"
    "sint (k div 16) smod sint (sectorPerCluster m) = int (?j mod ?spc)"
    unfolding sk spc(1) by (rule sdiv_smod_nat)+
  note pos = dir_position [OF assms(1,4)]
  have "?j div ?spc \<le> length cs" using pos(1) by simp
  then obtain s1 where s1: "walk_clusters m (?j div ?spc) c s = Inr (of_nat (?ds ! (?j div ?spc)), s1)"
      "fs_inv m s1" "disk s1 = disk s"
    using walk_clusters_spec [OF assms(1-3)] by blast
  let ?cl = "dir_cluster m ?ds (unat k)" and ?i = "dir_index m (unat k)"
  let ?sec = "clusterSector m (of_nat ?cl) + of_nat ?i"
  have cl: "valid_cluster m ?cl" "unat (of_nat ?cl :: u32) = ?cl"
    using dir_cluster_valid [OF assms(1,3,4)] not_eoc_cluster(2) [OF assms(1)]
    by (auto simp: valid_cluster_def)
  have "diskBuffer (read_sector (hardDrive m) ?sec s1) = dir_sector m (vol m s) ?ds (unat k)"
    using unat_clusterSector [OF assms(1), of "of_nat ?cl" ?i] cl pos(2) s1(3)
    by (simp add: dir_sector_def vdata_vol)
  moreover have "getToDirEl m c k s = Inr ((32 * (unat k mod 16), ?sec), read_sector (hardDrive m) ?sec s1)"
    using s1(1) spc(2) qr
    by (simp add: getToDirEl_def Let_def dir_cluster_def dir_index_def unat_mod)
  ultimately show ?thesis using s1 by auto
qed

lemma getMetadata_spec:
  assumes "wf_meta m" "fs_inv m s" "chain m (vol m s) (unat c # cs)"
    and "unat k < dir_capacity m (unat c # cs)"
  shows "\<exists>s'. getMetadataFileFromDirectory m c k e s =
      Inr (parse_record (dir_sector m (vol m s) (unat c # cs) (unat k)) (32 * (unat k mod 16)) (ename e), s') \<and>
    fs_inv m s' \<and> disk s' = disk s"
  using getToDirEl_spec [OF assms]
  by (auto simp: getMetadataFileFromDirectory_def parse_record_def Let_def)

section \<open>Finding a free record\<close>

lemma next_record:
  assumes "wf_meta m"
  shows "Suc (k mod 16) < 16 \<Longrightarrow> dir_cluster m ds (Suc k) = dir_cluster m ds k \<and>
      dir_index m (Suc k) = dir_index m k \<and> Suc k mod 16 = Suc (k mod 16)"
    and "Suc (k mod 16) = 16 \<Longrightarrow> Suc (dir_index m k) < unat (sectorPerCluster m) \<Longrightarrow>
      dir_cluster m ds (Suc k) = dir_cluster m ds k \<and> dir_index m (Suc k) = Suc (dir_index m k) \<and>
      Suc k mod 16 = 0"
    and "Suc (k mod 16) = 16 \<Longrightarrow> Suc (dir_index m k) = unat (sectorPerCluster m) \<Longrightarrow>
      k div 16 div unat (sectorPerCluster m) = q \<Longrightarrow>
      Suc k div 16 div unat (sectorPerCluster m) = Suc q \<and> dir_index m (Suc k) = 0 \<and> Suc k mod 16 = 0"
proof -
  have a: "Suc (k mod 16) < 16 \<Longrightarrow> Suc k div 16 = k div 16 \<and> Suc k mod 16 = Suc (k mod 16)"
    by (simp add: div_Suc mod_Suc)
  have b: "Suc (k mod 16) = 16 \<Longrightarrow> Suc k div 16 = Suc (k div 16) \<and> Suc k mod 16 = 0"
    by (simp add: div_Suc mod_Suc)
  show "Suc (k mod 16) < 16 \<Longrightarrow> dir_cluster m ds (Suc k) = dir_cluster m ds k \<and>
      dir_index m (Suc k) = dir_index m k \<and> Suc k mod 16 = Suc (k mod 16)"
    using a by (simp add: dir_cluster_def dir_index_def)
  show "Suc (k mod 16) = 16 \<Longrightarrow> Suc (dir_index m k) < unat (sectorPerCluster m) \<Longrightarrow>
      dir_cluster m ds (Suc k) = dir_cluster m ds k \<and> dir_index m (Suc k) = Suc (dir_index m k) \<and>
      Suc k mod 16 = 0"
    using b by (simp add: dir_cluster_def dir_index_def div_Suc mod_Suc)
  show "Suc (k mod 16) = 16 \<Longrightarrow> Suc (dir_index m k) = unat (sectorPerCluster m) \<Longrightarrow>
      k div 16 div unat (sectorPerCluster m) = q \<Longrightarrow>
      Suc k div 16 div unat (sectorPerCluster m) = Suc q \<and> dir_index m (Suc k) = 0 \<and> Suc k mod 16 = 0"
    using b by (simp add: dir_cluster_def dir_index_def div_Suc mod_Suc)
qed

lemma chain_nth_next:
  assumes "chain m v ds" "Suc q < length ds"
  shows "chain m v (ds ! q # ds ! Suc q # drop (Suc (Suc q)) ds)"
proof -
  have "ds = take q ds @ ds ! q # ds ! Suc q # drop (Suc (Suc q)) ds"
    using assms(2) by (metis Cons_nth_drop_Suc Suc_lessD append_take_drop_id)
  with assms(1) show ?thesis by (metis chain_append)
qed

lemma chain_nth_last:
  assumes "chain m v ds" "Suc q = length ds"
  shows "chain m v [ds ! q]"
proof -
  have "ds = take q ds @ [ds ! q]"
    using assms(2) by (metis lessI take_Suc_conv_app_nth take_all_iff order_refl)
  with assms(1) show ?thesis by (metis chain_append)
qed

text \<open>
  The state of the search at record \<open>k\<close>: the loop's variables name the record's position
  and its sector is in the buffer.
\<close>

definition at_record :: "FAT32_Metadata \<Rightarrow> volume \<Rightarrow> nat list \<Rightarrow> nat \<Rightarrow> fs \<Rightarrow> bool" where
  "at_record m v ds k s \<longleftrightarrow>
     fs_inv m s \<and> vol m s = v \<and> diskBuffer s = dir_sector m v ds k"

abbreviation add_loop_at ::
  "FAT32_Metadata \<Rightarrow> nat list \<Rightarrow> nat \<Rightarrow> fs \<Rightarrow> ((u32 \<times> c_int \<times> nat) \<times> fs) result option" where
  "add_loop_at m ds k s \<equiv>
     add_loop m (of_nat (dir_cluster m ds k)) (clusterSector m (of_nat (dir_cluster m ds k)))
       (of_nat (dir_index m k)) (k mod 16) s"

lemma read_dir_sector:
  assumes "wf_meta m" "fs_inv m s" "vol m s = v" "chain m v ds" "k < dir_capacity m ds"
  shows "at_record m v ds k
    (read_sector (hardDrive m) (clusterSector m (of_nat (dir_cluster m ds k)) + of_nat (dir_index m k)) s)"
proof -
  let ?cl = "dir_cluster m ds k" and ?i = "dir_index m k"
  have cl: "valid_cluster m ?cl" "unat (of_nat ?cl :: u32) = ?cl"
    using dir_cluster_valid [OF assms(1,4,5)] not_eoc_cluster(2) [OF assms(1)]
    by (auto simp: valid_cluster_def)
  then show ?thesis
    using unat_clusterSector [OF assms(1), of "of_nat ?cl" ?i] dir_position(2) [OF assms(1,5)] assms(2,3)
    by (auto simp: at_record_def dir_sector_def vdata_vol)
qed

lemma add_loop_free:
  assumes "at_record m v ds k s" "\<not> record_used m v ds k"
  shows "add_loop_at m ds k s = Some (Inr ((clusterSector m (of_nat (dir_cluster m ds k)),
      of_nat (dir_index m k), k mod 16), s))"
  using assms by (subst add_loop.simps) (simp add: at_record_def record_used_def)

text \<open>At a used record that is not the last, the loop moves to the next one; the last of a cluster needs the next cluster of the chain.\<close>

lemma add_loop_next_cluster:
  assumes "wf_meta m" "chain m v ds" "Suc k < dir_capacity m ds" "at_record m v ds k s" "record_used m v ds k"
    and e: "Suc (k mod 16) = 16" "Suc (dir_index m k) = unat (sectorPerCluster m)"
  shows "\<exists>s'. at_record m v ds (Suc k) s' \<and> add_loop_at m ds k s = add_loop_at m ds (Suc k) s'"
proof -
  let ?spc = "unat (sectorPerCluster m)" and ?cl = "dir_cluster m ds k" and ?i = "dir_index m k"
  let ?q = "k div 16 div ?spc"
  have s: "fs_inv m s" "vol m s = v" "diskBuffer s ! (32 * (k mod 16)) \<noteq> 0"
    using assms(4,5) by (simp_all add: at_record_def record_used_def)
  note i = dir_position [OF assms(1) Suc_lessD [OF assms(3)]] and n = next_record(3) [OF assms(1) e refl]
  note si = sint_sector_index [OF assms(1) i(2)]
  have q: "Suc ?q < length ds" using dir_position(1) [OF assms(1,3)] n by simp
  have cl: "?cl = ds ! ?q" "dir_cluster m ds (Suc k) = ds ! Suc ?q" using n by (simp_all add: dir_cluster_def)
  have "unat (of_nat ?cl :: u32) = ?cl" using unat_chain_cluster [OF assms(1,2)] i(1) by (simp add: dir_cluster_def)
  then obtain s1 where s1: "nextCluster m (of_nat ?cl) s = Inr (of_nat (ds ! Suc ?q), s1)" "fs_inv m s1" "disk s1 = disk s"
    using nextCluster_inner [OF assms(1) s(1), of "of_nat ?cl"] chain_nth_next [OF assms(2) q] s(2) cl by auto
  let ?s = "read_sector (hardDrive m)
    (clusterSector m (of_nat (dir_cluster m ds (Suc k))) + of_nat (dir_index m (Suc k))) s1"
  have "\<not> sint (of_nat ?i + 1 :: c_int) < sint (sectorPerCluster m)" using si(2) e(2) unfolding si(1) by linarith
  then have "add_loop_at m ds k s = add_loop_at m ds (Suc k) ?s"
    using s(3) e n s1(1) cl by (subst add_loop.simps) simp
  moreover have "vol m s1 = v" using vol_disk [OF s1(3), of m] s(2) by simp
  ultimately show ?thesis using read_dir_sector [OF assms(1) s1(2) _ assms(2,3)] by blast
qed

lemma add_loop_next:
  assumes "wf_meta m" "chain m v ds" "Suc k < dir_capacity m ds"
    and "at_record m v ds k s" "record_used m v ds k"
  shows "\<exists>s'. at_record m v ds (Suc k) s' \<and> add_loop_at m ds k s = add_loop_at m ds (Suc k) s'"
proof -
  let ?spc = "unat (sectorPerCluster m)" and ?i = "dir_index m k"
  have s: "fs_inv m s" "vol m s = v" "diskBuffer s ! (32 * (k mod 16)) \<noteq> 0"
    using assms(4,5) by (simp_all add: at_record_def record_used_def)
  note i = dir_position(2) [OF assms(1) Suc_lessD [OF assms(3)]]
  note si = sint_sector_index [OF assms(1) i]
  have "Suc (k mod 16) \<le> 16" by (simp add: Suc_leI)
  then consider "Suc (k mod 16) < 16" | "Suc (k mod 16) = 16" "Suc ?i < ?spc" | "Suc (k mod 16) = 16" "Suc ?i = ?spc"
    using i by linarith
  then show ?thesis
  proof cases
    case 1
    note n = next_record(1) [OF assms(1) 1, of ds]
    have "add_loop_at m ds k s = add_loop_at m ds (Suc k) s" using s(3) 1 n by (subst add_loop.simps) simp
    moreover have "at_record m v ds (Suc k) s" using assms(4) n by (simp add: at_record_def dir_sector_def)
    ultimately show ?thesis by blast
  next
    case 2
    note n = next_record(2) [OF assms(1) 2, of ds]
    let ?s = "read_sector (hardDrive m)
      (clusterSector m (of_nat (dir_cluster m ds (Suc k))) + of_nat (dir_index m (Suc k))) s"
    have "sint (of_nat ?i + 1 :: c_int) < sint (sectorPerCluster m)" using si(2) 2(2) unfolding si(1) by linarith
    then have "add_loop_at m ds k s = add_loop_at m ds (Suc k) ?s"
      using s(3) 2 n si(1) by (subst add_loop.simps) (simp add: add.commute)
    then show ?thesis using read_dir_sector [OF assms(1) s(1,2) assms(2,3)] by blast
  qed (rule add_loop_next_cluster [OF assms])
qed

lemma last_record:
  assumes "wf_meta m" "chain m v ds" "Suc k = dir_capacity m ds"
  shows "k mod 16 = 15" "Suc (dir_index m k) = unat (sectorPerCluster m)"
    "Suc (k div 16 div unat (sectorPerCluster m)) = length ds" "dir_cluster m ds k = last ds"
proof -
  let ?spc = "unat (sectorPerCluster m)"
  obtain a where a: "?spc = Suc a" using wf_metaD(1) [OF assms(1)] gr0_implies_Suc by blast
  obtain b where b: "length ds = Suc b"
    using chain_nonempty [OF assms(2)] by (cases ds) auto
  have "k = 15 + 16 * (a + Suc a * b)"
    using assms(3) unfolding dir_capacity_def a b by simp
  moreover have "(15 + 16 * x) mod 16 = 15" "(15 + 16 * x) div 16 = x" for x :: nat by simp_all
  ultimately have km: "k mod 16 = 15" and kd: "k div 16 = a + Suc a * b" by blast+
  show "k mod 16 = 15" by (rule km)
  show "Suc (dir_index m k) = ?spc" unfolding dir_index_def kd a by (simp del: mult_Suc)
  show len: "Suc (k div 16 div ?spc) = length ds" unfolding kd a b by (simp del: mult_Suc)
  then show "dir_cluster m ds k = last ds"
    by (simp add: dir_cluster_def last_conv_nth [OF chain_nonempty [OF assms(2)]] flip: len)
qed

text \<open>At the last record, when it is used, the loop goes on in the next cluster.\<close>

lemma add_loop_last:
  assumes "wf_meta m" "chain m v ds" "Suc k = dir_capacity m ds"
    and "at_record m v ds k s" "record_used m v ds k"
  shows "add_loop_at m ds k s = (case nextCluster m (of_nat (last ds)) s of
      Inl e \<Rightarrow> Some (Inl e)
    | Inr (d, s) \<Rightarrow> add_loop m d (clusterSector m d) 0 0 (read_sector (hardDrive m) (clusterSector m d + 0) s))"
    "chain m v [unat (of_nat (last ds) :: u32)]" "unat (of_nat (last ds) :: u32) = last ds"
proof -
  note l = last_record [OF assms(1-3)]
  have used: "diskBuffer s ! (32 * (k mod 16)) \<noteq> 0"
    using assms(4,5) by (simp add: at_record_def record_used_def)
  have k: "k < dir_capacity m ds" using assms(3) by simp
  note i = dir_position [OF assms(1) k]
  note si = sint_sector_index [OF assms(1) i(2)]
  have "\<not> sint (of_nat (dir_index m k) + 1 :: c_int) < sint (sectorPerCluster m)"
    using si(2) l(2) unfolding si(1) by linarith
  then show "add_loop_at m ds k s = (case nextCluster m (of_nat (last ds)) s of
      Inl e \<Rightarrow> Some (Inl e)
    | Inr (d, s) \<Rightarrow> add_loop m d (clusterSector m d) 0 0 (read_sector (hardDrive m) (clusterSector m d + 0) s))"
    using used l(1,4) by (subst add_loop.simps) (simp split: sum.split)
  show u: "unat (of_nat (last ds) :: u32) = last ds"
    using unat_chain_cluster [OF assms(1,2)] chain_nonempty [OF assms(2)] by simp
  show "chain m v [unat (of_nat (last ds) :: u32)]"
    using chain_nth_last [OF assms(2) l(3)] u l(4) by (simp add: dir_cluster_def)
qed

lemma add_loop_extend:
  assumes "wf_meta m" "chain m v ds" "Suc k = dir_capacity m ds"
    and "at_record m v ds k s" "record_used m v ds k"
    and d: "is_free m v d" "\<And>j. j < d \<Longrightarrow> \<not> is_free m v j"
  shows "\<exists>s'. add_loop_at m ds k s = Some (Inr ((clusterSector m (of_nat d), 0, 0), s')) \<and>
    fs_inv m s' \<and> vol m s' = vol_alloc m (last ds) d v \<and> diskBuffer s' = replicate 512 0"
proof -
  note al = add_loop_last [OF assms(1-5)]
  have s: "fs_inv m s" "vol m s = v" using assms(4) by (simp_all add: at_record_def)
  obtain s1 where s1: "nextCluster m (of_nat (last ds)) s = Inr (of_nat d, s1)" "fs_inv m s1"
      "vol m s1 = vol_alloc m (last ds) d v"
    using nextCluster_extend [OF assms(1) s(1), of "of_nat (last ds)" d] d s(2) al(2,3) by auto
  let ?s = "read_sector (hardDrive m) (clusterSector m (of_nat d) + 0) s1"
  have dv: "valid_cluster m d" "unat (of_nat d :: u32) = d"
    using d(1) not_eoc_cluster(2) [OF assms(1)] by (auto simp: is_free_def valid_cluster_def)
  have "diskBuffer ?s = vdata (vol m s1) d 0"
    using unat_clusterSector [OF assms(1), of "of_nat d" 0] dv wf_metaD(1) [OF assms(1)]
    by (simp add: vdata_vol)
  then have buf: "diskBuffer ?s = replicate 512 0"
    using s1(3) wf_metaD(1) [OF assms(1)] by (simp add: wiped_def)
  then have "add_loop_at m ds k s = Some (Inr ((clusterSector m (of_nat d), 0, 0), ?s))"
    using al(1) s1(1) by (subst (asm) (2) add_loop.simps) simp
  then show ?thesis using s1 buf by auto
qed

lemma add_loop_no_space:
  assumes "wf_meta m" "chain m v ds" "Suc k = dir_capacity m ds"
    and "at_record m v ds k s" "record_used m v ds k" "\<And>d. \<not> is_free m v d"
  shows "add_loop_at m ds k s = Some (Inl (Panic ''no new cluster can be allocated''))"
proof -
  note al = add_loop_last [OF assms(1-5)]
  have "vol m s = v" using assms(4) by (simp add: at_record_def)
  then have "nextCluster m (of_nat (last ds)) s = Inl (Panic ''no new cluster can be allocated'')"
    using nextCluster_full [OF assms(1), of s "of_nat (last ds)"] assms(6) al(2) by simp
  then show ?thesis using al(1) by simp
qed

text \<open>The search from any record stops at the first unused one, or extends the chain.\<close>

lemma add_loop_search:
  assumes "wf_meta m" "chain m v ds" "k0 < dir_capacity m ds"
    and "\<not> record_used m v ds k0" "\<And>j. j < k0 \<Longrightarrow> record_used m v ds j"
  shows "k \<le> k0 \<Longrightarrow> at_record m v ds k s \<Longrightarrow> \<exists>s'. at_record m v ds k0 s' \<and>
    add_loop_at m ds k s = Some (Inr ((clusterSector m (of_nat (dir_cluster m ds k0)),
      of_nat (dir_index m k0), k0 mod 16), s'))"
proof (induction "k0 - k" arbitrary: k s)
  case 0
  then show ?case using add_loop_free [OF _ assms(4)] by auto
next
  case (Suc n)
  then have k: "k < k0" by simp
  then obtain s1 where "at_record m v ds (Suc k) s1" "add_loop_at m ds k s = add_loop_at m ds (Suc k) s1"
    using add_loop_next [OF assms(1,2) _ Suc.prems(2)] assms(3,5) by auto
  with Suc.hyps(1) [of "Suc k" s1] Suc.hyps(2) k show ?case by auto
qed

lemma add_loop_search_full:
  assumes "wf_meta m" "chain m v ds" "\<And>j. j < dir_capacity m ds \<Longrightarrow> record_used m v ds j"
  shows "k < dir_capacity m ds \<Longrightarrow> at_record m v ds k s \<Longrightarrow> \<exists>k' s'. Suc k' = dir_capacity m ds \<and>
    at_record m v ds k' s' \<and> add_loop_at m ds k s = add_loop_at m ds k' s'"
proof (induction "dir_capacity m ds - Suc k" arbitrary: k s)
  case 0
  then have "Suc k = dir_capacity m ds" by simp
  with 0 show ?case by blast
next
  case (Suc n)
  then have k: "Suc k < dir_capacity m ds" by simp
  then obtain s1 where "at_record m v ds (Suc k) s1" "add_loop_at m ds k s = add_loop_at m ds (Suc k) s1"
    using add_loop_next [OF assms(1,2) k Suc.prems(2)] assms(3) by auto
  with Suc.hyps(1) [of "Suc k" s1] Suc.hyps(2) k show ?case by auto
qed

section \<open>Adding a record\<close>

definition put_record :: "FAT32_Metadata \<Rightarrow> nat list \<Rightarrow> nat \<Rightarrow> FAT32_entry \<Rightarrow> volume \<Rightarrow> volume" where
  "put_record m ds k e v = put_sector (dir_cluster m ds k) (dir_index m k)
     (fill_record (dir_sector m v ds k) (32 * (k mod 16)) e) v"

lemma length_fold_update [simp]: "length (fold (\<lambda>i b. b[f i := g i]) xs b) = length b"
  by (induction xs arbitrary: b) simp_all

lemma length_fill_record [simp]: "off + 32 \<le> length b \<Longrightarrow> length (fill_record b off e) = length b"
  by (simp add: fill_record_def Let_def)

lemma write_record:
  fixes e :: FAT32_entry
  assumes "wf_meta m" "chain m v ds" "k < dir_capacity m ds" "at_record m v ds k s"
  defines "s' \<equiv> write_sector (hardDrive m)
    (clusterSector m (of_nat (dir_cluster m ds k)) + of_nat (dir_index m k))
    (s\<lparr>diskBuffer := fill_record (diskBuffer s) (32 * (k mod 16)) e\<rparr>)"
  shows "fs_inv m s' \<and> vol m s' = put_record m ds k e v"
proof -
  let ?c = "of_nat (dir_cluster m ds k) :: u32"
  have s: "fs_inv m s" "vol m s = v" "diskBuffer s = dir_sector m v ds k"
    using assms(4) by (simp_all add: at_record_def)
  have cl: "valid_cluster m (dir_cluster m ds k)" by (rule dir_cluster_valid [OF assms(1-3)])
  then have u: "unat ?c = dir_cluster m ds k"
    using not_eoc_cluster(2) [OF assms(1)] by (simp add: valid_cluster_def)
  have len: "length (fill_record (diskBuffer s) (32 * (k mod 16)) e) = 512"
    using fs_inv_fs_ok [OF s(1)] record_offset [of k] by simp
  show ?thesis
    using write_data_sector [OF assms(1) s(1) _ dir_position(2) [OF assms(1,3)] len, of ?c] cl
    by (simp add: s'_def u put_record_def s)
qed

lemma dir_0: "dir_cluster m (c # cs) 0 = c" "dir_index m 0 = 0"
  by (simp_all add: dir_cluster_def dir_index_def)

lemma capacity_pos: "wf_meta m \<Longrightarrow> 0 < dir_capacity m (c # cs)"
  using wf_metaD(1) by (simp add: dir_capacity_def)

lemma addFileToDirectory_start:
  assumes "wf_meta m" "fs_inv m s" "chain m (vol m s) (unat c # cs)"
  obtains s0 where "at_record m (vol m s) (unat c # cs) 0 s0"
    "addFileToDirectory m c e s =
      bind (of_loop (add_loop_at m (unat c # cs) 0 s0)) (\<lambda>((sector, indexSector, indexRecord), s).
         Inr ((), write_sector (hardDrive m) (sector + indexSector)
           (s\<lparr>diskBuffer := fill_record (diskBuffer s) (32 * indexRecord) e\<rparr>)))"
  using read_dir_sector [OF assms(1,2) refl assms(3) capacity_pos [OF assms(1)]]
  by (rule that) (simp add: addFileToDirectory_def Let_def dir_0)

lemma addFileToDirectory_spec:
  assumes "wf_meta m" "fs_inv m s" "chain m (vol m s) (unat c # cs)"
    and "k < dir_capacity m (unat c # cs)" "\<not> record_used m (vol m s) (unat c # cs) k"
      "\<And>j. j < k \<Longrightarrow> record_used m (vol m s) (unat c # cs) j"
  shows "\<exists>s'. addFileToDirectory m c e s = Inr ((), s') \<and> fs_inv m s' \<and>
    vol m s' = put_record m (unat c # cs) k e (vol m s)"
proof -
  obtain s0 where s0: "at_record m (vol m s) (unat c # cs) 0 s0"
    "addFileToDirectory m c e s =
      bind (of_loop (add_loop_at m (unat c # cs) 0 s0)) (\<lambda>((sector, indexSector, indexRecord), s).
         Inr ((), write_sector (hardDrive m) (sector + indexSector)
           (s\<lparr>diskBuffer := fill_record (diskBuffer s) (32 * indexRecord) e\<rparr>)))"
    by (rule addFileToDirectory_start [OF assms(1-3)])
  obtain s1 where s1: "at_record m (vol m s) (unat c # cs) k s1"
    "add_loop_at m (unat c # cs) 0 s0 = Some (Inr ((clusterSector m (of_nat (dir_cluster m (unat c # cs) k)),
      of_nat (dir_index m k), k mod 16), s1))"
    using add_loop_search [OF assms(1,3,4,5) _ _ s0(1)] assms(6) by auto
  show ?thesis
    using write_record [OF assms(1,3,4) s1(1), of e] s0(2) s1(2) by simp
qed


text \<open>A full directory grows by one cluster, whose first record is taken.\<close>

lemma dir_capacity_append [simp]:
  "dir_capacity m (ds @ [d]) = dir_capacity m ds + 16 * unat (sectorPerCluster m)"
  by (simp add: dir_capacity_def distrib_left)

lemma dir_new_cluster:
  assumes "wf_meta m" "j < 16 * unat (sectorPerCluster m)"
  shows "dir_cluster m (ds @ [d]) (dir_capacity m ds + j) = d"
    "dir_index m (dir_capacity m ds + j) = j div 16"
    "(dir_capacity m ds + j) mod 16 = j mod 16"
proof -
  have j: "j div 16 < unat (sectorPerCluster m)" using assms(2) by auto
  have "(16 * (unat (sectorPerCluster m) * length ds) + j) div 16
      = unat (sectorPerCluster m) * length ds + j div 16"
    by (simp add: div_mult_self4)
  then have k: "(dir_capacity m ds + j) div 16 = j div 16 + unat (sectorPerCluster m) * length ds"
    by (simp only: dir_capacity_def add.commute)
  show "dir_cluster m (ds @ [d]) (dir_capacity m ds + j) = d"
    unfolding dir_cluster_def k using j wf_metaD(1) [OF assms(1)] by (simp add: nth_append)
  show "dir_index m (dir_capacity m ds + j) = j div 16"
    unfolding dir_index_def k using j by simp
  show "(dir_capacity m ds + j) mod 16 = j mod 16" by (simp add: dir_capacity_def)
qed

lemma addFileToDirectory_extends:
  assumes "wf_meta m" "fs_inv m s" "chain m (vol m s) (unat c # cs)"
    and "\<And>j. j < dir_capacity m (unat c # cs) \<Longrightarrow> record_used m (vol m s) (unat c # cs) j"
    and d: "is_free m (vol m s) d" "\<And>j. j < d \<Longrightarrow> \<not> is_free m (vol m s) j"
  shows "\<exists>s'. addFileToDirectory m c e s = Inr ((), s') \<and> fs_inv m s' \<and>
    vol m s' = put_record m ((unat c # cs) @ [d]) (dir_capacity m (unat c # cs)) e
      (vol_alloc m (last (unat c # cs)) d (vol m s))"
proof -
  let ?ds = "unat c # cs" and ?v = "vol_alloc m (last (unat c # cs)) d (vol m s)"
  obtain s0 where s0: "at_record m (vol m s) ?ds 0 s0"
    "addFileToDirectory m c e s =
      bind (of_loop (add_loop_at m ?ds 0 s0)) (\<lambda>((sector, indexSector, indexRecord), s).
         Inr ((), write_sector (hardDrive m) (sector + indexSector)
           (s\<lparr>diskBuffer := fill_record (diskBuffer s) (32 * indexRecord) e\<rparr>)))"
    by (rule addFileToDirectory_start [OF assms(1-3)])
  obtain k s1 where k: "Suc k = dir_capacity m ?ds" "at_record m (vol m s) ?ds k s1"
    "add_loop_at m ?ds 0 s0 = add_loop_at m ?ds k s1"
    using add_loop_search_full [OF assms(1,3,4) capacity_pos [OF assms(1)] s0(1)] by auto
  obtain s2 where s2: "add_loop_at m ?ds k s1 = Some (Inr ((clusterSector m (of_nat d), 0, 0), s2))"
    "fs_inv m s2" "vol m s2 = ?v" "diskBuffer s2 = replicate 512 0"
    using add_loop_extend [OF assms(1,3) k(1,2) assms(4) d] k(1) by auto
  have spc: "0 < unat (sectorPerCluster m)" by (rule wf_metaD(1) [OF assms(1)])
  then have new: "dir_cluster m (?ds @ [d]) (dir_capacity m ?ds) = d" "dir_index m (dir_capacity m ?ds) = 0"
      "dir_capacity m ?ds mod 16 = 0"
    using dir_new_cluster(1) [OF assms(1), of 0 ?ds d] dir_new_cluster(2,3) [OF assms(1), of 0 ?ds]
    by simp_all
  have dv: "valid_cluster m d" "unat (of_nat d :: u32) = d"
    using d(1) not_eoc_cluster(2) [OF assms(1)] by (auto simp: is_free_def valid_cluster_def)
  have sec: "dir_sector m ?v (?ds @ [d]) (dir_capacity m ?ds) = replicate 512 0"
    using spc by (simp add: dir_sector_def new wiped_def del: append_Cons)
  have "length (fill_record (replicate 512 0) 0 e) = 512" by simp
  from write_data_sector [OF assms(1) s2(2) _ spc this, of "of_nat d"] dv
  show ?thesis
    using s0(2) k(3) s2 by (simp add: put_record_def sec new del: append_Cons last.simps)
qed


lemma addFileToDirectory_full:
  assumes "wf_meta m" "fs_inv m s" "chain m (vol m s) (unat c # cs)"
    and "\<And>j. j < dir_capacity m (unat c # cs) \<Longrightarrow> record_used m (vol m s) (unat c # cs) j"
    and "\<And>d. \<not> is_free m (vol m s) d"
  shows "addFileToDirectory m c e s = Inl (Panic ''no new cluster can be allocated'')"
proof -
  let ?ds = "unat c # cs"
  obtain s0 where s0: "at_record m (vol m s) ?ds 0 s0"
    "addFileToDirectory m c e s =
      bind (of_loop (add_loop_at m ?ds 0 s0)) (\<lambda>((sector, indexSector, indexRecord), s).
         Inr ((), write_sector (hardDrive m) (sector + indexSector)
           (s\<lparr>diskBuffer := fill_record (diskBuffer s) (32 * indexRecord) e\<rparr>)))"
    by (rule addFileToDirectory_start [OF assms(1-3)])
  obtain k s1 where k: "Suc k = dir_capacity m ?ds" "at_record m (vol m s) ?ds k s1"
    "add_loop_at m ?ds 0 s0 = add_loop_at m ?ds k s1"
    using add_loop_search_full [OF assms(1,3,4) capacity_pos [OF assms(1)] s0(1)] by auto
  have "add_loop_at m ?ds k s1 = Some (Inl (Panic ''no new cluster can be allocated''))"
    using add_loop_no_space [OF assms(1,3) k(1,2) assms(4,5)] k(1) by simp
  with s0(2) k(3) show ?thesis by simp
qed

section \<open>A directory as a list of records\<close>

definition record_at :: "FAT32_Metadata \<Rightarrow> volume \<Rightarrow> nat list \<Rightarrow> nat \<Rightarrow> bytes" where
  "record_at m v ds k = peek 32 (32 * (k mod 16)) (dir_sector m v ds k)"

definition dir_records :: "FAT32_Metadata \<Rightarrow> volume \<Rightarrow> nat list \<Rightarrow> bytes list" where
  "dir_records m v ds = map (record_at m v ds) [0..<dir_capacity m ds]"

lemma peek_poke_inner:
  "off + n \<le> length b \<Longrightarrow> i + length xs \<le> n \<Longrightarrow>
   peek n off (poke (off + i) xs b) = poke i xs (peek n off b)"
  by (intro nth_equalityI) (auto simp: peek_nth nth_poke)

lemma poke_single: "i < length b \<Longrightarrow> b[i := x] = poke i [x] b"
  by (simp add: poke_def upd_conv_take_nth_drop)

lemma fill_record_pokes:
  assumes "off + 32 \<le> length b"
  shows "fill_record b off e =
    poke (off + 28) (le_enc 4 (unat (esize e mod 0x10000)))
     (poke (off + 26) (le_enc 2 (unat (ucast (efstCluster e mod 0x10000) :: u16)))
      (poke (off + 20) (le_enc 2 (unat (ucast (drop_bit 16 (efstCluster e)) :: u16)))
       (poke (off + 11) [eattr e] (poke (off + 0) (map ((!) (ename e)) [0..<11]) b))))"
  using assms
  by (simp add: fill_record_def Let_def store16_def store32_def fold_store poke_single)

lemma fill_record_peek:
  assumes "off + 32 \<le> length b"
  shows "peek 32 off (fill_record b off e) = fill_record (peek 32 off b) 0 e"
  using assms by (simp add: fill_record_pokes peek_poke_inner peek_poke_inner [where i = 0, simplified])

lemma fill_record_other:
  assumes "off + 32 \<le> length b" "j + 32 \<le> length b" "j + 32 \<le> off \<or> off + 32 \<le> j"
  shows "peek 32 j (fill_record b off e) = peek 32 j b"
  using assms by (auto simp: fill_record_pokes peek_poke_other)

lemma length_record_at:
  assumes "wf_meta m" "fs_inv m s" "chain m (vol m s) ds" "k < dir_capacity m ds"
  shows "length (record_at m (vol m s) ds k) = 32"
  using length_dir_sector [OF assms] record_offset [of k] by (simp add: record_at_def)


lemma dir_position_inj:
  assumes "wf_meta m" "distinct ds" "j < dir_capacity m ds" "k < dir_capacity m ds"
  shows "dir_cluster m ds j = dir_cluster m ds k \<and> dir_index m j = dir_index m k \<longleftrightarrow> j div 16 = k div 16"
proof -
  let ?spc = "unat (sectorPerCluster m)"
  have "dir_cluster m ds j = dir_cluster m ds k \<longleftrightarrow> j div 16 div ?spc = k div 16 div ?spc"
    using dir_position(1) [OF assms(1,3)] dir_position(1) [OF assms(1,4)] assms(2)
    by (simp add: dir_cluster_def nth_eq_iff_index_eq)
  then show ?thesis
    by (metis dir_index_def div_mult_mod_eq)
qed

lemma record_other:
  "j \<noteq> k \<Longrightarrow> j div 16 = k div 16 \<Longrightarrow>
    32 * (j mod 16) + 32 \<le> 32 * (k mod 16) \<or> 32 * (k mod 16) + 32 \<le> 32 * (j mod 16)"
  for j k :: nat
  using div_mult_mod_eq [of j 16] div_mult_mod_eq [of k 16] by linarith

text \<open>Changing one sector of a directory changes the records of that sector only.\<close>

lemma record_at_put_sector:
  assumes "wf_meta m" "chain m v ds" "j < dir_capacity m ds" "k < dir_capacity m ds"
  shows "record_at m (put_sector (dir_cluster m ds k) (dir_index m k) b v) ds j =
    (if j div 16 = k div 16 then peek 32 (32 * (j mod 16)) b else record_at m v ds j)"
  using dir_position_inj [OF assms(1) chain_distinct [OF assms(1,2)] assms(3,4)]
  by (auto simp: record_at_def dir_sector_def)

lemma dir_records_put_record:
  assumes "wf_meta m" "chain m v ds" "k < dir_capacity m ds" "length (dir_sector m v ds k) = 512"
  shows "dir_records m (put_record m ds k e v) ds = (dir_records m v ds)[k := fill_record (record_at m v ds k) 0 e]"
proof (rule nth_equalityI)
  fix j assume "j < length (dir_records m (put_record m ds k e v) ds)"
  then have j: "j < dir_capacity m ds" by (simp add: dir_records_def)
  note off = record_offset [of j] record_offset [of k]
  have sec: "dir_sector m v ds j = dir_sector m v ds k" if "j div 16 = k div 16"
    using dir_position_inj [OF assms(1) chain_distinct [OF assms(1,2)] j assms(3)] that
    by (simp add: dir_sector_def)
  have "record_at m (put_record m ds k e v) ds j =
      (if j = k then fill_record (record_at m v ds k) 0 e else record_at m v ds j)"
    unfolding put_record_def record_at_put_sector [OF assms(1,2) j assms(3)]
    using off assms(4) sec record_other [of j k]
    by (auto simp: fill_record_peek fill_record_other record_at_def)
  then show "dir_records m (put_record m ds k e v) ds ! j =
      (dir_records m v ds)[k := fill_record (record_at m v ds k) 0 e] ! j"
    using j assms(3) by (auto simp: dir_records_def nth_list_update)
qed (simp add: dir_records_def)

lemma put_record_frame [simp]:
  "vfat (put_record m ds k e v) = vfat v" "vrest (put_record m ds k e v) = vrest v"
  "c \<noteq> dir_cluster m ds k \<Longrightarrow> vdata (put_record m ds k e v) c = vdata v c"
  by (simp_all add: put_record_def)

lemma record_used_iff:
  assumes "wf_meta m" "fs_inv m s" "chain m (vol m s) ds" "k < dir_capacity m ds"
  shows "record_used m (vol m s) ds k \<longleftrightarrow> dir_records m (vol m s) ds ! k ! 0 \<noteq> 0"
  using assms(4) length_dir_sector [OF assms] record_offset [of k]
  by (simp add: record_used_def dir_records_def record_at_def peek_nth)

section \<open>Reading back a record\<close>

lemma readFileName_cong:
  assumes "\<And>i. i < 11 \<Longrightarrow> f ! i = g ! i"
  shows "readFileName f old = readFileName g old"
proof -
  have s: "n \<le> 8 \<Longrightarrow> strip_spaces f n = strip_spaces g n" for n
    using assms by (induction n) auto
  have le: "strip_spaces g n \<le> n" for n by (induction n) auto
  have "fold (\<lambda>i x. x[i := f ! i]) [0..<strip_spaces g 8] old
      = fold (\<lambda>i x. x[i := g ! i]) [0..<strip_spaces g 8] old"
    using assms le [of 8] by (intro fold_cong) auto
  moreover have "fold (\<lambda>i x. x[n + i + 1 := f ! (8 + i)]) [0..<3] y
      = fold (\<lambda>i x. x[n + i + 1 := g ! (8 + i)]) [0..<3] y" for n y
    using assms by (intro fold_cong) auto
  ultimately show ?thesis
    using assms s [of 8] by (simp add: readFileName_def Let_def)
qed

lemma parse_record_peek:
  assumes "off + 32 \<le> length b"
  shows "parse_record b off old = parse_record (peek 32 off b) 0 old"
proof -
  have p: "peek n (off + i) b = peek n i (peek 32 off b)" if "i + n \<le> 32" for n i
    using assms that by (intro nth_equalityI) (auto simp: peek_nth add.assoc)
  have "readFileName (drop off b) old = readFileName (peek 32 off b) old"
    using assms by (intro readFileName_cong) (simp add: peek_nth)
  then show ?thesis
    using assms p [of 20 2] p [of 26 2] p [of 28 4]
    by (simp add: parse_record_def Let_def load16_def load32_def peek_nth)
qed

text \<open>
  What a record keeps of an entry: the size modulo \<open>2 ^ 16\<close>, and 2 (the root directory)
  for cluster 0.
\<close>

definition stored_entry :: "FAT32_entry \<Rightarrow> bytes \<Rightarrow> FAT32_entry" where
  "stored_entry e old = \<lparr>ename = readFileName (ename e) old, eattr = eattr e,
     efstCluster = (if efstCluster e = 0 then 2 else efstCluster e), esize = esize e mod 0x10000\<rparr>"

lemma split_cluster:
  "push_bit 16 (ucast (ucast (drop_bit 16 c) :: u16)) + ucast (ucast (c mod 0x10000) :: u16) = (c :: u32)"
proof -
  have h: "unat c div 65536 < 65536" using unat_lt_2p [of c] by simp
  have "unat (push_bit 16 (ucast (ucast (drop_bit 16 c) :: u16)) :: u32) = unat c div 65536 * 65536"
    using h by (simp add: push_bit_eq_mult unat_word_ariths unat_ucast unat_shiftr)
  moreover have "unat (ucast (ucast (c mod 0x10000) :: u16) :: u32) = unat c mod 65536"
    by (simp add: unat_ucast unat_mod)
  ultimately show ?thesis
    using unat_lt_2p [of c] by (simp add: word_unat_eq_iff unat_word_ariths div_mult_mod_eq)
qed

lemma parse_fill_record:
  assumes "length r = 32"
  shows "parse_record (fill_record r 0 e) 0 old = stored_entry e old"
proof -
  let ?b = "fill_record r 0 e"
  have n: "?b ! i = ename e ! i" if "i < 11" for i
    using assms that by (simp add: fill_record_pokes nth_poke)
  have "?b ! 11 = eattr e" using assms by (simp add: fill_record_pokes nth_poke)
  moreover have "load16 ?b 20 = ucast (drop_bit 16 (efstCluster e))"
      "load16 ?b 26 = ucast (efstCluster e mod 0x10000)" "load32 ?b 28 = esize e mod 0x10000"
    using assms unat_lt_2p [of "ucast (drop_bit 16 (efstCluster e)) :: u16"]
      unat_lt_2p [of "ucast (efstCluster e mod 0x10000) :: u16"] unat_lt_2p [of "esize e mod 0x10000"]
    by (simp_all add: load16_def load32_def fill_record_pokes peek_poke_other peek_poke_same le_dec_enc)
  ultimately show ?thesis
    using readFileName_cong [of ?b "ename e" old] n
    by (simp add: parse_record_def stored_entry_def Let_def split_cluster)
qed

end
