(* ===== verification/Fat32_Ops.thy ===== *)
theory Fat32_Ops
  imports Fat32_Dir
begin

text \<open>
  The operations the commands of the shell are made of, end to end: \<open>writeFile\<close> followed
  by \<open>getMetadataFileFromDirectory\<close> and \<open>readFile\<close> gives back the bytes, \<open>mkdir\<close> makes an
  empty directory with its two links, \<open>removeEntryFromDirectory\<close> marks the record and
  frees the chain.
\<close>

section \<open>Records read through the directory\<close>

lemma getMetadata_records:
  assumes "wf_meta m" "fs_inv m s" "chain m (vol m s) (unat c # cs)"
    and "unat k < dir_capacity m (unat c # cs)"
  shows "\<exists>s'. getMetadataFileFromDirectory m c k e s =
      Inr (parse_record (dir_records m (vol m s) (unat c # cs) ! unat k) 0 (ename e), s') \<and>
    fs_inv m s' \<and> disk s' = disk s"
  using getMetadata_spec [OF assms, of e] assms(4) length_dir_sector [OF assms]
    record_offset [of "unat k"] parse_record_peek [of "32 * (unat k mod 16)"]
  by (simp add: dir_records_def record_at_def)

lemma length_dir_records [simp]: "length (dir_records m v ds) = dir_capacity m ds"
  by (simp add: dir_records_def)

lemma dir_records_cong:
  assumes "wf_meta m" "\<And>c. c \<in> set ds \<Longrightarrow> vdata v c = vdata v' c"
  shows "dir_records m v ds = dir_records m v' ds"
proof -
  have "record_at m v ds k = record_at m v' ds k" if "k < dir_capacity m ds" for k
    using assms(2) dir_position(1) [OF assms(1) that]
    by (simp add: record_at_def dir_sector_def dir_cluster_def)
  then show ?thesis by (simp add: dir_records_def)
qed

lemma record_used_cong:
  assumes "wf_meta m" "\<And>c. c \<in> set ds \<Longrightarrow> vdata v c = vdata v' c" "k < dir_capacity m ds"
  shows "record_used m v ds k = record_used m v' ds k"
  using assms(2) dir_position(1) [OF assms(1,3)]
  by (simp add: record_used_def dir_sector_def dir_cluster_def)

text \<open>The clusters of a chain are not free.\<close>

lemma chain_not_free:
  assumes "wf_meta m"
  shows "chain m v cs \<Longrightarrow> c \<in> set cs \<Longrightarrow> \<not> is_free m v c"
proof (induction cs)
  case (Cons a cs)
  show ?case
  proof (cases cs)
    case Nil
    then show ?thesis using Cons.prems by (auto simp: is_free_def is_eoc_def)
  next
    case (Cons d ds)
    then have "valid_cluster m d" using Cons.prems chain_hd [of m v d ds] by simp
    then have "(of_nat d :: u32) \<noteq> 0"
      using not_eoc_cluster(2) [OF assms, of d]
      by (metis not_numeral_le_zero unat_0 valid_cluster_def)
    then show ?thesis using Cons.IH Cons.prems Cons by (auto simp: is_free_def)
  qed
qed simp

lemma chain_disjoint_free:
  "wf_meta m \<Longrightarrow> chain m v cs \<Longrightarrow> set fs \<subseteq> free_clusters m v \<Longrightarrow> set cs \<inter> set fs = {}"
  using chain_not_free by (fastforce simp: free_clusters_def)

section \<open>Writing a file and reading it back\<close>

text \<open>
  What \<open>writeFile\<close> leaves behind: a chain \<open>d # fs\<close> of clusters that were free, whose
  first bytes are \<open>xs\<close>, named by record \<open>k\<close> of the directory \<open>ds\<close>; every other table
  entry, cluster and sector is as before.
\<close>

definition file_stored ::
  "FAT32_Metadata \<Rightarrow> nat list \<Rightarrow> nat \<Rightarrow> FAT32_entry \<Rightarrow> bytes \<Rightarrow> nat \<Rightarrow> nat list \<Rightarrow> volume \<Rightarrow> volume \<Rightarrow> bool" where
  "file_stored m ds k e xs d fs v v' \<longleftrightarrow>
     chain m v' (d # fs) \<and> set (d # fs) \<subseteq> free_clusters m v \<and>
     length fs = sectors_for (length xs) div unat (sectorPerCluster m) \<and>
     take (length xs) (chain_bytes m v' (d # fs)) = xs \<and>
     dir_records m v' ds = (dir_records m v ds)[k := fill_record (dir_records m v ds ! k) 0 e] \<and>
     (\<forall>x. x \<notin> set (d # fs) \<longrightarrow> vfat v' x = vfat v x) \<and>
     (\<forall>x. x \<notin> set (d # fs) \<longrightarrow> x \<notin> set ds \<longrightarrow> vdata v' x = vdata v x) \<and>
     vrest v' = vrest v"

text \<open>The contents: the first cluster and the write loop.\<close>

lemma write_contents:
  assumes wf: "wf_meta m" and s: "fs_inv m s" and bs: "sint bs = int n"
    and space: "sectors_for n div unat (sectorPerCluster m) < card (free_clusters m (vol m s))"
  obtains d fs t u where "allocateFreeCluster m 0 s = Inr (of_nat d, t)" "writeFile_loop m (of_nat d) 0 bs buf 0 t = Inr ((), u)"
    "fs_inv m u" "written m (vol_alloc m 0 d (vol m s)) d 0 fs (map buf [0..<n]) (vol m u)"
    "set (d # fs) \<subseteq> free_clusters m (vol m s)"
proof -
  let ?v = "vol m s"
  obtain d where d: "is_free m ?v d" "\<And>j. j < d \<Longrightarrow> \<not> is_free m ?v j"
    using least_free_card space by (metis gr_zeroI less_zeroE)
  have dv: "valid_cluster m d" "unat (of_nat d :: u32) = d"
    using d(1) not_eoc_cluster(2) [OF wf] by (auto simp: is_free_def valid_cluster_def)
  have z: "unat (0 :: u32) < nclusters m" using nclusters_bound(2) [OF wf] by simp
  obtain t where t: "allocateFreeCluster m 0 s = Inr (of_nat d, t)" "fs_inv m t" "vol m t = vol_alloc m 0 d ?v"
    using allocateFreeCluster_spec [OF s wf z d] by auto
  have ch: "chain m (vol m t) [unat (of_nat d :: u32)]" using dv t(3) by (simp add: vfat_vol_alloc)
  have free: "free_clusters m (vol m t) = free_clusters m ?v - {d}"
    unfolding t(3) using free_vol_alloc [OF wf d(1)] by simp
  have "(0 + sectors_for n) div unat (sectorPerCluster m) \<le> card (free_clusters m (vol m t))"
    using space d(1) unfolding free by (simp add: free_clusters_def card_Diff_singleton_if)
  from writeFile_loop_spec [OF wf t(2) ch wf_metaD(1) [OF wf] bs this, of buf 0]
  obtain u fs where u: "writeFile_loop m (of_nat d) 0 bs buf 0 t = Inr ((), u)" "fs_inv m u"
      "written m (vol m t) d 0 fs (map buf [0..<n]) (vol m u)"
    by (auto simp: dv)
  have "set (d # fs) \<subseteq> free_clusters m ?v" using u(3) free d(1) by (auto simp: written_def free_clusters_def)
  then show ?thesis using that [OF t(1) u(1,2)] u(3) unfolding t(3) by blast
qed

text \<open>Writing into free clusters does not touch a directory.\<close>

lemma written_keeps_directory:
  assumes wf: "wf_meta m" and ch: "chain m v ds" and w: "written m (vol_alloc m 0 d v) d 0 fs xs v'"
    and free: "set (d # fs) \<subseteq> free_clusters m v"
  shows "x \<in> set ds \<Longrightarrow> x \<notin> set (d # fs)"
    "x \<notin> set (d # fs) \<Longrightarrow> vfat v' x = vfat v x" "x \<notin> set (d # fs) \<Longrightarrow> vdata v' x = vdata v x" "chain m v' ds"
    "j < dir_capacity m ds \<Longrightarrow> record_used m v' ds j = record_used m v ds j" "dir_records m v' ds = dir_records m v ds"
proof -
  have dis: "x \<notin> set (d # fs)" if "x \<in> set ds" for x
    using chain_disjoint_free [OF wf ch] free that by blast
  have keep: "vfat v' x = vfat v x" "vdata v' x = vdata v x" if "x \<notin> set (d # fs)" for x
    using w that by (auto simp: written_def vfat_vol_alloc)
  show "chain m v' ds" using ch chain_cong [of ds v' v m] keep(1) dis by blast
  show "j < dir_capacity m ds \<Longrightarrow> record_used m v' ds j = record_used m v ds j"
    using record_used_cong [OF wf, of ds v' v] keep(2) dis by blast
  show "dir_records m v' ds = dir_records m v ds" using dir_records_cong [OF wf, of ds v' v] keep(2) dis by blast
  show "x \<in> set ds \<Longrightarrow> x \<notin> set (d # fs)" by (rule dis)
  show "x \<notin> set (d # fs) \<Longrightarrow> vfat v' x = vfat v x" "x \<notin> set (d # fs) \<Longrightarrow> vdata v' x = vdata v x" by (rule keep; assumption)+
qed

text \<open>The record that names the contents completes the file.\<close>

lemma record_completes_file:
  assumes wf: "wf_meta m" and ch: "chain m v (unat c # cs)" and k: "k < dir_capacity m (unat c # cs)"
    and u: "fs_inv m u" "written m (vol_alloc m 0 d v) d 0 fs xs (vol m u)" and free: "set (d # fs) \<subseteq> free_clusters m v"
  shows "file_stored m (unat c # cs) k e xs d fs v (put_record m (unat c # cs) k e (vol m u))"
proof -
  let ?ds = "unat c # cs" and ?u = "vol m u"
  let ?w = "put_record m ?ds k e ?u"
  note keep = written_keeps_directory [OF wf ch u(2) free]
  have "dir_cluster m ?ds k \<in> set ?ds"
    using dir_position(1) [OF wf k] by (simp add: dir_cluster_def del: set_simps)
  then have data: "vdata ?w x = vdata ?u x" if "x \<notin> set ?ds" for x using that by (metis put_record_frame(3))
  have "record_at m ?u ?ds k = dir_records m v ?ds ! k"
    unfolding keep(6) [symmetric] using k by (simp add: dir_records_def)
  then have rec: "dir_records m ?w ?ds = (dir_records m v ?ds)[k := fill_record (dir_records m v ?ds ! k) 0 e]"
    using dir_records_put_record [OF wf keep(4) k length_dir_sector [OF wf u(1) keep(4) k]] keep(6) by simp
  show ?thesis
    unfolding file_stored_def
  proof (intro conjI)
    show "chain m ?w (d # fs)" using u(2) chain_cong [of "d # fs" ?w ?u m] by (simp add: written_def)
    show "length fs = sectors_for (length xs) div unat (sectorPerCluster m)" using u(2) by (simp add: written_def)
    have "vdata ?w x = vdata ?u x" if "x \<in> set (d # fs)" for x using data keep(1) that by blast
    then have "chain_bytes m ?w (d # fs) = chain_bytes m ?u (d # fs)"
      unfolding chain_bytes_Cons by (intro tail_bytes_cong) simp_all
    then show "take (length xs) (chain_bytes m ?w (d # fs)) = xs" using u(2) by (simp add: written_def chain_bytes_Cons)
    show "\<forall>x. x \<notin> set (d # fs) \<longrightarrow> vfat ?w x = vfat v x" using keep(2) by simp
    show "\<forall>x. x \<notin> set (d # fs) \<longrightarrow> x \<notin> set ?ds \<longrightarrow> vdata ?w x = vdata v x" using keep(3) data by simp
    show "vrest ?w = vrest v" using u(2) by (simp add: written_def)
  qed (use free rec in auto)
qed

lemma writeFile_spec:
  assumes wf: "wf_meta m" and s: "fs_inv m s" and ch: "chain m (vol m s) (unat c # cs)"
    and k: "k < dir_capacity m (unat c # cs)" "\<not> record_used m (vol m s) (unat c # cs) k"
      "\<And>j. j < k \<Longrightarrow> record_used m (vol m s) (unat c # cs) j"
    and bs: "sint bs = int n"
    and space: "sectors_for n div unat (sectorPerCluster m) < card (free_clusters m (vol m s))"
  shows "\<exists>s' d fs. writeFile m c name buf bs s = Inr ((), s') \<and> fs_inv m s' \<and>
    file_stored m (unat c # cs) k
      \<lparr>ename = writeFileName blank_name name, eattr = 0, efstCluster = of_nat d, esize = bs\<rparr>
      (map buf [0..<n]) d fs (vol m s) (vol m s')"
proof -
  let ?ds = "unat c # cs"
  obtain d fs t u where u: "allocateFreeCluster m 0 s = Inr (of_nat d, t)" "writeFile_loop m (of_nat d) 0 bs buf 0 t = Inr ((), u)"
      "fs_inv m u" "written m (vol_alloc m 0 d (vol m s)) d 0 fs (map buf [0..<n]) (vol m u)" "set (d # fs) \<subseteq> free_clusters m (vol m s)"
    by (rule write_contents [OF wf s bs space])
  note keep = written_keeps_directory [OF wf ch u(4,5)]
  let ?e = "\<lparr>ename = writeFileName blank_name name, eattr = 0, efstCluster = of_nat d, esize = bs\<rparr>"
  obtain w where "addFileToDirectory m c ?e u = Inr ((), w)" "fs_inv m w" "vol m w = put_record m ?ds k ?e (vol m u)"
    using addFileToDirectory_spec [OF wf u(3) keep(4) k(1), of ?e] keep(5) k by auto
  then show ?thesis
    using record_completes_file [OF wf ch k(1) u(3-5), of ?e] u(1,2) by (auto simp: writeFile_def)
qed


text \<open>
  Writing a file and reading it back: the directory record gives the first cluster and
  the size, and \<open>readFile\<close> with these returns the bytes and leaves the volume as it is.
\<close>

lemma stored_chain:
  assumes wf: "wf_meta m" and ch: "chain m v ds" and st: "file_stored m ds k e content d fs v v1"
  shows "chain m v1 ds" "chain m v1 (d # fs)" "valid_cluster m d" "unat (of_nat d :: u32) = d" "(of_nat d :: u32) \<noteq> 0"
proof -
  have "set (d # fs) \<inter> set ds = {}"
    using chain_disjoint_free [OF wf ch] st unfolding file_stored_def by blast
  then show "chain m v1 ds"
    using ch chain_cong [of ds v1 v m] st unfolding file_stored_def by blast
  show c: "chain m v1 (d # fs)" using st by (simp add: file_stored_def)
  show dv: "valid_cluster m d" using c chain_hd [of m v1 d fs] by simp
  show ud: "unat (of_nat d :: u32) = d" using dv not_eoc_cluster(2) [OF wf] by (simp add: valid_cluster_def)
  then show "(of_nat d :: u32) \<noteq> 0" using dv by (metis not_numeral_le_zero unat_0 valid_cluster_def)
qed

text \<open>A stored file is read back, from any state with that volume.\<close>

lemma stored_read_back:
  assumes wf: "wf_meta m" and s: "fs_inv m s" and ch: "chain m (vol m s) (unat c # cs)"
    and k: "unat k < dir_capacity m (unat c # cs)" and n: "length content < 0x10000"
    and st: "file_stored m (unat c # cs) (unat k)
      \<lparr>ename = nm, eattr = 0, efstCluster = of_nat d, esize = of_nat (length content)\<rparr>
      content d fs (vol m s) (vol m s1)" (is "file_stored m ?ds _ ?e _ _ _ _ _")
    and s1: "fs_inv m s1"
  shows "\<exists>s2 s3 f. getMetadataFileFromDirectory m c k e0 s1 = Inr (f, s2) \<and>
    ename f = readFileName nm (ename e0) \<and> esize f = of_nat (length content) \<and> isDirectory f = 0 \<and>
    readFile m (efstCluster f) (esize f) s2 = Inr (content, s3) \<and> fs_inv m s3 \<and> vol m s3 = vol m s1"
proof -
  let ?spc = "unat (sectorPerCluster m)" and ?n = "length content"
  have un: "unat (of_nat ?n :: u32) = ?n" using n by (simp add: unat_of_nat)
  then have sn: "sint (of_nat ?n :: u32) = int ?n" using n sint_small [of "of_nat ?n"] by simp
  note c1 = stored_chain [OF wf ch st]
  have "length (dir_records m (vol m s) ?ds ! unat k) = 32"
    using length_record_at [OF wf s ch k] k by (simp add: dir_records_def)
  then have rec: "parse_record (dir_records m (vol m s1) ?ds ! unat k) 0 (ename e0) = stored_entry ?e (ename e0)"
    using st k by (simp add: file_stored_def parse_fill_record)
  obtain s2 where s2: "getMetadataFileFromDirectory m c k e0 s1 = Inr (stored_entry ?e (ename e0), s2)"
      "fs_inv m s2" "disk s2 = disk s1"
    using getMetadata_records [OF wf s1 c1(1) k, of e0] rec by auto
  have v2: "vol m s2 = vol m s1" using s2(3) by (rule vol_disk)
  have e: "efstCluster (stored_entry ?e (ename e0)) = of_nat d" "esize (stored_entry ?e (ename e0)) = of_nat ?n"
    using c1(5) un n by (simp_all add: stored_entry_def word_unat_eq_iff unat_mod)
  have "sectors_for ?n < ?spc * Suc (sectors_for ?n div ?spc)"
    using wf_metaD(1) [OF wf] by (simp add: dividend_less_times_div)
  then have "sectors_for ?n < ?spc * Suc (length fs)"
    using st by (simp add: file_stored_def)
  moreover have "chain m (vol m s2) (unat (of_nat d :: u32) # fs)"
    using c1(2,4) v2 by simp
  ultimately obtain s3 where "readFile m (of_nat d) (of_nat ?n) s2 =
      Inr (take ?n (chain_bytes m (vol m s2) (unat (of_nat d :: u32) # fs)), s3)" "fs_inv m s3" "vol m s3 = vol m s2"
    using readFile_spec [OF wf s2(2) _ sn] by blast
  then have "readFile m (of_nat d) (of_nat ?n) s2 = Inr (content, s3)" "fs_inv m s3" "vol m s3 = vol m s1"
    using st v2 by (simp_all add: c1(4) file_stored_def)
  then show ?thesis
    using s2(1) e by (auto simp: stored_entry_def isDirectory_def)
qed

lemma write_read_back:
  assumes wf: "wf_meta m" and s: "fs_inv m s" and ch: "chain m (vol m s) (unat c # cs)"
    and k: "unat k < dir_capacity m (unat c # cs)" "\<not> record_used m (vol m s) (unat c # cs) (unat k)"
      "\<And>j. j < unat k \<Longrightarrow> record_used m (vol m s) (unat c # cs) j"
    and n: "n < 0x10000"
    and space: "sectors_for n div unat (sectorPerCluster m) < card (free_clusters m (vol m s))"
  shows "\<exists>s1 s2 s3 f. writeFile m c name buf (of_nat n) s = Inr ((), s1) \<and>
    getMetadataFileFromDirectory m c k e0 s1 = Inr (f, s2) \<and>
    ename f = readFileName (writeFileName blank_name name) (ename e0) \<and> esize f = of_nat n \<and>
    isDirectory f = 0 \<and>
    readFile m (efstCluster f) (esize f) s2 = Inr (map buf [0..<n], s3) \<and> vol m s3 = vol m s1"
proof -
  have "sint (of_nat n :: u32) = int n" using n sint_small [of "of_nat n"] by (simp add: unat_of_nat)
  from writeFile_spec [OF wf s ch k this space, of name buf]
  obtain s1 d fs where s1: "writeFile m c name buf (of_nat n) s = Inr ((), s1)" "fs_inv m s1"
    and st: "file_stored m (unat c # cs) (unat k)
      \<lparr>ename = writeFileName blank_name name, eattr = 0, efstCluster = of_nat d, esize = of_nat (length (map buf [0..<n]))\<rparr>
      (map buf [0..<n]) d fs (vol m s) (vol m s1)"
    by auto
  have "length (map buf [0..<n]) < 0x10000" using n by simp
  from stored_read_back [OF wf s ch k(1) this st s1(2), of e0] s1(1) show ?thesis by auto
qed

section \<open>File names\<close>

text \<open>
  A name of the 8.3 form is a base of one to eight bytes and an extension of up to three
  bytes. \<open>name_ok\<close> is the narrower class of names that \<open>writeFileName\<close> brings into the
  directory's format itself: no extension and at most seven bytes of base, or an extension
  of exactly three bytes. What it makes of the others is in \<open>dos_name_roundtrip\<close>.
\<close>

definition name_ok :: "bytes \<Rightarrow> bytes \<Rightarrow> bool" where
  "name_ok base ext \<longleftrightarrow> base \<noteq> [] \<and> length base \<le> 8 \<and> 0 \<notin> set base \<and> 0x2E \<notin> set base \<and>
     last base \<noteq> 0x20 \<and>
     (ext = [] \<and> length base < 8 \<or> length ext = 3 \<and> hd ext \<noteq> 0x20)"

definition dos_name :: "bytes \<Rightarrow> bytes \<Rightarrow> bool" where
  "dos_name base ext \<longleftrightarrow> base \<noteq> [] \<and> length base \<le> 8 \<and> 0 \<notin> set base \<and> 0x2E \<notin> set base \<and>
     last base \<noteq> 0x20 \<and> length ext \<le> 3 \<and> 0 \<notin> set ext \<and> 0x20 \<notin> set ext"

definition name_chars :: "bytes \<Rightarrow> bytes \<Rightarrow> bytes" where
  "name_chars base ext = base @ (if ext = [] then [] else 0x2E # ext) @ [0]"

definition fat_record :: "bytes \<Rightarrow> bytes \<Rightarrow> bytes" where
  "fat_record base ext = base @ replicate (8 - length base) 0x20 @ ext"

definition fat_name :: "bytes \<Rightarrow> bytes \<Rightarrow> bytes" where
  "fat_name base ext = fat_record base (ext @ replicate (3 - length ext) 0x20)"

lemma length_fat_record: "length base \<le> 8 \<Longrightarrow> length (fat_record base e) = 8 + length e"
  by (simp add: fat_record_def)

lemma fat_record_inject: "fat_record base e @ r = fat_record base e' @ r \<longleftrightarrow> e = e'"
  "fat_record base e = fat_record base e' \<longleftrightarrow> e = e'"
  by (simp_all add: fat_record_def)

lemma write_base_copies:
  assumes "\<And>j. j < length base \<Longrightarrow> f j = base ! j" "0 \<notin> set base" "0x2E \<notin> set base" "length base \<le> 8"
    "8 \<le> length b"
  shows "i \<le> length base \<Longrightarrow> write_base f i (poke 0 (take i base) b) = write_base f (length base) (poke 0 base b)"
proof (induction "length base - i" arbitrary: i)
  case (Suc n)
  then have i: "i < length base" by simp
  then have "f i \<noteq> 0" "f i \<noteq> 0x2E" using assms(1-3) by (metis nth_mem)+
  moreover have "(poke 0 (take i base) b)[i := f i] = poke 0 (take (Suc i) base) b"
    using i assms(1,4,5) by (intro nth_equalityI) (auto simp: nth_poke nth_list_update less_Suc_eq)
  ultimately show ?case
    using i assms(4) Suc by (subst write_base.simps) auto
qed simp

lemma writeFileName_stops:
  assumes "\<And>j. j < length base \<Longrightarrow> f j = base ! j" "0 \<notin> set base" "0x2E \<notin> set base" "length base \<le> 8"
    "11 \<le> length b"
  shows "length base < 8 \<Longrightarrow> f (length base) = 0 \<Longrightarrow>
      writeFileName b f = fat_record base (replicate 3 0x20) @ drop 11 b"
    and "length base = 8 \<or> f (length base) = 0x2E \<Longrightarrow>
      writeFileName b f = fat_record base (map (\<lambda>i. f (length base + i + 1)) [0..<3]) @ drop 11 b"
proof -
  let ?sp = "replicate 11 0x20 @ drop 11 b" and ?n = "length base"
  have sp: "fold (\<lambda>i f. f[i := 0x20]) [0..<11] b = ?sp"
    using assms(5) fold_store_0 [of 11 b "\<lambda>_. 0x20"] by (simp add: map_replicate_const)
  have wb: "write_base f 0 ?sp = write_base f ?n (poke 0 base ?sp)"
    using write_base_copies [of base f ?sp 0] assms(1-4) by (simp add: poke_def)
  have p: "poke 0 base ?sp = base @ replicate (8 - ?n) 0x20 @ replicate 3 0x20 @ drop 11 b"
    using assms(4) by (simp add: poke_def flip: replicate_add append_assoc)
  show "writeFileName b f = fat_record base (replicate 3 0x20) @ drop 11 b" if "?n < 8" "f ?n = 0"
  proof -
    have "write_base f ?n (poke 0 base ?sp) = (poke 0 base ?sp, None)"
      using that by (subst write_base.simps) simp
    then show ?thesis using sp wb p by (simp add: writeFileName_def Let_def fat_record_def)
  qed
  show "writeFileName b f = fat_record base (map (\<lambda>i. f (?n + i + 1)) [0..<3]) @ drop 11 b"
    if "?n = 8 \<or> f ?n = 0x2E"
  proof -
    have "write_base f ?n (poke 0 base ?sp) = (poke 0 base ?sp, Some ?n)"
      using that by (subst write_base.simps) auto
    moreover have "fold (\<lambda>i x. x[8 + i := f (?n + i + 1)]) [0..<3] (poke 0 base ?sp)
        = poke 8 (map (\<lambda>i. f (?n + i + 1)) [0..<3]) (poke 0 base ?sp)"
      using assms(4,5) by (intro fold_store) (simp add: p)
    ultimately show ?thesis
      using sp wb assms(4) by (simp add: writeFileName_def Let_def p poke_def fat_record_def)
  qed
qed

lemma writeFileName_ok:
  assumes "name_ok base ext" "\<And>i. i < length (name_chars base ext) \<Longrightarrow> f i = name_chars base ext ! i"
    "11 \<le> length b"
  shows "writeFileName b f = fat_name base ext @ drop 11 b"
proof -
  have n: "length base \<le> 8" "0 \<notin> set base" "0x2E \<notin> set base" using assms(1) by (simp_all add: name_ok_def)
  have f: "f j = base ! j" if "j < length base" for j
    using assms(2) [of j] that by (simp add: name_chars_def nth_append)
  note st = writeFileName_stops [of base f b, OF f n(2,3,1) assms(3)]
  show ?thesis
  proof (cases "ext = []")
    case True
    then show ?thesis
      using st(1) assms(1,2) by (auto simp: name_ok_def name_chars_def fat_name_def nth_append)
  next
    case False
    then have e: "length ext = 3" using assms(1) by (auto simp: name_ok_def)
    have "f (length base) = 0x2E" using assms(2) [of "length base"] False by (simp add: name_chars_def nth_append)
    moreover have "map (\<lambda>i. f (length base + i + 1)) [0..<3] = ext"
      using assms(2) [of "length base + _ + 1"] False e
      by (intro nth_equalityI) (auto simp: name_chars_def nth_append)
    ultimately show ?thesis using st(2) e by (simp add: fat_name_def)
  qed
qed

lemma strip_spaces_eq:
  "n \<le> k \<Longrightarrow> (\<And>i. n \<le> i \<Longrightarrow> i < k \<Longrightarrow> f ! i = 0x20) \<Longrightarrow> (0 < n \<Longrightarrow> f ! (n - 1) \<noteq> 0x20) \<Longrightarrow>
   strip_spaces f k = n"
proof (induction k)
  case (Suc k)
  then show ?case by (cases "n = Suc k") auto
qed simp

lemma base_first: "base \<noteq> [] \<Longrightarrow> 0 \<notin> set base \<Longrightarrow> base ! 0 \<noteq> (0 :: u8)"
  by (cases base) auto

text \<open>What \<open>readFileName\<close> makes of a record with base \<open>base\<close> and extension field \<open>e\<close>.\<close>

lemma readFileName_record:
  assumes "base \<noteq> []" "length base \<le> 8" "base ! 0 \<noteq> 0" "last base \<noteq> 0x20" "length e = 3" "length old = 13"
    and "\<And>i. i < 11 \<Longrightarrow> g ! i = fat_record base e ! i"
  shows "readFileName g old = (if e ! 0 = 0x20 then base @ 0 # drop (length base + 1) old
    else base @ 0x2E # e @ 0 # drop (length base + 5) old)"
proof -
  let ?n = "length base" and ?g = "fat_record base e"
  have n: "0 < ?n" using assms(1) by simp
  have g0: "?g ! 0 \<noteq> 0" using assms(3) n by (simp add: fat_record_def nth_append)
  have "base ! (?n - 1) \<noteq> 0x20" using assms(1,4) by (simp add: last_conv_nth)
  then have sp: "strip_spaces ?g 8 = ?n"
    using assms(2) n by (intro strip_spaces_eq) (auto simp: fat_record_def nth_append)
  have g8: "?g ! (8 + i) = e ! i" for i
  proof -
    have "\<not> 8 + i - ?n < 8 - ?n" by linarith
    then show ?thesis using assms(2) by (simp add: fat_record_def nth_append)
  qed
  have "map ((!) ?g) [0..<?n] = base" using assms(2) by (intro nth_equalityI) (simp_all add: fat_record_def nth_append)
  then have base: "fold (\<lambda>i x. x[i := ?g ! i]) [0..<?n] old = base @ drop ?n old"
    using fold_store_0 [of ?n old "(!) ?g"] assms(2,6) by simp
  have "fold (\<lambda>i x. x[?n + i + 1 := ?g ! (8 + i)]) [0..<3] ((base @ drop ?n old)[?n := 0x2E])
      = poke (?n + 1) (map (\<lambda>i. ?g ! (8 + i)) [0..<3]) ((base @ drop ?n old)[?n := 0x2E])"
    using fold_store [of "?n + 1" 3 _ "\<lambda>i. ?g ! (8 + i)"] assms(2,6) by simp
  moreover have "map (\<lambda>i. ?g ! (8 + i)) [0..<3] = e" using g8 assms(5) by (intro nth_equalityI) auto
  moreover have "(poke (?n + 1) e ((base @ drop ?n old)[?n := 0x2E]))[?n + 4 := 0]
      = base @ 0x2E # e @ 0 # drop (?n + 5) old"
    using assms(2,5,6) by (intro nth_equalityI) (auto simp: nth_list_update nth_poke nth_append nth_Cons')
  moreover have "readFileName g old = readFileName ?g old" using assms(7) by (rule readFileName_cong)
  ultimately show ?thesis
    using g0 sp base g8 [of 0] assms(2,6)
    by (simp add: readFileName_def Let_def list_update_append upd_conv_take_nth_drop)
qed

lemma readFileName_fat_name:
  assumes "name_ok base ext" "length old = 13" "\<And>i. i < 11 \<Longrightarrow> g ! i = fat_name base ext ! i"
  shows "readFileName g old = name_chars base ext @ drop (length (name_chars base ext)) old"
proof -
  let ?e = "ext @ replicate (3 - length ext) 0x20"
  have e: "length ?e = 3" "?e ! 0 = 0x20 \<longleftrightarrow> ext = []" using assms(1) by (auto simp: name_ok_def hd_conv_nth nth_append)
  have b: "base \<noteq> []" "length base \<le> 8" "base ! 0 \<noteq> 0" "last base \<noteq> 0x20"
    using assms(1) base_first [of base] by (auto simp: name_ok_def)
  show ?thesis
    using readFileName_record [OF b e(1) assms(2)] assms(1,3) e(2)
    by (auto simp: fat_name_def name_chars_def name_ok_def add.commute)
qed

lemma length_fat_name: "name_ok base ext \<Longrightarrow> length (fat_name base ext) = 11"
  by (auto simp: name_ok_def fat_name_def fat_record_def)

text \<open>
  Every name of the 8.3 form: \<open>writeFileName\<close> stores it in the directory's format unless it
  has a short extension or eight bytes of base and no extension, when it copies the bytes
  at and after the terminator; the string read back is wrong only in the latter case.
\<close>

lemma dos_name_roundtrip:
  assumes nm: "dos_name base ext" and f: "\<And>i. i < length (name_chars base ext) \<Longrightarrow> f i = name_chars base ext ! i"
    and old: "length old = 13"
  shows "writeFileName blank_name f = fat_name base ext @ drop 11 blank_name \<longleftrightarrow>
      length ext = 3 \<or> ext = [] \<and> (length base < 8 \<or> f 9 = 0x20 \<and> f 10 = 0x20 \<and> f 11 = 0x20)" (is ?stored)
    and "take (length (name_chars base ext)) (readFileName (writeFileName blank_name f) old) = name_chars base ext \<longleftrightarrow>
      ext \<noteq> [] \<or> length base < 8 \<or> f 9 = 0x20" (is ?read)
proof -
  let ?n = "length base" and ?e = "map (\<lambda>i. f (length base + i + 1)) [0..<3]"
  have n: "base \<noteq> []" "?n \<le> 8" "0 \<notin> set base" "0x2E \<notin> set base" "last base \<noteq> 0x20"
    using nm by (simp_all add: dos_name_def)
  have b0: "base ! 0 \<noteq> 0" using n(1,3) by (rule base_first)
  have fb: "f j = base ! j" if "j < ?n" for j
    using f [of j] that by (simp add: name_chars_def nth_append)
  note st = writeFileName_stops [of base f blank_name, OF fb n(3,4,2)]
  note rd = readFileName_record [OF n(1,2) b0 n(5) _ old]
  have "?stored \<and> ?read"
  proof (cases "ext = []")
    case True
    then have z: "f ?n = 0" using f [of ?n] by (simp add: name_chars_def)
    show ?thesis
    proof (cases "?n < 8")
      case True
      then have w: "writeFileName blank_name f = fat_record base (replicate 3 0x20) @ drop 11 blank_name"
        using st(1) z by (simp add: blank_name_def)
      show ?thesis
        using rd [of "replicate 3 0x20" "writeFileName blank_name f"] True \<open>ext = []\<close> n(2)
        by (simp add: w fat_name_def name_chars_def nth_append length_fat_record)
    next
      case False
      then have w: "writeFileName blank_name f = fat_record base ?e @ drop 11 blank_name"
        using st(2) n(2) by (simp add: blank_name_def)
      show ?thesis
        using rd [of ?e "writeFileName blank_name f"] False \<open>ext = []\<close> n(2)
        by (auto simp: w fat_name_def name_chars_def nth_append length_fat_record numeral_3_eq_3 fat_record_inject)
    qed
  next
    case False
    let ?k = "length ext"
    have d: "f ?n = 0x2E" using f [of ?n] False by (simp add: name_chars_def nth_append)
    then have w: "writeFileName blank_name f = fat_record base ?e @ drop 11 blank_name"
      using st(2) by (simp add: blank_name_def)
    have e: "f (?n + i + 1) = (ext @ [0]) ! i" if "i \<le> ?k" for i
      using f [of "?n + i + 1"] False that by (simp add: name_chars_def nth_append)
    have k: "?k \<le> 3" "0 \<notin> set ext" "0x20 \<notin> set ext" using nm by (simp_all add: dos_name_def)
    have te: "take ?k ?e = ext" using k(1) e by (intro nth_equalityI) (auto simp: nth_append)
    have stored: "?e = ext @ replicate (3 - ?k) 0x20 \<longleftrightarrow> ?k = 3"
    proof (cases "?k < 3")
      case True
      then have "?e ! ?k \<noteq> (ext @ replicate (3 - ?k) 0x20) ! ?k" using e [of ?k] by (simp add: nth_append)
      then show ?thesis using True by (metis less_irrefl)
    qed (use k(1) te in simp)
    have "?e ! 0 \<noteq> 0x20" using e [of 0] False k(3) by (cases ext) auto
    then have "readFileName (writeFileName blank_name f) old = base @ 0x2E # ?e @ 0 # drop (?n + 5) old"
      using rd [of ?e "writeFileName blank_name f"] n(2) by (simp add: w nth_append length_fat_record)
    moreover have "take (?k + 1) (?e @ 0 # r) = ext @ [0]" for r
    proof (cases "?k < 3")
      case True
      then have "take (?k + 1) ?e = ext @ [0]"
        using e by (intro nth_equalityI) (auto simp: less_Suc_eq_le simp del: upt_Suc)
      then show ?thesis using True by (simp add: take_append del: upt_Suc)
    qed (use k(1) te in simp)
    ultimately show ?thesis
      using False stored by (simp add: name_chars_def w fat_name_def fat_record_inject del: upt_Suc)
  qed
  then show ?stored ?read by simp_all
qed


section \<open>Directories\<close>

definition dot_name :: bytes where
  "dot_name = 0x2E # replicate 10 0x20"

definition dotdot_name :: bytes where
  "dotdot_name = 0x2E # 0x2E # replicate 9 0x20"

lemma fill_record_cong:
  assumes "\<And>i. i < 11 \<Longrightarrow> ename e ! i = ename e' ! i" "eattr e = eattr e'" "efstCluster e = efstCluster e'"
    "esize e = esize e'" "off + 32 \<le> length b"
  shows "fill_record b off e = fill_record b off e'"
proof -
  have "map ((!) (ename e)) [0..<11] = map ((!) (ename e')) [0..<11]" using assms(1) by simp
  then show ?thesis by (simp only: fill_record_pokes [OF assms(5)] assms(2-4))
qed

text \<open>
  The volume after \<open>mkdir\<close> of \<open>name\<close> in the directory \<open>ds\<close> with first cluster \<open>c\<close> and free
  record \<open>k\<close>: cluster \<open>d\<close> is taken and wiped, record \<open>k\<close> names it, and its own first two
  records link to itself and to the parent.
\<close>

definition vol_mkdir :: "FAT32_Metadata \<Rightarrow> u32 \<Rightarrow> nat list \<Rightarrow> nat \<Rightarrow> bytes \<Rightarrow> nat \<Rightarrow> volume \<Rightarrow> volume" where
  "vol_mkdir m c ds k name d v =
     put_record m [d] 1 \<lparr>ename = dotdot_name, eattr = 16, efstCluster = c, esize = 0\<rparr>
      (put_record m [d] 0 \<lparr>ename = dot_name, eattr = 16, efstCluster = of_nat d, esize = 0\<rparr>
       (put_record m ds k \<lparr>ename = name, eattr = 16, efstCluster = of_nat d, esize = 0\<rparr>
        (vol_alloc m 0 d v)))"

lemma put_record_cong:
  assumes "wf_meta m" "fs_inv m s" "vol m s = v" "chain m v ds" "k < dir_capacity m ds"
    "\<And>i. i < 11 \<Longrightarrow> ename e ! i = ename e' ! i" "eattr e = eattr e'" "efstCluster e = efstCluster e'"
    "esize e = esize e'"
  shows "put_record m ds k e v = put_record m ds k e' v"
  using fill_record_cong [OF assms(6-9)] length_dir_sector [OF assms(1,2) _ assms(5)] assms(3,4)
    record_offset [of k]
  by (simp add: put_record_def)

lemma spaces_name:
  assumes "length b = 13"
  shows "fold (\<lambda>i f. f[i := 0x20]) [0..<11] b = replicate 11 (0x20 :: u8) @ drop 11 b"
  using assms fold_store_0 [of 11 b "\<lambda>_. 0x20"] by (simp add: map_replicate_const)

lemma length_write_base: "length (fst (write_base f i b)) = length b"
proof (induction f i b rule: write_base.induct)
  case (1 f i b)
  then show ?case by (subst write_base.simps) simp
qed

lemma length_writeFileName [simp]: "length (writeFileName b f) = length b"
  using length_write_base [of f 0 "fold (\<lambda>i f. f[i := 0x20]) [0..<11] b"]
  by (auto simp: writeFileName_def Let_def split: prod.split option.split)

lemma two_records: "wf_meta m \<Longrightarrow> 1 < dir_capacity m [d]"
  using wf_metaD(1) [of m] by (simp add: dir_capacity_def)

text \<open>The two links of a directory whose only cluster is wiped.\<close>

lemma wiped_unused:
  assumes "wf_meta m" "vdata v d = wiped m" "j < dir_capacity m [d]"
  shows "\<not> record_used m v [d] j"
  using dir_position [OF assms(1,3)] record_offset [of j] assms(2)
  by (simp add: record_used_def dir_sector_def dir_cluster_def wiped_def)

lemma first_link_used:
  assumes wf: "wf_meta m" and s: "fs_inv m s" "fs_inv m s'" "vol m s' = put_record m [d] 0 e (vol m s)"
    and ch: "chain m (vol m s) [d]" and w: "vdata (vol m s) d = wiped m" and e: "ename e ! 0 \<noteq> 0"
  shows "record_used m (vol m s') [d] 0" "\<not> record_used m (vol m s') [d] 1"
proof -
  have ch': "chain m (vol m s') [d]" using ch s(3) by simp
  note cap = capacity_pos [OF wf, of d "[]"] two_records [OF wf, of d]
  note used = record_used_iff [OF wf s(2) ch'] record_used_iff [OF wf s(1) ch]
  have recs: "dir_records m (vol m s') [d] =
      (dir_records m (vol m s) [d])[0 := fill_record (record_at m (vol m s) [d] 0) 0 e]"
    using dir_records_put_record [OF wf ch cap(1) length_dir_sector [OF wf s(1) ch cap(1)]] s(3) by simp
  have "length (record_at m (vol m s) [d] 0) = 32" by (rule length_record_at [OF wf s(1) ch cap(1)])
  then show "record_used m (vol m s') [d] 0"
    using used(1) [OF cap(1)] recs cap(1) e by (simp add: fill_record_pokes nth_poke)
  show "\<not> record_used m (vol m s') [d] 1"
    using used(1) [OF cap(2)] used(2) [OF cap(2)] recs wiped_unused [OF wf w cap(2)] by simp
qed

lemma directory_links:
  assumes wf: "wf_meta m" and s: "fs_inv m s" and ch: "chain m (vol m s) [unat c]"
    and w: "vdata (vol m s) (unat c) = wiped m" and e: "ename e ! 0 \<noteq> 0"
  shows "\<exists>s1 s2. addFileToDirectory m c e s = Inr ((), s1) \<and> fs_inv m s1 \<and>
    vol m s1 = put_record m [unat c] 0 e (vol m s) \<and>
    addFileToDirectory m c e' s1 = Inr ((), s2) \<and> fs_inv m s2 \<and>
    vol m s2 = put_record m [unat c] 1 e' (vol m s1)"
proof -
  note cap = capacity_pos [OF wf, of "unat c" "[]"] two_records [OF wf, of "unat c"]
  obtain s1 where s1: "addFileToDirectory m c e s = Inr ((), s1)" "fs_inv m s1"
      "vol m s1 = put_record m [unat c] 0 e (vol m s)"
    using addFileToDirectory_spec [OF wf s ch cap(1) wiped_unused [OF wf w cap(1)], of e] by auto
  note used = first_link_used [OF wf s s1(2,3) ch w e]
  have "chain m (vol m s1) [unat c]" using ch s1(3) by simp
  from addFileToDirectory_spec [OF wf s1(2) this cap(2) used(2)] used(1) s1 show ?thesis
    by (metis less_one)
qed

lemma mkdir_names:
  assumes "length b = 13" "i < 11"
  defines "n1 \<equiv> (fold (\<lambda>i f. f[i := 0x20]) [0..<11] b)[0 := 0x2E :: u8]"
  shows "n1 ! i = dot_name ! i" "n1[1 := 0x2E] ! i = dotdot_name ! i" "n1 ! 0 = 0x2E"
  using assms(2) spaces_name [OF assms(1)]
  by (auto simp: n1_def dot_name_def dotdot_name_def nth_append nth_Cons' nth_list_update)

text \<open>The first half of \<open>mkdir\<close>: a cluster for the new directory, and its record in the parent.\<close>

lemma mkdir_entry:
  assumes wf: "wf_meta m" and s: "fs_inv m s" and ch: "chain m (vol m s) (unat c # cs)"
    and k: "k < dir_capacity m (unat c # cs)" "\<not> record_used m (vol m s) (unat c # cs) k"
      "\<And>j. j < k \<Longrightarrow> record_used m (vol m s) (unat c # cs) j"
    and d: "is_free m (vol m s) d" "\<And>j. j < d \<Longrightarrow> \<not> is_free m (vol m s) j"
  shows "\<exists>s1 s2. allocateFreeCluster m 0 s = Inr (of_nat d, s1) \<and> addFileToDirectory m c e s1 = Inr ((), s2) \<and> fs_inv m s2 \<and>
    vol m s2 = put_record m (unat c # cs) k e (vol_alloc m 0 d (vol m s)) \<and> vdata (vol m s2) d = wiped m \<and> chain m (vol m s2) [d]"
proof -
  let ?ds = "unat c # cs" and ?v = "vol m s"
  have dv: "valid_cluster m d" using d(1) by (auto simp: is_free_def)
  have dis: "d \<notin> set ?ds" using chain_not_free [OF wf ch] d(1) by blast
  obtain s1 where s1: "allocateFreeCluster m 0 s = Inr (of_nat d, s1)" "fs_inv m s1" "vol m s1 = vol_alloc m 0 d ?v"
    using allocateFreeCluster_spec [OF s wf _ d, of 0] nclusters_bound(2) [OF wf] by auto
  have "vfat (vol m s1) x = vfat ?v x" if "x \<in> set ?ds" for x
    using that dis s1(3) by (metis vfat_vol_alloc)
  then have ch1: "chain m (vol m s1) ?ds" using ch chain_cong [of ?ds "vol m s1" ?v m] by blast
  have used: "record_used m (vol m s1) ?ds j = record_used m ?v ?ds j" if "j < dir_capacity m ?ds" for j
    using dis s1(3) by (intro record_used_cong [OF wf _ that]) auto
  obtain s2 where s2: "addFileToDirectory m c e s1 = Inr ((), s2)" "fs_inv m s2" "vol m s2 = put_record m ?ds k e (vol m s1)"
    using addFileToDirectory_spec [OF wf s1(2) ch1 k(1), of e] used k by auto
  have "dir_cluster m ?ds k \<in> set ?ds"
    using dir_position(1) [OF wf k(1)] by (simp add: dir_cluster_def del: set_simps)
  then have "d \<noteq> dir_cluster m ?ds k" using dis by metis
  then have "vdata (vol m s2) d = wiped m" using s2(3) s1(3) put_record_frame(3) [of d m ?ds k] by simp
  moreover have "chain m (vol m s2) [d]" using s2(3) s1(3) dv by (simp add: vfat_vol_alloc)
  ultimately show ?thesis using s1(1) s2 unfolding s1(3) by blast
qed

lemma mkdir_spec:
  assumes wf: "wf_meta m" and s: "fs_inv m s" and ch: "chain m (vol m s) (unat c # cs)"
    and k: "k < dir_capacity m (unat c # cs)" "\<not> record_used m (vol m s) (unat c # cs) k"
      "\<And>j. j < k \<Longrightarrow> record_used m (vol m s) (unat c # cs) j"
    and d: "is_free m (vol m s) d" "\<And>j. j < d \<Longrightarrow> \<not> is_free m (vol m s) j"
  shows "\<exists>s'. mkdir m c name s = Inr ((), s') \<and> fs_inv m s' \<and>
    vol m s' = vol_mkdir m c (unat c # cs) k (writeFileName blank_name name) d (vol m s)"
proof -
  let ?ds = "unat c # cs" and ?v = "vol m s" and ?n = "writeFileName blank_name name"
  let ?e = "\<lparr>ename = ?n, eattr = 16, efstCluster = of_nat d, esize = 0\<rparr>"
  have ud: "unat (of_nat d :: u32) = d"
    using d(1) not_eoc_cluster(2) [OF wf] by (auto simp: is_free_def valid_cluster_def)
  obtain s1 s2 where s1: "allocateFreeCluster m 0 s = Inr (of_nat d, s1)" and s2: "addFileToDirectory m c ?e s1 = Inr ((), s2)"
      "fs_inv m s2" "vol m s2 = put_record m ?ds k ?e (vol_alloc m 0 d ?v)" "vdata (vol m s2) d = wiped m" "chain m (vol m s2) [d]"
    using mkdir_entry [OF wf s ch k d] by blast
  define n1 where "n1 = (fold (\<lambda>i f. f[i := 0x20]) [0..<11] ?n)[0 := 0x2E :: u8]"
  note n1 = mkdir_names [of ?n, folded n1_def]
  have ln: "length ?n = 13" by (simp add: blank_name_def)
  let ?e1 = "\<lparr>ename = n1, eattr = 16, efstCluster = of_nat d, esize = 0\<rparr>"
  let ?e2 = "\<lparr>ename = n1[1 := 0x2E], eattr = 16, efstCluster = c, esize = 0\<rparr>"
  have "ename ?e1 ! 0 \<noteq> 0" using n1(3) [OF ln, of 0] by simp
  from directory_links [OF wf s2(2) _ _ this, of "of_nat d" ?e2] s2(4,5) obtain s3 s4 where
    s3: "addFileToDirectory m (of_nat d) ?e1 s2 = Inr ((), s3)" "fs_inv m s3" "vol m s3 = put_record m [d] 0 ?e1 (vol m s2)" and
    s4: "addFileToDirectory m (of_nat d) ?e2 s3 = Inr ((), s4)" "fs_inv m s4" "vol m s4 = put_record m [d] 1 ?e2 (vol m s3)"
    by (auto simp: ud)
  have "mkdir m c name s = Inr ((), s4)"
    using s1 s2(1) s3(1) s4(1) by (simp add: mkdir_def Let_def n1_def)
  moreover have "chain m (vol m s3) [d]" using s2(5) s3(3) by simp
  note link1 = put_record_cong [OF wf s2(2) refl s2(5) capacity_pos [OF wf], of ?e1]
    and link2 = put_record_cong [OF wf s3(2) refl this two_records [OF wf], of ?e2]
  have "vol m s4 = vol_mkdir m c ?ds k ?n d ?v"
    unfolding vol_mkdir_def s2(3) [symmetric] s4(3)
    using link1 [of "\<lparr>ename = dot_name, eattr = 16, efstCluster = of_nat d, esize = 0\<rparr>"]
      link2 [of "\<lparr>ename = dotdot_name, eattr = 16, efstCluster = c, esize = 0\<rparr>"] n1(1,2) [OF ln] s3(3)
    by simp
  ultimately show ?thesis using s4(2) by auto
qed

text \<open>The records of both directories after \<open>mkdir\<close>.\<close>

lemma wiped_sector:
  assumes "wf_meta m" "vdata v d = wiped m" "j < dir_capacity m [d]"
  shows "dir_sector m v [d] j = replicate 512 0" "record_at m v [d] j = replicate 32 0"
proof -
  show s: "dir_sector m v [d] j = replicate 512 0"
    using dir_position [OF assms(1,3)] assms(2) by (simp add: dir_sector_def dir_cluster_def wiped_def)
  show "record_at m v [d] j = replicate 32 0"
    using record_offset [of j] by (simp add: record_at_def s peek_def)
qed

lemma new_directory_records:
  assumes wf: "wf_meta m" and ch: "chain m v [d]" and w: "vdata v d = wiped m"
  shows "dir_records m (put_record m [d] 1 e' (put_record m [d] 0 e v)) [d] =
    fill_record (replicate 32 0) 0 e # fill_record (replicate 32 0) 0 e' #
      replicate (dir_capacity m [d] - 2) (replicate 32 0)"
proof -
  note cap = capacity_pos [OF wf, of d "[]"] two_records [OF wf, of d]
  let ?v1 = "put_record m [d] 0 e v"
  have r0: "dir_records m v [d] = replicate (dir_capacity m [d]) (replicate 32 0)"
    using wiped_sector(2) [OF wf w] by (intro nth_equalityI) (simp_all add: dir_records_def)
  have r1: "dir_records m ?v1 [d] = (dir_records m v [d])[0 := fill_record (replicate 32 0) 0 e]"
    using dir_records_put_record [OF wf ch cap(1)] wiped_sector [OF wf w cap(1)] by simp
  have same: "dir_index m 1 = dir_index m 0" by (simp add: dir_index_def)
  then have "dir_sector m ?v1 [d] 1 = fill_record (replicate 512 0) 0 e"
    using wiped_sector(1) [OF wf w cap(1)] dir_position(1) [OF wf cap(2)] dir_position(1) [OF wf cap(1)]
    by (simp add: dir_sector_def put_record_def dir_cluster_def)
  then have "length (dir_sector m ?v1 [d] 1) = 512" by simp
  moreover have "record_at m ?v1 [d] 1 = replicate 32 0"
  proof -
    have "record_at m ?v1 [d] 1 = dir_records m ?v1 [d] ! 1" using cap by (simp add: dir_records_def)
    also have "\<dots> = replicate 32 0" unfolding r1 r0 using cap by simp
    finally show ?thesis .
  qed
  moreover have "chain m ?v1 [d]" using ch by simp
  ultimately have "dir_records m (put_record m [d] 1 e' ?v1) [d] =
      (dir_records m ?v1 [d])[1 := fill_record (replicate 32 0) 0 e']"
    using dir_records_put_record [OF wf _ cap(2)] by simp
  moreover obtain n where "dir_capacity m [d] = Suc (Suc n)"
    using less_imp_Suc_add [OF cap(2)] by auto
  ultimately show ?thesis using r0 r1 by simp
qed

lemma vol_mkdir_records:
  fixes name :: bytes and c :: u32
  assumes wf: "wf_meta m" and ch: "chain m v ds" and k: "k < dir_capacity m ds"
    and len: "length (dir_sector m v ds k) = 512" and d: "is_free m v d"
  defines "v' \<equiv> vol_mkdir m c ds k name d v"
  shows "chain m v' ds" "chain m v' [d]"
    "dir_records m v' ds = (dir_records m v ds)[k := fill_record (record_at m v ds k) 0
      \<lparr>ename = name, eattr = 16, efstCluster = of_nat d, esize = 0\<rparr>]"
    "dir_records m v' [d] =
      fill_record (replicate 32 0) 0 \<lparr>ename = dot_name, eattr = 16, efstCluster = of_nat d, esize = 0\<rparr> #
      fill_record (replicate 32 0) 0 \<lparr>ename = dotdot_name, eattr = 16, efstCluster = c, esize = 0\<rparr> #
      replicate (dir_capacity m [d] - 2) (replicate 32 0)"
proof -
  let ?e = "\<lparr>ename = name, eattr = 16, efstCluster = of_nat d, esize = 0\<rparr>"
  let ?v1 = "vol_alloc m 0 d v" and ?v2 = "put_record m ds k ?e (vol_alloc m 0 d v)"
  have dis: "d \<notin> set ds" using chain_not_free [OF wf ch] d by blast
  have fat: "vfat v' = vfat ?v1" by (simp add: v'_def vol_mkdir_def)
  have "vfat ?v1 x = vfat v x" if "x \<in> set ds" for x using that dis by (metis vfat_vol_alloc)
  then have ch1: "chain m ?v1 ds" using ch chain_cong [of ds ?v1 v m] by blast
  then show "chain m v' ds" using chain_cong [of ds v' ?v1 m] fat by simp
  have chd: "chain m w [d]" if "vfat w = vfat ?v1" for w
    using that d by (simp add: vfat_vol_alloc is_free_def)
  from chd [OF fat] show "chain m v' [d]" .
  have dc: "dir_cluster m ds k \<in> set ds"
    using dir_position(1) [OF wf k] by (simp add: dir_cluster_def)
  have d0: "dir_cluster m [d] 0 = d" "dir_cluster m [d] 1 = d" by (simp_all add: dir_cluster_def)
  have "vdata v' x = vdata ?v2 x" if "x \<in> set ds" for x
    using that dis d0 unfolding v'_def vol_mkdir_def by (metis put_record_frame(3))
  then have "dir_records m v' ds = dir_records m ?v2 ds" by (rule dir_records_cong [OF wf])
  moreover have data: "vdata ?v1 x = vdata v x" if "x \<in> set ds" for x using that dis by auto
  moreover have "dir_records m ?v1 ds = dir_records m v ds" by (rule dir_records_cong [OF wf data])
  moreover have "record_at m ?v1 ds k = record_at m v ds k" "dir_sector m ?v1 ds k = dir_sector m v ds k"
    using data [OF dc] by (simp_all add: record_at_def dir_sector_def)
  ultimately show "dir_records m v' ds = (dir_records m v ds)[k := fill_record (record_at m v ds k) 0 ?e]"
    using dir_records_put_record [OF wf ch1 k] len by simp
  have "vdata ?v2 d = wiped m"
    using dc dis put_record_frame(3) [of d m ds k] by (metis fun_upd_same vol_alloc_simps(2))
  from new_directory_records [OF wf chd this] show "dir_records m v' [d] =
      fill_record (replicate 32 0) 0 \<lparr>ename = dot_name, eattr = 16, efstCluster = of_nat d, esize = 0\<rparr> #
      fill_record (replicate 32 0) 0 \<lparr>ename = dotdot_name, eattr = 16, efstCluster = c, esize = 0\<rparr> #
      replicate (dir_capacity m [d] - 2) (replicate 32 0)"
    by (simp add: v'_def vol_mkdir_def)
qed

section \<open>Removal\<close>

definition record_cluster :: "bytes \<Rightarrow> nat \<Rightarrow> u32" where
  "record_cluster b off = push_bit 16 (ucast (load16 b (off + 20))) + ucast (load16 b (off + 26))"

lemma record_cluster_peek:
  assumes "off + 32 \<le> length b"
  shows "record_cluster b off = record_cluster (peek 32 off b) 0"
proof -
  have "peek n (off + i) b = peek n i (peek 32 off b)" if "i + n \<le> 32" for n i
    using assms that by (intro nth_equalityI) (auto simp: peek_nth add.assoc)
  then show ?thesis by (simp add: record_cluster_def load16_def)
qed

text \<open>
  \<open>removeEntryFromDirectory\<close> on record \<open>k\<close> of the directory \<open>ds\<close>, when the record's first
  cluster starts the chain \<open>fs\<close> and \<open>fs\<close> is not the directory's own chain.
\<close>

text \<open>The mark of a removed record changes the first byte of that record and no other one.\<close>

lemma mark_removed_records:
  assumes wf: "wf_meta m" and ch: "chain m v ds" and k: "k < dir_capacity m ds" and len: "length (dir_sector m v ds k) = 512"
  shows "dir_records m (put_sector (dir_cluster m ds k) (dir_index m k) ((dir_sector m v ds k)[32 * (k mod 16) := 0xE5]) v) ds =
    (dir_records m v ds)[k := (dir_records m v ds ! k)[0 := 0xE5]]"
proof -
  let ?b = "dir_sector m v ds k" and ?off = "32 * (k mod 16)"
  let ?w = "put_sector (dir_cluster m ds k) (dir_index m k) (?b[?off := 0xE5]) v"
  have off: "?off + 32 \<le> length ?b" using record_offset [of k] len by simp
  have "record_at m ?w ds j = (if j = k then (record_at m v ds k)[0 := 0xE5] else record_at m v ds j)"
    if j: "j < dir_capacity m ds" for j
  proof -
    have sec: "dir_sector m v ds j = ?b" if "j div 16 = k div 16"
      using dir_position_inj [OF wf chain_distinct [OF wf ch] j k] that by (simp add: dir_sector_def)
    show ?thesis
      unfolding record_at_put_sector [OF wf ch j k]
      using off len sec record_other [of j k] record_offset [of j]
        peek_poke_inner [of ?off 32 ?b 0 "[0xE5]"] peek_poke_other [of ?off "[0xE5]" ?b "32 * (j mod 16)" 32]
      by (auto simp: record_at_def poke_single)
  qed
  then show ?thesis using k by (intro nth_equalityI) (auto simp: dir_records_def nth_list_update)
qed

lemma removeEntry_spec:
  assumes wf: "wf_meta m" and s: "fs_inv m s" and ch: "chain m (vol m s) (unat c # cs)"
    and k: "unat k < dir_capacity m (unat c # cs)"
    and f: "record_cluster (dir_records m (vol m s) (unat c # cs) ! unat k) 0 = f"
    and fs: "chain m (vol m s) (unat f # fs)"
  shows "\<exists>s'. removeEntryFromDirectory m c k s = Inr ((), s') \<and> fs_inv m s' \<and>
    dir_records m (vol m s') (unat c # cs) =
      (dir_records m (vol m s) (unat c # cs))[unat k := (dir_records m (vol m s) (unat c # cs) ! unat k)[0 := 0xE5]] \<and>
    vfat (vol m s') = (\<lambda>x. if x \<in> set (unat f # fs) then 0 else vfat (vol m s) x) \<and>
    (\<forall>x. x \<notin> set (unat c # cs) \<longrightarrow> vdata (vol m s') x = vdata (vol m s) x) \<and>
    vrest (vol m s') = vrest (vol m s)"
proof -
  let ?ds = "unat c # cs" and ?v = "vol m s" and ?k = "unat k"
  let ?b = "dir_sector m ?v ?ds ?k" and ?off = "32 * (unat k mod 16)"
  let ?cl = "dir_cluster m ?ds ?k" and ?i = "dir_index m ?k"
  have len: "length ?b = 512" by (rule length_dir_sector [OF wf s ch k])
  obtain s1 where s1: "getToDirEl m c k s = Inr ((?off, clusterSector m (of_nat ?cl) + of_nat ?i), s1)"
      "fs_inv m s1" "disk s1 = disk s" "diskBuffer s1 = ?b"
    using getToDirEl_spec [OF wf s ch k] by auto
  have v1: "vol m s1 = ?v" using s1(3) by (rule vol_disk)
  have cl: "valid_cluster m ?cl" "unat (of_nat ?cl :: u32) = ?cl"
    using dir_cluster_valid [OF wf ch k] not_eoc_cluster(2) [OF wf] by (auto simp: valid_cluster_def)
  have off: "?off + 32 \<le> length ?b" using record_offset [of ?k] len by simp
  define s2 where "s2 = write_sector (hardDrive m) (clusterSector m (of_nat ?cl) + of_nat ?i)
    (s1\<lparr>diskBuffer := ?b[?off := 0xE5]\<rparr>)"
  have s2: "fs_inv m s2" "vol m s2 = put_sector ?cl ?i (?b[?off := 0xE5]) ?v"
    using write_data_sector [OF wf s1(2) _ dir_position(2) [OF wf k], of "of_nat ?cl" "?b[?off := 0xE5]"]
      cl len v1 by (simp_all add: s2_def)
  have fc: "record_cluster ?b ?off = f"
    using f k record_cluster_peek [OF off] by (simp add: dir_records_def record_at_def)
  have "chain m (vol m s2) (unat f # fs)"
    using fs chain_cong [of "unat f # fs" "vol m s2" ?v m] s2(2) by simp
  then obtain s3 where s3: "remove_chain m f s2 = Some s3" "fs_inv m s3"
      "vol m s3 = vol_free (unat f # fs) (vol m s2)"
    using remove_chain_spec [OF wf s2(1)] by blast
  have rm: "removeEntryFromDirectory m c k s = Inr ((), s3)"
    using s1(1,4) s3(1) fc
    by (simp add: removeEntryFromDirectory_def Let_def removeFATChain_def s2_def record_cluster_def)
  have recs: "dir_records m (vol m s2) ?ds = (dir_records m ?v ?ds)[?k := (dir_records m ?v ?ds ! ?k)[0 := 0xE5]]"
    unfolding s2(2) by (rule mark_removed_records [OF wf ch k len])
  have "dir_records m (vol m s3) ?ds = dir_records m (vol m s2) ?ds"
    by (rule dir_records_cong [OF wf]) (simp add: s3(3) vol_free_def)
  moreover have "?cl \<in> set ?ds"
    using dir_position(1) [OF wf k] by (simp add: dir_cluster_def del: set_simps)
  ultimately show ?thesis
    using rm s3 s2(2) recs by (intro exI [of _ s3]) (auto simp: vol_free_def)
qed

text \<open>
  A chain that leads to cluster 0 is never left once the entry of cluster 0 is 0: the
  recursion of \<open>removeFATChain\<close> then never ends.
\<close>

lemma remove_chain_zero:
  assumes "remove_chain m c s = Some r" "wf_meta m" "fs_inv m s" "c = 0" "vfat (vol m s) 0 = 0"
  shows False
  using assms
proof (induction rule: remove_chain.raw_induct [rotated, consumes 1, case_names step])
  case (step rc m c s y)
  have z: "unat (0 :: u32) < nclusters m" using nclusters_bound(2) [OF step(3)] by simp
  note cut = cut_entry [OF step(3,4) z]
  have "rc m 0 (cut_entry m 0 s) = Some y"
    using step(2,5,6) cut(3) by (simp add: Let_def cut_entry_def)
  then show ?case by (rule step(1)) (use step cut in simp_all)
qed

end
