(* ===== verification/Fat32_Correct.thy ===== *)
theory Fat32_Correct
  imports Fat32_Ops Console
begin

text \<open>
  The properties of the file system, and a small volume on which each of them applies: one
  sector per cluster, two copies of a one-sector table, the root directory in cluster 2
  and every other cluster free.
\<close>

section \<open>A volume\<close>

definition m0 :: FAT32_Metadata where
  "m0 = \<lparr>sectorPerCluster = 1, rootCluster = 2, fatLBA = 1, fstClusterLBA = 3, sectorPerFat = 1,
         nbFats = 2, hardDrive = \<lparr>channel = 0, drive = 0\<rparr>\<rparr>"

definition fat0 :: bytes where
  "fat0 = store32 (store32 (store32 (replicate 512 0) 0 EOC) 4 EOC) 8 EOC"

definition s0 :: fs where
  "s0 = \<lparr>disk = (\<lambda>dr n. if n = 1 \<or> n = 2 then fat0 else replicate 512 0), diskBuffer = replicate 512 0\<rparr>"

text \<open>A disk whose table has no free entry.\<close>

definition full0 :: fs where
  "full0 = \<lparr>disk = (\<lambda>dr n. replicate 512 1), diskBuffer = replicate 512 0\<rparr>"

text \<open>The same volume with a root directory whose sixteen records are all used.\<close>

definition s1 :: fs where
  "s1 = \<lparr>disk = (\<lambda>dr n. if n = 1 \<or> n = 2 then fat0 else replicate 512 1), diskBuffer = replicate 512 0\<rparr>"

definition e1 :: FAT32_entry where
  "e1 = \<lparr>ename = blank_name, eattr = 16, efstCluster = 3, esize = 0\<rparr>"

text \<open>The same volume with one file, in cluster 3, named by the first record of the root.\<close>

definition fat2 :: bytes where
  "fat2 = store32 fat0 12 EOC"

definition root2 :: bytes where
  "root2 = poke 0 [0x41] (poke 26 [3, 0] (replicate 512 0))"

definition s2 :: fs where
  "s2 = \<lparr>disk = (\<lambda>dr n. if n = 1 \<or> n = 2 then fat2 else if n = 3 then root2 else replicate 512 0),
         diskBuffer = replicate 512 0\<rparr>"

text \<open>A boot sector for this geometry.\<close>

definition boot0 :: bytes where
  "boot0 = poke 0x1FE [0x55, 0xAA] (poke 0x24 [1, 0, 0, 0] (poke 0x0B [0, 2, 1, 1, 0, 2] (replicate 512 0)))"

definition s3 :: fs where
  "s3 = \<lparr>disk = (\<lambda>dr n. boot0), diskBuffer = replicate 512 0\<rparr>"

lemma m0_simps [simp]:
  "sectorPerCluster m0 = 1" "nbFats m0 = 2" "sectorPerFat m0 = 1" "fatLBA m0 = 1"
  "nclusters m0 = 128" "fat_base m0 = 1" "data_base m0 = 3"
  by (simp_all add: m0_def nclusters_def fat_base_def data_base_def)

lemma wf_m0: "wf_meta m0"
  by (simp add: wf_meta_def) (simp add: m0_def)

lemma length_fat0 [simp]: "length fat0 = 512"
  by (simp add: fat0_def)

lemma load_fat0:
  assumes "c < 128"
  shows "load32 fat0 (4 * c) = (if c < 3 then EOC else 0)"
proof -
  have z: "peek 4 (4 * c) (replicate 512 0) = replicate 4 (0 :: u8)"
    using assms by (simp add: peek_def)
  have "load32 (replicate 512 0) (4 * c) = 0"
    unfolding load32_def z by (simp add: numeral_eq_Suc)
  then show ?thesis
    using assms
    by (cases "c = 0"; cases "c = 1"; cases "c = 2")
      (simp_all add: fat0_def load_store_same load32_store32_other)
qed

lemma fs_inv_s0: "fs_inv m0 s0"
proof -
  have "\<forall>k<2. k = 0 \<or> k = (1 :: nat)" by auto
  then show ?thesis
    by (auto simp: fs_inv_def fs_ok_def mirrored_def s0_def m0_def fat_base_def)
qed

lemma vfat_s0: "c < 128 \<Longrightarrow> vfat (vol m0 s0) c = (if c < 3 then EOC else 0)"
  by (simp add: vfat_vol s0_def load_fat0)

lemma vdata_s0: "2 \<le> c \<Longrightarrow> c < 128 \<Longrightarrow> vdata (vol m0 s0) c 0 = replicate 512 0"
  by (simp add: vdata_vol valid_cluster_def s0_def cluster_sector_def)

lemma chain_s0: "chain m0 (vol m0 s0) [2]"
  by (simp add: valid_cluster_def vfat_s0)

lemma free_s0: "is_free m0 (vol m0 s0) c \<longleftrightarrow> 3 \<le> c \<and> c < 128"
  by (auto simp: is_free_def valid_cluster_def vfat_s0 split: if_splits)

lemma card_free_s0: "card (free_clusters m0 (vol m0 s0)) = 125"
proof -
  have "free_clusters m0 (vol m0 s0) = {3..<128}"
    by (auto simp: free_clusters_def free_s0)
  then show ?thesis by simp
qed

lemma capacity_s0 [simp]: "dir_capacity m0 [c] = 16"
  by (simp add: dir_capacity_def)

lemma unused_s0: "j < 16 \<Longrightarrow> \<not> record_used m0 (vol m0 s0) [2] j"
  by (simp add: record_used_def dir_sector_def dir_cluster_def dir_index_def vdata_s0)

lemma full0_not_free: "\<not> is_free m0 (vol m0 full0) c"
proof
  assume "is_free m0 (vol m0 full0) c"
  then have lt: "c < 128" and v: "vfat (vol m0 full0) c = 0"
    by (auto simp: is_free_def valid_cluster_def)
  from lt v have c: "load32 (disk full0 (hardDrive m0) (1 + c div 128)) (4 * (c mod 128)) = 0"
    using vfat_vol [of c m0 full0] by simp
  have "replicate 4 (1 :: u8) = [1, 1, 1, 1]" by (simp add: numeral_eq_Suc)
  then have p: "peek 4 (4 * (c mod 128)) (replicate 512 1) = [1, 1, 1, 1 :: u8]"
    using lt by (simp add: peek_def)
  have "load32 (replicate 512 1) (4 * (c mod 128)) \<noteq> 0"
    unfolding load32_def p by simp
  moreover have "disk full0 (hardDrive m0) (1 + c div 128) = replicate 512 1" by (simp only: full0_def fs.simps)
  ultimately show False using c by (simp only: not_True_eq_False)
qed

lemmas volume_s0 = wf_m0 fs_inv_s0 chain_s0 free_s0 card_free_s0 unused_s0

lemma vfat_s1: "vfat (vol m0 s1) = vfat (vol m0 s0)"
  by (simp add: vol_def s0_def s1_def cong: if_cong)

lemma fs_inv_s1: "fs_inv m0 s1"
proof -
  have "\<forall>k<2. k = 0 \<or> k = (1 :: nat)" by auto
  then show ?thesis
    by (auto simp: fs_inv_def fs_ok_def mirrored_def s1_def m0_def fat_base_def)
qed

lemma used_s1: "j < 16 \<Longrightarrow> record_used m0 (vol m0 s1) [2] j"
  by (simp add: record_used_def dir_sector_def dir_cluster_def dir_index_def vdata_vol
      valid_cluster_def s1_def cluster_sector_def)

lemma free_s1: "is_free m0 (vol m0 s1) c \<longleftrightarrow> 3 \<le> c \<and> c < 128"
  using free_s0 by (simp add: is_free_def vfat_s1)

lemma chain_s1: "chain m0 (vol m0 s1) [2]"
  using chain_s0 by (simp add: vfat_s1)

lemmas volume_s1 = wf_m0 fs_inv_s1 chain_s1 free_s1 used_s1

lemma length_s2 [simp]: "length fat2 = 512" "length root2 = 512"
  by (simp_all add: fat2_def root2_def)

lemma fs_inv_s2: "fs_inv m0 s2"
proof -
  have "\<forall>k<2. k = 0 \<or> k = (1 :: nat)" by auto
  then show ?thesis
    by (auto simp: fs_inv_def fs_ok_def mirrored_def s2_def m0_def fat_base_def)
qed

lemma vfat_s2: "c < 4 \<Longrightarrow> vfat (vol m0 s2) c = EOC"
  using load_fat0 [of c]
  by (cases "c = 3") (simp_all add: vfat_vol s2_def fat2_def load_store_same load32_store32_other)

lemma chain_s2: "chain m0 (vol m0 s2) [2]" "chain m0 (vol m0 s2) [3]"
  by (simp_all add: valid_cluster_def vfat_s2)

lemma record_s2: "record_cluster (dir_records m0 (vol m0 s2) [2] ! 0) 0 = 3"
proof -
  have "vdata (vol m0 s2) 2 0 = root2"
    by (simp add: vdata_vol valid_cluster_def s2_def cluster_sector_def)
  then have "dir_records m0 (vol m0 s2) [2] ! 0 = peek 32 0 root2"
    by (simp add: dir_records_def record_at_def dir_sector_def dir_cluster_def dir_index_def)
  moreover have "peek 2 20 (replicate 512 0) = [0, 0 :: u8]" by (simp add: peek_def numeral_2_eq_2)
  then have "load16 root2 20 = 0" "load16 root2 26 = 3"
    by (simp_all add: load16_def root2_def peek_poke_other peek_poke_same)
  ultimately show ?thesis
    using record_cluster_peek [of 0 root2] by (simp add: record_cluster_def)
qed

lemma boot0_fields:
  "load16 boot0 0x1FE = 0xAA55" "load16 boot0 0x0B = 512" "load16 boot0 0x0E = 1" "load32 boot0 0x24 = 1"
  "boot0 ! 0x0D = 1" "boot0 ! 0x10 = 2"
proof -
  let ?z = "replicate 512 0 :: bytes" and ?x = "[0, 2, 1, 1, 0, 2] :: bytes"
  have p: "peek 2 0x0B (poke 0x0B ?x ?z) = [0, 2]" "peek 2 0x0E (poke 0x0B ?x ?z) = [1, 0]"
    by (simp_all add: peek_def poke_def numeral_2_eq_2)
  show "load16 boot0 0x1FE = 0xAA55" "load16 boot0 0x0B = 512" "load16 boot0 0x0E = 1" "load32 boot0 0x24 = 1"
    by (simp_all add: load16_def load32_def boot0_def peek_poke_same peek_poke_other p)
  show "boot0 ! 0x0D = 1" "boot0 ! 0x10 = 2"
    by (simp_all add: boot0_def nth_poke)
qed

lemma readBootSector_ok:
  assumes "b = disk s hdd (unat a)"
    and "0 < unat (b ! 0x0D)" "0 < unat (b ! 0x10)" "0 < unat (load32 b 0x24)"
    and "unat a + unat (load16 b 0x0E) + unat (b ! 0x10) * unat (load32 b 0x24)
      + unat (b ! 0x0D) * (128 * unat (load32 b 0x24)) \<le> 2 ^ 28"
    and "load16 b 0x1FE = 0xAA55" "load16 b 0x0B = 512"
  shows "\<exists>m s'. readBootSector hdd a s = Inr (m, s') \<and> wf_meta m \<and> hardDrive m = hdd \<and> disk s' = disk s \<and>
    rootCluster m = load32 b 0x2C \<and> fat_base m = unat a + unat (load16 b 0x0E) \<and>
    nclusters m = 128 * unat (load32 b 0x24) \<and> data_base m = fat_base m + unat (b ! 0x10) * unat (load32 b 0x24)"
proof -
  let ?lba = "a + ucast (load16 b 0x0E) :: u32"
  have u: "unat (ucast (b ! 0x0D) :: u32) = unat (b ! 0x0D)" "unat (ucast (b ! 0x10) :: u32) = unat (b ! 0x10)"
      "unat (ucast (load16 b 0x0E) :: u32) = unat (load16 b 0x0E)"
    using unat_lt_2p [of "b ! 0x0D"] unat_lt_2p [of "b ! 0x10"] unat_lt_2p [of "load16 b 0x0E"]
    by (simp_all add: unat_ucast)
  have lba: "unat ?lba = unat a + unat (load16 b 0x0E)"
    using assms(5) u(3) by (simp add: unat_word_ariths)
  show ?thesis
    using assms u lba unat_lt_2p [of "b ! 0x0D"] unat_lt_2p [of "b ! 0x10"]
    by (simp add: readBootSector_def Let_def wf_meta_def nclusters_def fat_base_def data_base_def)
qed

section \<open>Properties\<close>

text \<open>C3:
  Writing a file of less than 64 KiB into a directory with an unused record, on a volume
  with enough free clusters, succeeds; the record it took then gives the name, the size
  and the first cluster, and reading that many bytes from there returns what was written
  and changes nothing.
\<close>

theorem write_then_read:
  assumes "wf_meta m" "fs_inv m s" "chain m (vol m s) (unat c # cs)"
    and "unat k < dir_capacity m (unat c # cs)" "\<not> record_used m (vol m s) (unat c # cs) (unat k)"
      "\<And>j. j < unat k \<Longrightarrow> record_used m (vol m s) (unat c # cs) j"
    and "n < 0x10000"
    and "sectors_for n div unat (sectorPerCluster m) < card (free_clusters m (vol m s))"
  shows "\<exists>s1 s2 s3 f. writeFile m c name buf (of_nat n) s = Inr ((), s1) \<and>
    getMetadataFileFromDirectory m c k e0 s1 = Inr (f, s2) \<and>
    ename f = readFileName (writeFileName blank_name name) (ename e0) \<and> esize f = of_nat n \<and>
    isDirectory f = 0 \<and>
    readFile m (efstCluster f) (esize f) s2 = Inr (map buf [0..<n], s3) \<and> vol m s3 = vol m s1"
  using assms by (rule write_read_back)

theorem write_then_read_witness:
  "\<exists>s1 s2 s3 f. writeFile m0 2 (\<lambda>_. 0) (\<lambda>i. of_nat i) (of_nat 700) s0 = Inr ((), s1) \<and>
    getMetadataFileFromDirectory m0 2 0 \<lparr>ename = blank_name, eattr = 0, efstCluster = 0, esize = 0\<rparr> s1
      = Inr (f, s2) \<and>
    ename f = readFileName (writeFileName blank_name (\<lambda>_. 0)) blank_name \<and> esize f = of_nat 700 \<and>
    isDirectory f = 0 \<and>
    readFile m0 (efstCluster f) (esize f) s2 = Inr (map (\<lambda>i. of_nat i) [0..<700], s3) \<and> vol m0 s3 = vol m0 s1"
  using write_then_read [of m0 s0 2 "[]" 0 700 "\<lambda>_. 0" "\<lambda>i. of_nat i"
      "\<lparr>ename = blank_name, eattr = 0, efstCluster = 0, esize = 0\<rparr>"] volume_s0
  by (simp add: sectors_for_def)

text \<open>C26:
  An allocation takes the lowest free cluster: it is marked as the end of a chain in
  every copy of the table, wiped, and linked behind the given last cluster, and nothing
  else on the disk changes.
\<close>

theorem allocate_refines:
  assumes "wf_meta m" "fs_inv m s" "unat prev < nclusters m"
    and "is_free m (vol m s) c" "\<And>j. j < c \<Longrightarrow> \<not> is_free m (vol m s) j"
  shows "\<exists>s'. allocateFreeCluster m prev s = Inr (of_nat c, s') \<and> fs_inv m s' \<and>
    vol m s' = vol_alloc m (unat prev) c (vol m s)"
  using allocateFreeCluster_spec [OF assms(2,1,3-5)] .

theorem allocate_refines_witness:
  "\<exists>s'. allocateFreeCluster m0 2 s0 = Inr (of_nat 3, s') \<and> fs_inv m0 s' \<and>
    vol m0 s' = vol_alloc m0 (unat (2 :: u32)) 3 (vol m0 s0)"
  using allocate_refines [of m0 s0 2 3] volume_s0 by simp

text \<open>On a volume with no free cluster an allocation stops with its failure message.\<close>

theorem allocate_full:
  assumes "wf_meta m" "\<And>c. \<not> is_free m (vol m s) c"
  shows "allocateFreeCluster m prev s = Inl (Panic ''no new cluster can be allocated'')"
  using assms by (rule allocateFreeCluster_full)

theorem allocate_full_witness:
  "allocateFreeCluster m0 0 full0 = Inl (Panic ''no new cluster can be allocated'')"
  using allocate_full [OF wf_m0, of full0 0] full0_not_free by simp

text \<open>
  Along a chain, \<open>nextCluster\<close> returns the next cluster without a change; after the last
  one it appends the lowest free cluster.
\<close>

theorem next_cluster:
  assumes "wf_meta m" "fs_inv m s"
  shows "(chain m (vol m s) (unat c # d # cs) \<longrightarrow>
      (\<exists>s'. nextCluster m c s = Inr (of_nat d, s') \<and> fs_inv m s' \<and> disk s' = disk s)) \<and>
    (chain m (vol m s) [unat c] \<and> is_free m (vol m s) d \<and> (\<forall>j<d. \<not> is_free m (vol m s) j) \<longrightarrow>
      (\<exists>s'. nextCluster m c s = Inr (of_nat d, s') \<and> fs_inv m s' \<and>
        vol m s' = vol_alloc m (unat c) d (vol m s)))"
  using nextCluster_inner [OF assms] nextCluster_extend [OF assms] by blast

theorem next_cluster_witness:
  "\<exists>s'. nextCluster m0 2 s0 = Inr (of_nat 3, s') \<and> fs_inv m0 s' \<and>
    vol m0 s' = vol_alloc m0 (unat (2 :: u32)) 3 (vol m0 s0)"
  using next_cluster [of m0 s0 2 3 "[]"] volume_s0 by (simp del: chain.simps)

text \<open>C22:
  A directory is a list of 32-byte records. Adding an entry replaces exactly the first
  unused record, and the new record decodes to the entry, with its size taken modulo
  \<open>2 ^ 16\<close>.
\<close>

theorem add_entry_refines:
  assumes "wf_meta m" "fs_inv m s" "chain m (vol m s) (unat c # cs)"
    and "k < dir_capacity m (unat c # cs)" "\<not> record_used m (vol m s) (unat c # cs) k"
      "\<And>j. j < k \<Longrightarrow> record_used m (vol m s) (unat c # cs) j"
  shows "\<exists>s' r. addFileToDirectory m c e s = Inr ((), s') \<and> fs_inv m s' \<and>
    dir_records m (vol m s') (unat c # cs) = (dir_records m (vol m s) (unat c # cs))[k := r] \<and>
    parse_record r 0 old = stored_entry e old \<and> vfat (vol m s') = vfat (vol m s) \<and>
    (\<forall>x. x \<notin> set (unat c # cs) \<longrightarrow> vdata (vol m s') x = vdata (vol m s) x) \<and>
    vrest (vol m s') = vrest (vol m s)"
proof -
  obtain s' where s': "addFileToDirectory m c e s = Inr ((), s')" "fs_inv m s'"
      "vol m s' = put_record m (unat c # cs) k e (vol m s)"
    using addFileToDirectory_spec [OF assms] by blast
  have "dir_cluster m (unat c # cs) k \<in> set (unat c # cs)"
    using dir_position(1) [OF assms(1,4)] by (simp add: dir_cluster_def del: set_simps)
  then have "vdata (vol m s') x = vdata (vol m s) x" if "x \<notin> set (unat c # cs)" for x
    using that s'(3) by (metis put_record_frame(3))
  then show ?thesis
    using s' dir_records_put_record [OF assms(1,3,4) length_dir_sector [OF assms(1-4)]] length_record_at [OF assms(1-4)]
    by (auto simp: parse_fill_record)
qed

theorem add_entry_refines_witness:
  "\<exists>s' r. addFileToDirectory m0 2 \<lparr>ename = dot_name, eattr = 16, efstCluster = 5, esize = 70000\<rparr> s0
      = Inr ((), s') \<and> fs_inv m0 s' \<and>
    dir_records m0 (vol m0 s') [2] = (dir_records m0 (vol m0 s0) [2])[0 := r] \<and>
    parse_record r 0 blank_name
      = stored_entry \<lparr>ename = dot_name, eattr = 16, efstCluster = 5, esize = 70000\<rparr> blank_name \<and>
    vfat (vol m0 s') = vfat (vol m0 s0)"
  using add_entry_refines [of m0 s0 2 "[]" 0
      "\<lparr>ename = dot_name, eattr = 16, efstCluster = 5, esize = 70000\<rparr>" blank_name] volume_s0
  by (simp del: chain.simps) blast

text \<open>When every record of a directory is used, adding an entry appends the lowest free
  cluster to the directory's chain and takes the first record of it.
\<close>

theorem add_entry_extends:
  assumes "wf_meta m" "fs_inv m s" "chain m (vol m s) (unat c # cs)"
    and "\<And>j. j < dir_capacity m (unat c # cs) \<Longrightarrow> record_used m (vol m s) (unat c # cs) j"
    and "is_free m (vol m s) d" "\<And>j. j < d \<Longrightarrow> \<not> is_free m (vol m s) j"
  shows "\<exists>s'. addFileToDirectory m c e s = Inr ((), s') \<and> fs_inv m s' \<and>
    vol m s' = put_record m ((unat c # cs) @ [d]) (dir_capacity m (unat c # cs)) e
      (vol_alloc m (last (unat c # cs)) d (vol m s))"
  using assms by (rule addFileToDirectory_extends)

theorem add_entry_extends_witness:
  "\<exists>s'. addFileToDirectory m0 2 e1 s1 = Inr ((), s') \<and> fs_inv m0 s' \<and>
    vol m0 s' = put_record m0 [2, 3] 16 e1 (vol_alloc m0 2 3 (vol m0 s1))"
  using add_entry_extends [of m0 s1 2 "[]" 3 e1] volume_s1 by simp

text \<open>C23:
  \<open>mkdir\<close> takes the lowest free cluster as the new directory, names it in the first
  unused record of the parent, and leaves in it exactly the two links, to itself and to
  the parent, and unused records.
\<close>

theorem mkdir_creates:
  assumes "wf_meta m" "fs_inv m s" "chain m (vol m s) (unat c # cs)"
    and "k < dir_capacity m (unat c # cs)" "\<not> record_used m (vol m s) (unat c # cs) k"
      "\<And>j. j < k \<Longrightarrow> record_used m (vol m s) (unat c # cs) j"
    and "is_free m (vol m s) d" "\<And>j. j < d \<Longrightarrow> \<not> is_free m (vol m s) j"
  shows "\<exists>s' r r0 r1. mkdir m c name s = Inr ((), s') \<and> fs_inv m s' \<and>
    chain m (vol m s') (unat c # cs) \<and> chain m (vol m s') [d] \<and>
    dir_records m (vol m s') (unat c # cs) = (dir_records m (vol m s) (unat c # cs))[k := r] \<and>
    parse_record r 0 old = stored_entry
      \<lparr>ename = writeFileName blank_name name, eattr = 16, efstCluster = of_nat d, esize = 0\<rparr> old \<and>
    dir_records m (vol m s') [d] = r0 # r1 # replicate (dir_capacity m [d] - 2) (replicate 32 0) \<and>
    parse_record r0 0 old = stored_entry \<lparr>ename = dot_name, eattr = 16, efstCluster = of_nat d, esize = 0\<rparr> old \<and>
    parse_record r1 0 old = stored_entry \<lparr>ename = dotdot_name, eattr = 16, efstCluster = c, esize = 0\<rparr> old"
proof -
  obtain s' where s': "mkdir m c name s = Inr ((), s')" "fs_inv m s'"
      "vol m s' = vol_mkdir m c (unat c # cs) k (writeFileName blank_name name) d (vol m s)"
    using mkdir_spec [OF assms] by blast
  note r = vol_mkdir_records [OF assms(1,3,4) length_dir_sector [OF assms(1-4)] assms(7),
      of c "writeFileName blank_name name", folded s'(3)]
  have len: "length (record_at m (vol m s) (unat c # cs) k) = 32" by (rule length_record_at [OF assms(1-4)])
  show ?thesis
    by (intro exI conjI, rule s'(1), rule s'(2), rule r(1), rule r(2), rule r(3), rule parse_fill_record [OF len],
        rule r(4)) (simp_all add: parse_fill_record)
qed

theorem mkdir_creates_witness:
  "\<exists>s' r r0 r1. mkdir m0 2 (\<lambda>_. 0) s0 = Inr ((), s') \<and> fs_inv m0 s' \<and>
    chain m0 (vol m0 s') [unat (2 :: u32)] \<and> chain m0 (vol m0 s') [3] \<and>
    dir_records m0 (vol m0 s') [unat (2 :: u32)] = (dir_records m0 (vol m0 s0) [unat (2 :: u32)])[0 := r] \<and>
    parse_record r 0 blank_name = stored_entry
      \<lparr>ename = writeFileName blank_name (\<lambda>_. 0), eattr = 16, efstCluster = of_nat 3, esize = 0\<rparr> blank_name \<and>
    dir_records m0 (vol m0 s') [3] = r0 # r1 # replicate (dir_capacity m0 [3] - 2) (replicate 32 0) \<and>
    parse_record r0 0 blank_name
      = stored_entry \<lparr>ename = dot_name, eattr = 16, efstCluster = of_nat 3, esize = 0\<rparr> blank_name \<and>
    parse_record r1 0 blank_name
      = stored_entry \<lparr>ename = dotdot_name, eattr = 16, efstCluster = 2, esize = 0\<rparr> blank_name"
proof (rule mkdir_creates)
  show "chain m0 (vol m0 s0) [unat (2 :: u32)]" using chain_s0 by (simp del: chain.simps)
  show "\<not> record_used m0 (vol m0 s0) [unat (2 :: u32)] 0" using unused_s0 [of 0] by simp
qed (use volume_s0 in simp_all)

text \<open>C24:
  Removing record \<open>k\<close> marks it with 0xE5 and frees exactly the clusters of the chain that
  starts at its first cluster; every other record, table entry and cluster is kept.
\<close>

theorem remove_entry_frees:
  assumes "wf_meta m" "fs_inv m s" "chain m (vol m s) (unat c # cs)"
    and "unat k < dir_capacity m (unat c # cs)"
    and "record_cluster (dir_records m (vol m s) (unat c # cs) ! unat k) 0 = f"
    and "chain m (vol m s) (unat f # fs)"
  shows "\<exists>s'. removeEntryFromDirectory m c k s = Inr ((), s') \<and> fs_inv m s' \<and>
    dir_records m (vol m s') (unat c # cs) =
      (dir_records m (vol m s) (unat c # cs))[unat k := (dir_records m (vol m s) (unat c # cs) ! unat k)[0 := 0xE5]] \<and>
    vfat (vol m s') = (\<lambda>x. if x \<in> set (unat f # fs) then 0 else vfat (vol m s) x) \<and>
    (\<forall>x. x \<notin> set (unat c # cs) \<longrightarrow> vdata (vol m s') x = vdata (vol m s) x) \<and>
    vrest (vol m s') = vrest (vol m s)"
  using assms by (rule removeEntry_spec)

theorem remove_entry_frees_witness:
  "\<exists>s'. removeEntryFromDirectory m0 2 0 s2 = Inr ((), s') \<and> fs_inv m0 s' \<and>
    dir_records m0 (vol m0 s') [2] =
      (dir_records m0 (vol m0 s2) [2])[0 := (dir_records m0 (vol m0 s2) [2] ! 0)[0 := 0xE5]] \<and>
    vfat (vol m0 s') = (\<lambda>x. if x \<in> set [3] then 0 else vfat (vol m0 s2) x) \<and>
    (\<forall>x. x \<notin> set [2] \<longrightarrow> vdata (vol m0 s') x = vdata (vol m0 s2) x) \<and>
    vrest (vol m0 s') = vrest (vol m0 s2)"
  using remove_entry_frees [of m0 s2 2 "[]" 0 3 "[]"] wf_m0 fs_inv_s2 chain_s2 record_s2
  by (simp del: chain.simps)

text \<open>C35:
  For every name of the 8.3 form (a base of one to eight bytes, an extension of at most
  three) in a buffer \<open>f\<close>: \<open>writeFileName\<close> stores it in the directory's format exactly when the
  extension has three bytes, or there is none and the base is shorter than eight bytes
  (or the three bytes after the terminator happen to be spaces); and reading it back gives
  the same string exactly when it is not a base of eight bytes without extension (or a
  space follows the terminator).
\<close>

theorem name_roundtrip:
  assumes "dos_name base ext" "\<And>i. i < length (name_chars base ext) \<Longrightarrow> f i = name_chars base ext ! i"
    "length old = 13"
  shows "(writeFileName blank_name f = fat_name base ext @ drop 11 blank_name \<longleftrightarrow>
      length ext = 3 \<or> ext = [] \<and> (length base < 8 \<or> f 9 = 0x20 \<and> f 10 = 0x20 \<and> f 11 = 0x20)) \<and>
    (take (length (name_chars base ext)) (readFileName (writeFileName blank_name f) old) = name_chars base ext \<longleftrightarrow>
      ext \<noteq> [] \<or> length base < 8 \<or> f 9 = 0x20)"
  using dos_name_roundtrip [OF assms] by blast

text \<open>The witness: \<open>note.tx\<close> comes back although it is not stored as it should be.\<close>

theorem name_roundtrip_witness:
  "writeFileName blank_name (\<lambda>i. (ascii ''note.tx'' @ replicate 5 0) ! i)
      \<noteq> fat_name (ascii ''note'') (ascii ''tx'') @ drop 11 blank_name \<and>
   take 8 (readFileName (writeFileName blank_name (\<lambda>i. (ascii ''note.tx'' @ replicate 5 0) ! i)) blank_name)
      = ascii ''note.tx'' @ [0]"
proof -
  have "name_chars (ascii ''note'') (ascii ''tx'') = ascii ''note.tx'' @ [0]"
    by (simp add: name_chars_def ascii_def)
  moreover have "dos_name (ascii ''note'') (ascii ''tx'')" by (simp add: dos_name_def ascii_def)
  moreover have "length (ascii ''note.tx'') = 7" "length (ascii ''tx'') = 2" by (simp_all add: ascii_def)
  ultimately show ?thesis
    using name_roundtrip [of "ascii ''note''" "ascii ''tx''" "\<lambda>i. (ascii ''note.tx'' @ replicate 5 0) ! i" blank_name]
    by (auto simp: blank_name_def nth_append less_Suc_eq)
qed

text \<open>C39:
  Reading a file whose last byte is in the last sector of its chain also appends the
  lowest free cluster to the chain: a read changes the table.
\<close>

theorem read_allocates:
  assumes "wf_meta m" "fs_inv m s" "chain m (vol m s) (unat c # cs)" "sint b = int n"
    and "sectors_for n = unat (sectorPerCluster m) * Suc (length cs)"
    and "is_free m (vol m s) d" "\<And>j. j < d \<Longrightarrow> \<not> is_free m (vol m s) j"
  shows "\<exists>s'. readFile m c b s = Inr (take n (chain_bytes m (vol m s) (unat c # cs)), s') \<and>
    fs_inv m s' \<and> vol m s' = vol_alloc m (last (unat c # cs)) d (vol m s)"
  using assms by (rule readFile_extends)

theorem read_allocates_witness:
  "\<exists>s'. readFile m0 2 512 s0 = Inr (take 512 (chain_bytes m0 (vol m0 s0) [2]), s') \<and>
    fs_inv m0 s' \<and> vol m0 s' = vol_alloc m0 2 3 (vol m0 s0)"
  using read_allocates [of m0 s0 2 "[]" 512 512 3] volume_s0 by (simp add: sectors_for_def del: chain.simps)

text \<open>A read that stays below the last sector of the chain returns the bytes of the chain and
  leaves the volume as it is.
\<close>

theorem read_returns:
  assumes "wf_meta m" "fs_inv m s" "chain m (vol m s) (unat c # cs)" "sint b = int n"
    and "sectors_for n < unat (sectorPerCluster m) * Suc (length cs)"
  shows "\<exists>s'. readFile m c b s = Inr (take n (chain_bytes m (vol m s) (unat c # cs)), s') \<and>
    fs_inv m s' \<and> vol m s' = vol m s"
  using assms by (rule readFile_spec)

theorem read_returns_witness:
  "\<exists>s'. readFile m0 2 0 s0 = Inr (take 0 (chain_bytes m0 (vol m0 s0) [2]), s') \<and>
    fs_inv m0 s' \<and> vol m0 s' = vol m0 s0"
  using read_returns [of m0 s0 2 "[]" 0 0] volume_s0 by (simp del: chain.simps)

text \<open>C40:
  Once the table entry of cluster 0 is 0, removing a chain that starts at cluster 0 (the
  first cluster of an empty file) never returns.
\<close>

theorem remove_zero_diverges:
  assumes "wf_meta m" "fs_inv m s" "vfat (vol m s) 0 = 0"
  shows "removeFATChain m 0 s = Inl Diverges"
proof (cases "remove_chain m 0 s")
  case None
  then show ?thesis by (simp add: removeFATChain_def)
next
  case (Some r)
  then show ?thesis using remove_chain_zero [OF _ assms(1,2) refl assms(3)] by blast
qed

theorem remove_zero_diverges_witness:
  "removeFATChain m0 0 (cut_entry m0 0 s0) = Inl Diverges"
  using remove_zero_diverges [of m0 "cut_entry m0 0 s0"] cut_entry [OF wf_m0 fs_inv_s0, of 0] wf_m0 by simp

text \<open>A boot sector with the signature, 512-byte sectors and a geometry that fits below the
  driver's address limit is accepted: the metadata is well-formed, the table starts after
  the reserved sectors, and the disk is only read. Without the signature, or with another
  sector size, reading it fails with its message.
\<close>

theorem boot_sector:
  assumes "b = disk s hdd (unat a)"
    and "0 < unat (b ! 0x0D)" "0 < unat (b ! 0x10)" "0 < unat (load32 b 0x24)"
    and "unat a + unat (load16 b 0x0E) + unat (b ! 0x10) * unat (load32 b 0x24)
      + unat (b ! 0x0D) * (128 * unat (load32 b 0x24)) \<le> 2 ^ 28"
  shows "if load16 b 0x1FE \<noteq> 0xAA55 then readBootSector hdd a s = Inl (Panic ''Invalid partition'')
    else if load16 b 0x0B \<noteq> 512 then readBootSector hdd a s =
      Inl (Panic ''This OS only supports hard drives with sectors of 512 bytes'')
    else \<exists>m s'. readBootSector hdd a s = Inr (m, s') \<and> wf_meta m \<and> hardDrive m = hdd \<and> disk s' = disk s \<and>
      fat_base m = unat a + unat (load16 b 0x0E) \<and> nclusters m = 128 * unat (load32 b 0x24) \<and>
      data_base m = fat_base m + unat (b ! 0x10) * unat (load32 b 0x24)"
proof (cases "load16 b 0x1FE = 0xAA55 \<and> load16 b 0x0B = 512")
  case True
  then show ?thesis using readBootSector_ok [OF assms] by fastforce
qed (use assms(1) in \<open>auto simp: readBootSector_def Let_def read_sector_def\<close>)

theorem boot_sector_witness:
  "\<exists>m s'. readBootSector \<lparr>channel = 0, drive = 0\<rparr> 0 s3 = Inr (m, s') \<and> wf_meta m \<and>
    hardDrive m = \<lparr>channel = 0, drive = 0\<rparr> \<and> disk s' = disk s3 \<and> fat_base m = 1 \<and> nclusters m = 128 \<and>
    data_base m = 3"
  using boot_sector [of boot0 s3 "\<lparr>channel = 0, drive = 0\<rparr>" 0] boot0_fields by (auto simp: s3_def)

end
