(* ===== verification/Disk_Driver.thy ===== *)
theory Disk_Driver
  imports Sector_Store
begin

text \<open>
  The ATA driver of kernel/disk.c, at the level of port accesses: \<open>waitdisk\<close>, \<open>pingDisk\<close>,
  \<open>readDiskSector\<close> and \<open>writeDiskSector\<close>. The hardware is a parameter: what an \<open>in\<close> or
  \<open>out\<close> instruction on a port does to the state of the devices. The locale \<open>ata_channel\<close>
  states what the ATA standard says of the ports of the primary channel, and the driver's
  correctness is proved from it. A loop that polls the hardware is a partial function: None
  means that it never ends.
\<close>

section \<open>Port accesses\<close>

record 'd device =
  dev_inb :: "u16 \<Rightarrow> 'd \<Rightarrow> u8 \<times> 'd"
  dev_inw :: "u16 \<Rightarrow> 'd \<Rightarrow> u16 \<times> 'd"
  dev_insl :: "u16 \<Rightarrow> nat \<Rightarrow> 'd \<Rightarrow> bytes \<times> 'd"
  dev_outb :: "u16 \<Rightarrow> u8 \<Rightarrow> 'd \<Rightarrow> 'd"
  dev_outsl :: "u16 \<Rightarrow> bytes \<Rightarrow> 'd \<Rightarrow> 'd"

text \<open>The port \<open>drive.channel + k\<close>, truncated to 16 bits by the instruction.\<close>

definition port :: "drive_info \<Rightarrow> c_int \<Rightarrow> u16" where
  "port dr k = ucast (channel dr + k)"

section \<open>The driver\<close>

partial_function (option) waitdisk :: "'d device \<Rightarrow> bool \<Rightarrow> 'd \<Rightarrow> 'd option" where
  "waitdisk dev DRQ d =
     (let (status, d) = dev_inb dev 0x1F7 d in
      if status AND 0x80 \<noteq> 0 \<or> status AND 0x40 = 0 \<or> DRQ \<and> status AND 0x08 = 0
      then waitdisk dev DRQ d else Some d)"

text \<open>The loop of \<open>pingDisk\<close> that waits until the drive is no longer busy.\<close>

partial_function (option) wait_idle :: "'d device \<Rightarrow> u16 \<Rightarrow> 'd \<Rightarrow> (u8 \<times> 'd) option" where
  "wait_idle dev p d =
     (let (status, d) = dev_inb dev p d in
      if status AND 0x80 \<noteq> 0 then wait_idle dev p d else Some (status, d))"

definition pingDisk :: "'d device \<Rightarrow> drive_info \<Rightarrow> 'd \<Rightarrow> (c_int \<times> 'd) option" where
  "pingDisk dev dr d =
     (let d = dev_outb dev (port dr 6) (drive dr) d;
          d = dev_outb dev (port dr 7) 0xEC d;
          (status, d) = dev_inb dev (port dr 7) d
      in if status = 0 then Some (0, d)
         else
           (case wait_idle dev (port dr 7) d of
              None \<Rightarrow> None
            | Some (status, d) \<Rightarrow>
                if status AND 0x01 \<noteq> 0 then Some (0, d)
                else Some (1, ((\<lambda>d. snd (dev_inw dev (port dr 0) d)) ^^ 256) d)))"

text \<open>The five \<open>outb\<close> that give the sector number, and the command.\<close>

definition select_sector :: "'d device \<Rightarrow> drive_info \<Rightarrow> u32 \<Rightarrow> u8 \<Rightarrow> 'd \<Rightarrow> 'd" where
  "select_sector dev dr n cmd d =
     (let d = dev_outb dev (port dr 2) 1 d;
          d = dev_outb dev (port dr 3) (ucast n) d;
          d = dev_outb dev (port dr 4) (ucast (drop_bit 8 n)) d;
          d = dev_outb dev (port dr 5) (ucast (drop_bit 16 n)) d;
          d = dev_outb dev (port dr 6) (ucast (drop_bit 24 n OR 0xE0 OR (ucast (drive dr) AND push_bit 4 1))) d
      in dev_outb dev (port dr 7) cmd d)"

definition readDiskSector :: "'d device \<Rightarrow> drive_info \<Rightarrow> u32 \<Rightarrow> 'd \<Rightarrow> (bytes \<times> 'd) option" where
  "readDiskSector dev dr n d =
     (case waitdisk dev False d of
        None \<Rightarrow> None
      | Some d \<Rightarrow>
     (case waitdisk dev True (select_sector dev dr n 0x20 d) of
        None \<Rightarrow> None
      | Some d \<Rightarrow> Some (dev_insl dev (port dr 0) (512 div 4) d)))"

definition writeDiskSector :: "'d device \<Rightarrow> drive_info \<Rightarrow> bytes \<Rightarrow> u32 \<Rightarrow> 'd \<Rightarrow> 'd option" where
  "writeDiskSector dev dr b n d =
     (case waitdisk dev False d of
        None \<Rightarrow> None
      | Some d \<Rightarrow>
     (case waitdisk dev True (select_sector dev dr n 0x30 d) of
        None \<Rightarrow> None
      | Some d \<Rightarrow> Some (dev_outb dev (port dr 7) 0xE7 (dev_outsl dev (port dr 0) b d))))"

section \<open>What the ATA standard says\<close>

text \<open>
  A channel is idle, has a sector ready to be read, or waits for the 512 bytes of a sector. It
  is busy for some number of status reads after a command. Registers 3 to 6 hold the 28 bits
  of the sector number, and bit 4 of register 6 chooses the second drive of the channel.
\<close>

datatype ata_mode = Idle | DataIn bytes | DataOut bool nat

definition lba :: "(nat \<Rightarrow> u8) \<Rightarrow> nat" where
  "lba r = unat (r 3) + 2 ^ 8 * unat (r 4) + 2 ^ 16 * unat (r 5) + 2 ^ 24 * (unat (r 6) mod 16)"

definition second_drive :: "(nat \<Rightarrow> u8) \<Rightarrow> bool" where
  "second_drive r \<longleftrightarrow> bit (r 6) 4"

definition status_byte :: "ata_mode \<Rightarrow> u8" where
  "status_byte md = (if md = Idle then 0x50 else 0x58)"

text \<open>The registers that \<open>select_sector\<close> leaves, and the sector they name.\<close>

definition select_regs :: "(nat \<Rightarrow> u8) \<Rightarrow> u8 \<Rightarrow> u32 \<Rightarrow> nat \<Rightarrow> u8" where
  "select_regs r dv n = r(2 := 1, 3 := ucast n, 4 := ucast (drop_bit 8 n), 5 := ucast (drop_bit 16 n),
    6 := ucast (drop_bit 24 n OR 0xE0 OR (ucast dv AND push_bit 4 1)))"

lemma select_head:
  fixes n :: u32 and dv :: u8
  defines "h \<equiv> ucast (drop_bit 24 n OR 0xE0 OR (ucast dv AND push_bit 4 1)) :: u8"
  shows "h AND 0xE0 = 0xE0" "bit h 4 \<longleftrightarrow> bit dv 4 \<or> bit n 28" "unat h mod 16 = unat n div 2 ^ 24 mod 16"
proof -
  have E0: "bit (0xE0 :: u32) i \<longleftrightarrow> i = 5 \<or> i = 6 \<or> i = 7" "bit (0xE0 :: u8) i \<longleftrightarrow> i = 5 \<or> i = 6 \<or> i = 7" for i
    by (auto simp: bit_numeral_rec bit_1_iff split: nat.split)
  have D: "bit (push_bit 4 1 :: u32) i \<longleftrightarrow> i = 4" for i
    by (simp only: bit_push_bit_iff bit_1_iff) auto
  have b: "bit h i \<longleftrightarrow> i < 8 \<and> (bit n (24 + i) \<or> i \<in> {5, 6, 7} \<or> i = 4 \<and> bit dv 4)" for i
    unfolding h_def by (simp only: bit_ucast_iff bit_or_iff bit_and_iff bit_drop_bit_eq E0 D o_def) auto
  show "h AND 0xE0 = 0xE0" by (rule bit_word_eqI) (simp only: bit_and_iff b E0, auto)
  show "bit h 4 \<longleftrightarrow> bit dv 4 \<or> bit n 28" by (auto simp: b)
  have "take_bit 4 h = take_bit 4 (ucast (drop_bit 24 n))"
    by (rule bit_word_eqI) (auto simp: bit_take_bit_iff b bit_ucast_iff bit_drop_bit_eq)
  then have "unat (take_bit 4 h) = unat (take_bit 4 (ucast (drop_bit 24 n) :: u8))" by simp
  then show "unat h mod 16 = unat n div 2 ^ 24 mod 16"
    by (simp add: take_bit_eq_mod unat_mod unat_shiftr unat_ucast mod_mod_cancel)
qed

lemma base_256: "a mod 256 + 256 * (a div 256 mod 256) + 65536 * (a div 65536 mod 256) + 16777216 * (a div 16777216 mod 16)
    = a mod 268435456" for a :: nat
proof -
  have "a mod (256 * (256 * (256 * 16))) = 256 * (a div 256 mod (256 * (256 * 16))) + a mod 256" by (rule mod_mult2_eq)
  moreover have "a div 256 mod (256 * (256 * 16)) = 256 * (a div 256 div 256 mod (256 * 16)) + a div 256 mod 256" by (rule mod_mult2_eq)
  moreover have "a div 256 div 256 mod (256 * 16) = 256 * (a div 256 div 256 div 256 mod 16) + a div 256 div 256 mod 256" by (rule mod_mult2_eq)
  ultimately show ?thesis by (simp add: div_mult2_eq [symmetric])
qed

lemma select_regs:
  "select_regs r dv n 2 = 1" "select_regs r dv n 6 AND 0xE0 = 0xE0"
  "second_drive (select_regs r dv n) \<longleftrightarrow> bit dv 4 \<or> bit n 28" "lba (select_regs r dv n) = unat n mod 2 ^ 28"
proof -
  show "select_regs r dv n 2 = 1" "select_regs r dv n 6 AND 0xE0 = 0xE0"
    "second_drive (select_regs r dv n) \<longleftrightarrow> bit dv 4 \<or> bit n 28"
    using select_head by (simp_all add: select_regs_def second_drive_def)
  have "unat (ucast n :: u8) = unat n mod 256" "unat (ucast (drop_bit 8 n) :: u8) = unat n div 256 mod 256"
    "unat (ucast (drop_bit 16 n) :: u8) = unat n div 65536 mod 256"
    by (simp_all add: unat_ucast unat_shiftr)
  then show "lba (select_regs r dv n) = unat n mod 2 ^ 28"
    using base_256 [of "unat n"] select_head(3) [of n dv] by (simp add: lba_def select_regs_def)
qed

locale ata_channel =
  fixes dev :: "'d device"
    and regs :: "'d \<Rightarrow> nat \<Rightarrow> u8"
    and delay :: "'d \<Rightarrow> nat"
    and mode :: "'d \<Rightarrow> ata_mode"
    and sector :: "'d \<Rightarrow> bool \<Rightarrow> nat \<Rightarrow> bytes"
  assumes busy: "0 < delay d \<Longrightarrow> \<exists>st d'. dev_inb dev 0x1F7 d = (st, d') \<and> bit st 7 \<and>
      delay d' < delay d \<and> regs d' = regs d \<and> mode d' = mode d \<and> sector d' = sector d"
    and ready: "delay d = 0 \<Longrightarrow> dev_inb dev 0x1F7 d = (status_byte (mode d), d)"
    and out_register: "2 \<le> k \<Longrightarrow> k \<le> 6 \<Longrightarrow> delay d = 0 \<Longrightarrow> mode d = Idle \<Longrightarrow>
      regs (dev_outb dev (0x1F0 + of_nat k) v d) = (regs d)(k := v) \<and>
      delay (dev_outb dev (0x1F0 + of_nat k) v d) = 0 \<and> mode (dev_outb dev (0x1F0 + of_nat k) v d) = Idle \<and>
      sector (dev_outb dev (0x1F0 + of_nat k) v d) = sector d"
    and read_command: "delay d = 0 \<Longrightarrow> mode d = Idle \<Longrightarrow> regs d 2 = 1 \<Longrightarrow> regs d 6 AND 0xE0 = 0xE0 \<Longrightarrow>
      mode (dev_outb dev 0x1F7 0x20 d) = DataIn (sector d (second_drive (regs d)) (lba (regs d))) \<and>
      sector (dev_outb dev 0x1F7 0x20 d) = sector d"
    and write_command: "delay d = 0 \<Longrightarrow> mode d = Idle \<Longrightarrow> regs d 2 = 1 \<Longrightarrow> regs d 6 AND 0xE0 = 0xE0 \<Longrightarrow>
      mode (dev_outb dev 0x1F7 0x30 d) = DataOut (second_drive (regs d)) (lba (regs d)) \<and>
      sector (dev_outb dev 0x1F7 0x30 d) = sector d"
    and flush_command: "mode d = Idle \<Longrightarrow>
      mode (dev_outb dev 0x1F7 0xE7 d) = Idle \<and> sector (dev_outb dev 0x1F7 0xE7 d) = sector d"
    and data_in: "delay d = 0 \<Longrightarrow> mode d = DataIn b \<Longrightarrow>
      \<exists>d'. dev_insl dev 0x1F0 128 d = (b, d') \<and> mode d' = Idle \<and> sector d' = sector d"
    and data_out: "delay d = 0 \<Longrightarrow> mode d = DataOut dr n \<Longrightarrow> length b = 512 \<Longrightarrow>
      mode (dev_outsl dev 0x1F0 b d) = Idle \<and>
      sector (dev_outsl dev 0x1F0 b d) = (sector d)(dr := (sector d dr)(n := b))"
begin

lemma waitdisk_returns:
  assumes "DRQ \<longrightarrow> mode d \<noteq> Idle"
  shows "\<exists>d'. waitdisk dev DRQ d = Some d' \<and> delay d' = 0 \<and> regs d' = regs d \<and> mode d' = mode d \<and> sector d' = sector d"
  using assms
proof (induction "delay d" arbitrary: d rule: less_induct)
  case less
  show ?case
  proof (cases "delay d = 0")
    case True
    then have "waitdisk dev DRQ d = Some d"
      using ready [OF True] less.prems by (subst waitdisk.simps) (auto simp: status_byte_def)
    with True show ?thesis by blast
  next
    case False
    then obtain st d' where d': "dev_inb dev 0x1F7 d = (st, d')" "bit st 7" "delay d' < delay d"
        "regs d' = regs d" "mode d' = mode d" "sector d' = sector d"
      using busy [of d] by auto
    have "st AND 0x80 \<noteq> 0"
    proof
      assume "st AND 0x80 = 0"
      then have "\<not> bit (st AND 0x80) 7" by simp
      with d'(2) show False by (simp add: bit_and_iff bit_numeral_rec)
    qed
    then have "waitdisk dev DRQ d = waitdisk dev DRQ d'"
      using d'(1) by (subst waitdisk.simps) simp
    then show ?thesis using less.hyps [OF d'(3)] less.prems d'(4-6) by simp
  qed
qed

text \<open>The registers after the five writes.\<close>

lemma select_registers:
  assumes "channel dr = 0x1F0" "delay d = 0" "mode d = Idle"
  shows "\<exists>d'. select_sector dev dr n cmd d = dev_outb dev 0x1F7 cmd d' \<and> delay d' = 0 \<and> mode d' = Idle \<and>
    sector d' = sector d \<and> regs d' = select_regs (regs d) (drive dr) n"
proof -
  define d2 where "d2 = dev_outb dev 0x1F2 1 d"
  define d3 where "d3 = dev_outb dev 0x1F3 (ucast n) d2"
  define d4 where "d4 = dev_outb dev 0x1F4 (ucast (drop_bit 8 n)) d3"
  define d5 where "d5 = dev_outb dev 0x1F5 (ucast (drop_bit 16 n)) d4"
  define d6 where "d6 = dev_outb dev 0x1F6 (ucast (drop_bit 24 n OR 0xE0 OR (ucast (drive dr) AND push_bit 4 1))) d5"
  have 2: "delay d2 = 0" "mode d2 = Idle" "sector d2 = sector d" "regs d2 = (regs d)(2 := 1)"
    using out_register [of 2 d 1] assms(2,3) by (simp_all add: d2_def)
  have 3: "delay d3 = 0" "mode d3 = Idle" "sector d3 = sector d2" "regs d3 = (regs d2)(3 := ucast n)"
    using out_register [of 3 d2 "ucast n"] 2 by (simp_all add: d3_def)
  have 4: "delay d4 = 0" "mode d4 = Idle" "sector d4 = sector d3" "regs d4 = (regs d3)(4 := ucast (drop_bit 8 n))"
    using out_register [of 4 d3 "ucast (drop_bit 8 n)"] 3 by (simp_all add: d4_def)
  have 5: "delay d5 = 0" "mode d5 = Idle" "sector d5 = sector d4" "regs d5 = (regs d4)(5 := ucast (drop_bit 16 n))"
    using out_register [of 5 d4 "ucast (drop_bit 16 n)"] 4 by (simp_all add: d5_def)
  have 6: "delay d6 = 0" "mode d6 = Idle" "sector d6 = sector d5"
    "regs d6 = (regs d5)(6 := ucast (drop_bit 24 n OR 0xE0 OR (ucast (drive dr) AND push_bit 4 1)))"
    using out_register [of 6 d5 "ucast (drop_bit 24 n OR 0xE0 OR (ucast (drive dr) AND push_bit 4 1))"] 5
    unfolding d6_def by simp_all
  have "select_sector dev dr n cmd d = dev_outb dev 0x1F7 cmd d6"
    unfolding select_sector_def Let_def port_def assms(1) d6_def d5_def d4_def d3_def d2_def by simp
  then show ?thesis using 2 3 4 5 6 unfolding select_regs_def by metis
qed

lemma read_spec:
  assumes "channel dr = 0x1F0" "mode d = Idle"
  shows "\<exists>d'. readDiskSector dev dr n d = Some (sector d (bit (drive dr) 4 \<or> bit n 28) (unat n mod 2 ^ 28), d') \<and>
    mode d' = Idle \<and> sector d' = sector d"
proof -
  obtain d1 where d1: "waitdisk dev False d = Some d1" "delay d1 = 0" "mode d1 = Idle" "sector d1 = sector d"
    using waitdisk_returns [of False d] assms(2) by auto
  obtain d2 where d2: "select_sector dev dr n 0x20 d1 = dev_outb dev 0x1F7 0x20 d2" "delay d2 = 0" "mode d2 = Idle"
      "sector d2 = sector d1" "regs d2 = select_regs (regs d1) (drive dr) n"
    using select_registers [OF assms(1) d1(2,3), of n "0x20"] by blast
  note r = select_regs [of "regs d1" "drive dr" n, folded d2(5)]
  let ?d = "dev_outb dev 0x1F7 0x20 d2"
  have m: "mode ?d = DataIn (sector d (bit (drive dr) 4 \<or> bit n 28) (unat n mod 2 ^ 28))" "sector ?d = sector d"
    using read_command [OF d2(2,3) r(1,2)] r(3,4) d2(4) d1(4) by simp_all
  obtain d3 where d3: "waitdisk dev True ?d = Some d3" "delay d3 = 0" "mode d3 = mode ?d" "sector d3 = sector ?d"
    using waitdisk_returns [of True ?d] m(1) by auto
  have "port dr 0 = 0x1F0" by (simp add: port_def assms(1))
  then show ?thesis
    using d1(1) d2(1) d3 m data_in [OF d3(2), of "sector d (bit (drive dr) 4 \<or> bit n 28) (unat n mod 2 ^ 28)"]
    by (auto simp: readDiskSector_def)
qed

lemma write_spec:
  assumes "channel dr = 0x1F0" "mode d = Idle" "length b = 512"
  shows "\<exists>d'. writeDiskSector dev dr b n d = Some d' \<and> mode d' = Idle \<and>
    sector d' = (let u = bit (drive dr) 4 \<or> bit n 28 in (sector d)(u := (sector d u)(unat n mod 2 ^ 28 := b)))"
proof -
  let ?u = "bit (drive dr) 4 \<or> bit n 28"
  obtain d1 where d1: "waitdisk dev False d = Some d1" "delay d1 = 0" "mode d1 = Idle" "sector d1 = sector d"
    using waitdisk_returns [of False d] assms(2) by auto
  obtain d2 where d2: "select_sector dev dr n 0x30 d1 = dev_outb dev 0x1F7 0x30 d2" "delay d2 = 0" "mode d2 = Idle"
      "sector d2 = sector d1" "regs d2 = select_regs (regs d1) (drive dr) n"
    using select_registers [OF assms(1) d1(2,3), of n "0x30"] by blast
  note r = select_regs [of "regs d1" "drive dr" n, folded d2(5)]
  let ?d = "dev_outb dev 0x1F7 0x30 d2"
  have m: "mode ?d = DataOut ?u (unat n mod 2 ^ 28)" "sector ?d = sector d"
    using write_command [OF d2(2,3) r(1,2)] r(3,4) d2(4) d1(4) by simp_all
  obtain d3 where d3: "waitdisk dev True ?d = Some d3" "delay d3 = 0" "mode d3 = mode ?d" "sector d3 = sector ?d"
    using waitdisk_returns [of True ?d] m(1) by auto
  have p: "port dr 0 = 0x1F0" "port dr 7 = 0x1F7" by (simp_all add: port_def assms(1))
  let ?e = "dev_outsl dev 0x1F0 b d3"
  have e: "mode ?e = Idle" "sector ?e = (sector d)(?u := (sector d ?u)(unat n mod 2 ^ 28 := b))"
    using data_out [OF d3(2) _ assms(3)] d3(3,4) m by simp_all
  have "writeDiskSector dev dr b n d = Some (dev_outb dev 0x1F7 0xE7 ?e)"
    unfolding writeDiskSector_def d1(1) d2(1) option.case d3(1) p ..
  then show ?thesis using flush_command [OF e(1)] e(2) by (simp add: Let_def)
qed

end

section \<open>A controller\<close>

text \<open>
  A controller with one channel that satisfies the contract: it is busy for \<open>latency\<close> status reads
  after every command.
\<close>

record ata =
  aregs :: "nat \<Rightarrow> u8"
  adelay :: nat
  amode :: ata_mode
  asector :: "bool \<Rightarrow> nat \<Rightarrow> bytes"

definition ata_inb :: "u16 \<Rightarrow> ata \<Rightarrow> u8 \<times> ata" where
  "ata_inb p d =
     (if p = 0x1F7 then
        if 0 < adelay d then (0x80, d\<lparr>adelay := adelay d - 1\<rparr>) else (status_byte (amode d), d)
      else (aregs d (unat (p - 0x1F0)), d))"

definition ata_command :: "nat \<Rightarrow> u8 \<Rightarrow> ata \<Rightarrow> ata" where
  "ata_command latency cmd d =
     (let u = second_drive (aregs d); n = lba (aregs d); d = d\<lparr>adelay := latency\<rparr> in
      if cmd = 0x20 then d\<lparr>amode := DataIn (asector d u n)\<rparr>
      else if cmd = 0x30 then d\<lparr>amode := DataOut u n\<rparr>
      else if cmd = 0xEC then d\<lparr>amode := DataIn (replicate 512 0)\<rparr>
      else d)"

definition ata_outb :: "nat \<Rightarrow> u16 \<Rightarrow> u8 \<Rightarrow> ata \<Rightarrow> ata" where
  "ata_outb latency p v d =
     (if p = 0x1F7 then ata_command latency v d
      else d\<lparr>aregs := (aregs d)(unat (p - 0x1F0) := v)\<rparr>)"

definition ata_insl :: "u16 \<Rightarrow> nat \<Rightarrow> ata \<Rightarrow> bytes \<times> ata" where
  "ata_insl p cnt d = (case amode d of DataIn b \<Rightarrow> (take (4 * cnt) b, d\<lparr>amode := Idle\<rparr>) | _ \<Rightarrow> (replicate (4 * cnt) 0xFF, d))"

definition ata_outsl :: "u16 \<Rightarrow> bytes \<Rightarrow> ata \<Rightarrow> ata" where
  "ata_outsl p b d =
     (case amode d of
        DataOut u n \<Rightarrow> d\<lparr>amode := Idle, asector := (asector d)(u := (asector d u)(n := b))\<rparr> | _ \<Rightarrow> d)"

definition ata_device :: "nat \<Rightarrow> ata device" where
  "ata_device latency = \<lparr>dev_inb = ata_inb, dev_inw = (\<lambda>p d. (0, d\<lparr>amode := Idle\<rparr>)), dev_insl = ata_insl,
     dev_outb = ata_outb latency, dev_outsl = ata_outsl\<rparr>"

lemma register_port:
  assumes "2 \<le> k" "k \<le> 6"
  shows "(0x1F0 + of_nat k :: u16) \<noteq> 0x1F7" "unat (0x1F0 + of_nat k - 0x1F0 :: u16) = k"
proof -
  show u: "unat (0x1F0 + of_nat k - 0x1F0 :: u16) = k" using assms by (simp add: unat_of_nat)
  show "(0x1F0 + of_nat k :: u16) \<noteq> 0x1F7"
  proof
    assume "(0x1F0 + of_nat k :: u16) = 0x1F7"
    then have "unat (0x1F0 + of_nat k - 0x1F0 :: u16) = 7" by simp
    with u assms show False by simp
  qed
qed

text \<open>Sectors of 512 bytes: the transfer of a shorter one would not give back all of it.\<close>

definition whole_sectors :: "ata \<Rightarrow> ata" where
  "whole_sectors d = d\<lparr>asector := (\<lambda>u n. take 512 (asector d u n))\<rparr>"

interpretation controller: ata_channel "ata_device latency" aregs adelay
  "\<lambda>d. case amode d of DataIn b \<Rightarrow> DataIn (take 512 b) | md \<Rightarrow> md" "\<lambda>d. asector (whole_sectors d)"
  for latency
proof
  fix d :: ata and k :: nat and v :: u8
  assume "2 \<le> k" "k \<le> 6"
  note register_port [OF this]
  moreover assume "adelay d = 0" "(case amode d of DataIn b \<Rightarrow> DataIn (take 512 b) | md \<Rightarrow> md) = Idle"
  ultimately show "aregs (dev_outb (ata_device latency) (0x1F0 + of_nat k) v d) = (aregs d)(k := v) \<and>
      adelay (dev_outb (ata_device latency) (0x1F0 + of_nat k) v d) = 0 \<and>
      (case amode (dev_outb (ata_device latency) (0x1F0 + of_nat k) v d) of DataIn b \<Rightarrow> DataIn (take 512 b) | md \<Rightarrow> md) = Idle \<and>
      asector (whole_sectors (dev_outb (ata_device latency) (0x1F0 + of_nat k) v d)) = asector (whole_sectors d)"
    by (simp add: ata_device_def ata_outb_def whole_sectors_def)
next
  fix d :: ata assume "adelay d = 0"
  then show "dev_inb (ata_device latency) 0x1F7 d =
      (status_byte (case amode d of DataIn b \<Rightarrow> DataIn (take 512 b) | md \<Rightarrow> md), d)"
    by (simp add: ata_device_def ata_inb_def status_byte_def split: ata_mode.split)
next
  fix d :: ata assume "0 < adelay d"
  then show "\<exists>st d'. dev_inb (ata_device latency) 0x1F7 d = (st, d') \<and> bit st 7 \<and> adelay d' < adelay d \<and>
      aregs d' = aregs d \<and> (case amode d' of DataIn b \<Rightarrow> DataIn (take 512 b) | md \<Rightarrow> md) =
        (case amode d of DataIn b \<Rightarrow> DataIn (take 512 b) | md \<Rightarrow> md) \<and>
      asector (whole_sectors d') = asector (whole_sectors d)"
    by (simp add: ata_device_def ata_inb_def whole_sectors_def bit_numeral_rec)
qed (auto simp: ata_device_def ata_outb_def ata_command_def ata_insl_def ata_outsl_def whole_sectors_def Let_def
      fun_eq_iff split: ata_mode.splits)

section \<open>Refinement of the sector store\<close>

text \<open>The file system's view of a drive: its sectors are those of the device.\<close>

definition represents :: "('d \<Rightarrow> bool \<Rightarrow> nat \<Rightarrow> bytes) \<Rightarrow> drive_info \<Rightarrow> 'd \<Rightarrow> fs \<Rightarrow> bool" where
  "represents sector dr d s \<longleftrightarrow> (\<forall>k < 2 ^ 28. sector d (bit (drive dr) 4) k = disk s dr k)"

lemma below_limit:
  assumes "unat (n :: u32) < 2 ^ 28"
  shows "\<not> bit n 28" "unat n mod 2 ^ 28 = unat n"
proof -
  have "unat (drop_bit 28 n) = 0" using assms by (simp add: unat_shiftr)
  then have "drop_bit 28 n = 0" by (simp only: unat_eq_0)
  then have "\<not> bit (drop_bit 28 n) 0" by simp
  then show "\<not> bit n 28" by (simp only: bit_drop_bit_eq o_def add_0_right) simp
qed (use assms in simp)

text \<open>Polling a port that only ever reads 0xFF, as the lines of an absent device do.\<close>

lemma waitdisk_floating:
  assumes "waitdisk dev DRQ d = Some r" "\<And>d. fst (dev_inb dev 0x1F7 d) = 0xFF"
  shows False
  using assms
proof (induction rule: waitdisk.raw_induct [rotated, consumes 1, case_names step])
  case (step w dev DRQ d r)
  obtain d' where "dev_inb dev 0x1F7 d = (0xFF, d')" using step(3) [of d] by (cases "dev_inb dev 0x1F7 d") auto
  then have "w dev DRQ d' = Some r" using step(2) by simp
  then show ?case using step(1,3) by blast
qed

section \<open>Examples\<close>

definition example_ata :: ata where
  "example_ata = \<lparr>aregs = (\<lambda>_. 0), adelay = 3, amode = Idle, asector = (\<lambda>u n. replicate 512 (of_nat n))\<rparr>"

definition example_drive :: drive_info where
  "example_drive = \<lparr>channel = 0x1F0, drive = 0xB0\<rparr>"

definition example_store :: fs where
  "example_store = \<lparr>disk = (\<lambda>dr n. replicate 512 (of_nat n)), diskBuffer = replicate 512 7\<rparr>"

definition floating :: "unit device" where
  "floating = \<lparr>dev_inb = (\<lambda>p d. (0xFF, d)), dev_inw = (\<lambda>p d. (0xFFFF, d)),
     dev_insl = (\<lambda>p n d. (replicate (4 * n) 0xFF, d)), dev_outb = (\<lambda>p v d. d), dev_outsl = (\<lambda>p b d. d)\<rparr>"

abbreviation (input) controller_mode :: "ata \<Rightarrow> ata_mode" where
  "controller_mode d \<equiv> (case amode d of DataIn b \<Rightarrow> DataIn (take 512 b) | md \<Rightarrow> md)"

lemma controller_ata: "ata_channel (ata_device latency) aregs adelay controller_mode (\<lambda>d. asector (whole_sectors d))"
  by (rule controller.ata_channel_axioms)

section \<open>Properties\<close>

text \<open>C13:
  On a channel that behaves as the ATA standard says, the driver implements the sector store of
  the file system, for the drives of the primary channel and sectors below \<open>2 ^ 28\<close>: both
  operations return, a read gives the stored sector, and a write changes that sector and no other.\<close>

theorem driver_refines_store:
  assumes "ata_channel dev regs delay mode sector" "channel dr = 0x1F0" "mode d = Idle" "unat n < 2 ^ 28"
    and "represents sector dr d s" "length (diskBuffer s) = 512"
  shows "(\<exists>d'. readDiskSector dev dr n d = Some (diskBuffer (read_sector dr n s), d') \<and> mode d' = Idle \<and>
      represents sector dr d' (read_sector dr n s)) \<and>
    (\<exists>d'. writeDiskSector dev dr (diskBuffer s) n d = Some d' \<and> mode d' = Idle \<and>
      represents sector dr d' (write_sector dr n s))"
proof -
  note n = below_limit [OF assms(4)]
  have "\<exists>d'. readDiskSector dev dr n d = Some (sector d (bit (drive dr) 4) (unat n), d') \<and> mode d' = Idle \<and> sector d' = sector d"
    using ata_channel.read_spec [OF assms(1-3), of n] n by simp
  moreover have "\<exists>d'. writeDiskSector dev dr (diskBuffer s) n d = Some d' \<and> mode d' = Idle \<and>
      sector d' = (sector d)(bit (drive dr) 4 := (sector d (bit (drive dr) 4))(unat n := diskBuffer s))"
    using ata_channel.write_spec [OF assms(1-3,6), of n] n by (simp add: Let_def)
  ultimately show ?thesis
    using assms(4,5) by (fastforce simp: represents_def read_sector_def write_sector_def)
qed

theorem driver_refines_store_witness:
  "\<exists>d'. readDiskSector (ata_device 5) example_drive 9 example_ata = Some (replicate 512 9, d') \<and> amode d' = Idle"
proof -
  have "represents (\<lambda>d. asector (whole_sectors d)) example_drive example_ata example_store"
    by (simp add: represents_def example_ata_def example_store_def whole_sectors_def)
  then have "\<exists>d'. readDiskSector (ata_device 5) example_drive 9 example_ata =
      Some (diskBuffer (read_sector example_drive 9 example_store), d') \<and> controller_mode d' = Idle"
    using driver_refines_store [OF controller_ata [of 5], of example_drive example_ata 9 example_store]
    by (auto simp: example_drive_def example_ata_def example_store_def)
  moreover have "controller_mode d = Idle \<longleftrightarrow> amode d = Idle" for d by (cases "amode d") simp_all
  ultimately show ?thesis by (simp add: read_sector_def example_store_def)
qed

text \<open>C37:
  A sector number of more than 28 bits does not fail: the driver reads the sector of the low 28
  bits, and from the second drive of the channel whenever bit 28 is set.\<close>

theorem driver_address_limit:
  assumes "ata_channel dev regs delay mode sector" "channel dr = 0x1F0" "mode d = Idle"
  shows "\<exists>d'. readDiskSector dev dr n d = Some (sector d (bit (drive dr) 4 \<or> bit n 28) (unat n mod 2 ^ 28), d') \<and>
    sector d' = sector d"
  using ata_channel.read_spec [OF assms, of n] by auto

theorem driver_address_limit_witness:
  "\<exists>d'. readDiskSector (ata_device 0) \<lparr>channel = 0x1F0, drive = 0xA0\<rparr> 0x10000003 example_ata = Some (replicate 512 3, d')"
  using driver_address_limit [OF controller_ata [of 0], of "\<lparr>channel = 0x1F0, drive = 0xA0\<rparr>" example_ata "0x10000003"]
  by (auto simp: example_ata_def whole_sectors_def)

text \<open>The driver polls the status port of the primary channel whatever drive it is asked for: when no
  device answers there, and the port reads 0xFF, no read and no write of any drive, also of the
  secondary channel, ever returns.\<close>

theorem driver_polls_primary:
  assumes "\<And>d. fst (dev_inb dev 0x1F7 d) = 0xFF"
  shows "readDiskSector dev dr n d = None \<and> writeDiskSector dev dr b n d = None"
proof -
  have "waitdisk dev False d = None"
    using waitdisk_floating [of dev False d] assms by (cases "waitdisk dev False d") auto
  then show ?thesis by (simp add: readDiskSector_def writeDiskSector_def)
qed

theorem driver_polls_primary_witness:
  "readDiskSector floating \<lparr>channel = 0x170, drive = 0xA0\<rparr> 0 () = None"
  using driver_polls_primary [of floating "\<lparr>channel = 0x170, drive = 0xA0\<rparr>" 0 "()"] by (simp add: floating_def)

end
