(* ===== verification/Disk_Commands.thy ===== *)
theory Disk_Commands
  imports Fat32_Correct Disk_Driver
begin

text \<open>
  The rest of kernel/disk.c: finding the drive and its FAT32 partition at boot, and the file
  commands that the system calls reach. Reads and writes of sectors are those of the sector
  store, which the driver implements; \<open>pingDisk\<close> is the driver's own. A \<open>FAT32_entry\<close> that a
  function declares without initialising it is an argument. What a command copies to the
  caller's buffer is part of its result.
\<close>

section \<open>State\<close>

record disk_state =
  fsys :: fs
  partitionStart :: c_int
  foundDisk :: c_int
  activeDrive :: drive_info
  infoFat :: FAT32_Metadata
  currentCluster :: u32
  file_ind :: c_int

definition possibleDrives :: "drive_info list" where
  "possibleDrives = [\<lparr>channel = 0x1F0, drive = 0xB0\<rparr>, \<lparr>channel = 0x170, drive = 0xA0\<rparr>, \<lparr>channel = 0x170, drive = 0xB0\<rparr>]"

section \<open>Set-up\<close>

definition findPartition :: "drive_info \<Rightarrow> fs \<Rightarrow> c_int \<times> fs" where
  "findPartition dr s =
     (let s = read_sector dr 0 s; b = diskBuffer s in
      case find (\<lambda>i. b ! (446 + 16 * i + 4) = 0x0B \<or> b ! (446 + 16 * i + 4) = 0x0C) [0..<4] of
        Some i \<Rightarrow> (load32 b (446 + 16 * i + 8), s)
      | None \<Rightarrow> (0, s))"

text \<open>The loop over \<open>possibleDrives\<close>, left at the first drive that answers.\<close>

primrec probe_drives :: "'d device \<Rightarrow> drive_info list \<Rightarrow> disk_state \<Rightarrow> 'd \<Rightarrow> (disk_state \<times> 'd) result" where
  "probe_drives dev [] s d = Inr (s, d)"
| "probe_drives dev (dr # drs) s d =
     (let s = s\<lparr>activeDrive := dr\<rparr> in
      case pingDisk dev dr d of
        None \<Rightarrow> Inl Diverges
      | Some (found, d) \<Rightarrow>
          if found \<noteq> 0 then Inr (s\<lparr>foundDisk := 1\<rparr>, d) else probe_drives dev drs s d)"

definition setupDrive :: "'d device \<Rightarrow> disk_state \<Rightarrow> 'd \<Rightarrow> (disk_state \<times> 'd) result" where
  "setupDrive dev s d =
     bind (probe_drives dev possibleDrives (s\<lparr>foundDisk := 0\<rparr>) d) (\<lambda>(s, d).
     if foundDisk s = 0 then Inl (Panic ''No disk found'')
     else
       let (p, f) = findPartition (activeDrive s) (fsys s); s = s\<lparr>partitionStart := p, fsys := f\<rparr> in
       if p = 0 then Inl (Panic ''No partition found on the disk'')
       else
         bind (readBootSector (activeDrive s) p (fsys s)) (\<lambda>(m, f).
         Inr (s\<lparr>fsys := f, infoFat := m, currentCluster := rootCluster m\<rparr>, d)))"

section \<open>Commands\<close>

text \<open>What \<open>strcpy\<close> copies from an array: up to the terminator, which has to be in the array.\<close>

definition c_string :: "bytes \<Rightarrow> bytes result" where
  "c_string b = (if 0 \<in> set b then Inr (takeWhile (\<lambda>c. c \<noteq> 0) b @ [0]) else Inl OutOfBounds)"

partial_function (option) list_files ::
  "FAT32_entry \<Rightarrow> disk_state \<Rightarrow> ((c_int \<times> bytes) \<times> disk_state) result option" where
  "list_files entry s =
     (case getMetadataFileFromDirectory (infoFat s) (currentCluster s) (file_ind s) entry (fsys s) of
        Inl e \<Rightarrow> Some (Inl e)
      | Inr (entry, f) \<Rightarrow>
          if \<not> isValidEntry entry then Some (Inr ((- 1, []), s\<lparr>fsys := f, file_ind := 0\<rparr>))
          else if \<not> isRemovedEntry entry then
            (case c_string (ename entry) of
               Inl e \<Rightarrow> Some (Inl e)
             | Inr str \<Rightarrow> Some (Inr ((file_ind s, str), s\<lparr>fsys := f, file_ind := file_ind s + 1\<rparr>)))
          else list_files entry (s\<lparr>fsys := f, file_ind := file_ind s + 1\<rparr>))"

definition make_directory :: "(nat \<Rightarrow> u8) \<Rightarrow> disk_state \<Rightarrow> disk_state result" where
  "make_directory name s =
     bind (mkdir (infoFat s) (currentCluster s) name (fsys s)) (\<lambda>(u, f). Inr (s\<lparr>fsys := f\<rparr>))"

definition remove_directory :: "c_int \<Rightarrow> disk_state \<Rightarrow> disk_state result" where
  "remove_directory ind s =
     bind (removeEntryFromDirectory (infoFat s) (currentCluster s) ind (fsys s)) (\<lambda>(u, f). Inr (s\<lparr>fsys := f\<rparr>))"

definition change_directory :: "FAT32_entry \<Rightarrow> c_int \<Rightarrow> disk_state \<Rightarrow> disk_state result" where
  "change_directory entry ind s =
     bind (getMetadataFileFromDirectory (infoFat s) (currentCluster s) ind entry (fsys s)) (\<lambda>(entry, f).
     Inr (s\<lparr>fsys := f, currentCluster := efstCluster entry, file_ind := 0\<rparr>))"

definition read_file :: "FAT32_entry \<Rightarrow> c_int \<Rightarrow> disk_state \<Rightarrow> (bytes \<times> disk_state) result" where
  "read_file entry ind s =
     bind (getMetadataFileFromDirectory (infoFat s) (currentCluster s) ind entry (fsys s)) (\<lambda>(entry, f).
     bind (readFile (infoFat s) (efstCluster entry) (esize entry) f) (\<lambda>(content, f).
     Inr (content, s\<lparr>fsys := f\<rparr>)))"

definition write_file :: "(nat \<Rightarrow> u8) \<Rightarrow> c_int \<Rightarrow> (nat \<Rightarrow> u8) \<Rightarrow> disk_state \<Rightarrow> disk_state result" where
  "write_file content len name s =
     bind (writeFile (infoFat s) (currentCluster s) name content len (fsys s)) (\<lambda>(u, f). Inr (s\<lparr>fsys := f\<rparr>))"

section \<open>Names of records\<close>

definition short_name :: "bytes \<Rightarrow> bytes" where
  "short_name r = (let n = strip_spaces r 8 in
     if r ! 8 = 0x20 then take n r else take n r @ 0x2E # take 3 (drop 8 r))"

lemma strip_spaces_le: "strip_spaces f n \<le> n"
  by (induction n) auto

lemma strip_spaces_pos: "0 < n \<Longrightarrow> f ! 0 \<noteq> 0x20 \<Longrightarrow> 0 < strip_spaces f n"
  by (induction n) (auto split: if_splits)

lemma length_short_name:
  "11 \<le> length r \<Longrightarrow> length (short_name r) = strip_spaces r 8 + (if r ! 8 = 0x20 then 0 else 4)"
  using strip_spaces_le [of r 8] by (simp add: short_name_def Let_def)

lemma length_readFileName [simp]: "length (readFileName r old) = length old"
proof -
  have "length (fold (\<lambda>i f. f[g i := h i]) xs b) = length b" for g :: "nat \<Rightarrow> nat" and h xs and b :: bytes
    by (induction xs arbitrary: b) simp_all
  then show ?thesis by (simp add: readFileName_def Let_def)
qed

lemma readFileName_short:
  assumes "r ! 0 \<noteq> 0" "length old = 13" "11 \<le> length r"
  shows "readFileName r old = short_name r @ 0 # drop (Suc (length (short_name r))) old"
proof -
  let ?n = "strip_spaces r 8"
  have n: "?n \<le> 8" by (rule strip_spaces_le)
  have "map ((!) r) [0..<?n] = take ?n r" using n assms(3) by (intro nth_equalityI) simp_all
  then have base: "fold (\<lambda>i x. x[i := r ! i]) [0..<?n] old = take ?n r @ drop ?n old"
    using fold_store_0 [of ?n old "(!) r"] n assms(2) by simp
  show ?thesis
  proof (cases "r ! 8 = 0x20")
    case True
    then show ?thesis
      using assms n by (simp add: readFileName_def Let_def base short_name_def list_update_append upd_conv_take_nth_drop)
  next
    case False
    let ?b = "(take ?n r @ drop ?n old)[?n := 0x2E]"
    have len: "length ?b = 13" using assms(2,3) n by simp
    have "fold (\<lambda>i x. x[?n + i + 1 := r ! (8 + i)]) [0..<3] ?b = poke (?n + 1) (map (\<lambda>i. r ! (8 + i)) [0..<3]) ?b"
      using fold_store [of "?n + 1" 3 ?b "\<lambda>i. r ! (8 + i)"] n len by simp
    moreover have "map (\<lambda>i. r ! (8 + i)) [0..<3] = take 3 (drop 8 r)"
      using assms(3) by (intro nth_equalityI) simp_all
    moreover have "(poke (?n + 1) (take 3 (drop 8 r)) ?b)[?n + 4 := 0] = short_name r @ 0 # drop (Suc (length (short_name r))) old"
      using n assms(2,3) False
      by (intro nth_equalityI) (auto simp: nth_list_update nth_poke nth_append short_name_def Let_def nth_Cons' length_short_name)
    ultimately show ?thesis using assms(1) False by (simp add: readFileName_def Let_def base)
  qed
qed

section \<open>Listing\<close>

text \<open>The directory the commands work in: its chain, and \<open>n\<close> used records before the first unused one.\<close>

definition current_dir :: "disk_state \<Rightarrow> nat list \<Rightarrow> nat \<Rightarrow> bool" where
  "current_dir s cs n \<longleftrightarrow>
     wf_meta (infoFat s) \<and> fs_inv (infoFat s) (fsys s) \<and>
     chain (infoFat s) (vol (infoFat s) (fsys s)) (unat (currentCluster s) # cs) \<and>
     n < dir_capacity (infoFat s) (unat (currentCluster s) # cs) \<and> n < 2 ^ 31 \<and>
     \<not> record_used (infoFat s) (vol (infoFat s) (fsys s)) (unat (currentCluster s) # cs) n \<and>
     (\<forall>j < n. record_used (infoFat s) (vol (infoFat s) (fsys s)) (unat (currentCluster s) # cs) j)"

abbreviation dir_list :: "disk_state \<Rightarrow> nat list \<Rightarrow> bytes list" where
  "dir_list s cs \<equiv> dir_records (infoFat s) (vol (infoFat s) (fsys s)) (unat (currentCluster s) # cs)"

definition removed_record :: "bytes \<Rightarrow> bool" where
  "removed_record r \<longleftrightarrow> r ! 0 = 0xE5"

text \<open>A record name is not blank: its first character is not a space.\<close>

definition named_records :: "disk_state \<Rightarrow> nat list \<Rightarrow> nat \<Rightarrow> bool" where
  "named_records s cs n \<longleftrightarrow> (\<forall>j < n. dir_list s cs ! j ! 0 \<noteq> 0x20)"

lemma takeWhile_terminated: "takeWhile (\<lambda>c. c \<noteq> 0) (xs @ 0 # ys) = takeWhile (\<lambda>c. c \<noteq> 0) xs"
  by (induction xs) simp_all

lemma parsed_name:
  assumes "r ! 0 \<noteq> 0" "r ! 0 \<noteq> 0x20" "length old = 13" "length r = 32"
  shows "isValidEntry (parse_record r 0 old)" "isRemovedEntry (parse_record r 0 old) \<longleftrightarrow> removed_record r"
    "c_string (ename (parse_record r 0 old)) = Inr (takeWhile (\<lambda>c. c \<noteq> 0) (short_name r) @ [0])"
    "length (ename (parse_record r 0 old)) = 13"
proof -
  have name: "ename (parse_record r 0 old) = short_name r @ 0 # drop (Suc (length (short_name r))) old"
    using readFileName_short [OF assms(1,3)] assms(4) by (simp add: parse_record_def Let_def)
  have "0 < strip_spaces r 8" using strip_spaces_pos [of 8 r] assms(2) by simp
  then have "(short_name r @ x) ! 0 = r ! 0" for x
    using strip_spaces_le [of r 8] assms(4) by (auto simp: short_name_def Let_def nth_append)
  then show "isValidEntry (parse_record r 0 old)" "isRemovedEntry (parse_record r 0 old) \<longleftrightarrow> removed_record r"
    using assms(1) by (simp_all add: isValidEntry_def isRemovedEntry_def name removed_record_def)
  show "c_string (ename (parse_record r 0 old)) = Inr (takeWhile (\<lambda>c. c \<noteq> 0) (short_name r) @ [0])"
    by (simp add: c_string_def name takeWhile_terminated)
  show "length (ename (parse_record r 0 old)) = 13" using assms(3) by (simp add: parse_record_def Let_def)
qed

lemma unused_name:
  assumes "r ! 0 = 0" "length old = 13"
  shows "\<not> isValidEntry (parse_record r 0 old)"
  using assms by (simp add: isValidEntry_def parse_record_def Let_def readFileName_def)

text \<open>One look at the directory.\<close>

lemma look_at_record:
  assumes "current_dir s cs n" "unat (file_ind s) \<le> n"
  shows "\<exists>f. getMetadataFileFromDirectory (infoFat s) (currentCluster s) (file_ind s) e (fsys s) =
      Inr (parse_record (dir_list s cs ! unat (file_ind s)) 0 (ename e), f) \<and>
    fs_inv (infoFat s) f \<and> disk f = disk (fsys s)"
  using getMetadata_records [of "infoFat s" "fsys s" "currentCluster s" cs "file_ind s" e] assms
  by (simp add: current_dir_def)

lemma dir_list_record:
  assumes "current_dir s cs n" "j \<le> n"
  shows "length (dir_list s cs ! j) = 32" "dir_list s cs ! j ! 0 = 0 \<longleftrightarrow> j = n"
proof -
  let ?m = "infoFat s" and ?ds = "unat (currentCluster s) # cs"
  have j: "j < dir_capacity ?m ?ds" using assms by (simp add: current_dir_def)
  have c: "wf_meta ?m" "fs_inv ?m (fsys s)" "chain ?m (vol ?m (fsys s)) ?ds" using assms(1) by (simp_all add: current_dir_def)
  show "length (dir_list s cs ! j) = 32" using length_record_at [OF c j] j by (simp add: dir_records_def)
  show "dir_list s cs ! j ! 0 = 0 \<longleftrightarrow> j = n"
    using record_used_iff [OF c j] assms by (auto simp: current_dir_def le_less)
qed

lemma current_dir_update:
  assumes "fs_inv (infoFat s) f" "disk f = disk (fsys s)"
  shows "current_dir (s\<lparr>fsys := f, file_ind := i\<rparr>) cs n = current_dir s cs n \<or> \<not> fs_inv (infoFat s) (fsys s)"
    "dir_list (s\<lparr>fsys := f, file_ind := i\<rparr>) cs = dir_list s cs"
proof -
  have "vol (infoFat s) f = vol (infoFat s) (fsys s)" by (simp only: vol_def assms(2))
  then show "current_dir (s\<lparr>fsys := f, file_ind := i\<rparr>) cs n = current_dir s cs n \<or> \<not> fs_inv (infoFat s) (fsys s)"
    "dir_list (s\<lparr>fsys := f, file_ind := i\<rparr>) cs = dir_list s cs"
    using assms(1) by (auto simp: current_dir_def)
qed

text \<open>What one turn of the loop does: it ends behind the last record, passes a removed one, and returns any other.\<close>

lemma list_files_turn:
  assumes "current_dir s cs n" "named_records s cs n" "unat (file_ind s) \<le> n" "length (ename e) = 13"
  defines "i \<equiv> unat (file_ind s)"
  defines "r \<equiv> dir_list s cs ! i"
  shows "\<exists>f e'. fs_inv (infoFat s) f \<and> disk f = disk (fsys s) \<and> length (ename e') = 13 \<and>
    list_files e s =
      (if i = n then Some (Inr ((- 1, []), s\<lparr>fsys := f, file_ind := 0\<rparr>))
       else if removed_record r then list_files e' (s\<lparr>fsys := f, file_ind := of_nat (Suc i)\<rparr>)
       else Some (Inr ((of_nat i, takeWhile (\<lambda>c. c \<noteq> 0) (short_name r) @ [0]), s\<lparr>fsys := f, file_ind := of_nat (Suc i)\<rparr>)))"
proof -
  let ?e = "parse_record r 0 (ename e)"
  obtain f where f: "getMetadataFileFromDirectory (infoFat s) (currentCluster s) (file_ind s) e (fsys s) = Inr (?e, f)"
      "fs_inv (infoFat s) f" "disk f = disk (fsys s)"
    using look_at_record [OF assms(1,3), of e] unfolding r_def i_def by auto
  show ?thesis
  proof (cases "i = n")
    case True
    then have "\<not> isValidEntry ?e"
      using unused_name dir_list_record(2) [OF assms(1) order_refl] assms(4) by (simp add: r_def)
    then have "list_files e s = Some (Inr ((- 1, []), s\<lparr>fsys := f, file_ind := 0\<rparr>))"
      using f(1) by (subst list_files.simps) simp
    then show ?thesis using f(2,3) True assms(4) by auto
  next
    case False
    then have "i < n" using assms(3) by (simp add: i_def)
    then have rec: "r ! 0 \<noteq> 0" "r ! 0 \<noteq> 0x20" "length r = 32"
      using dir_list_record [OF assms(1,3)] assms(2) by (simp_all add: named_records_def r_def i_def)
    note p = parsed_name [OF rec(1,2) assms(4) rec(3)]
    have ind: "file_ind s = of_nat i" "file_ind s + 1 = of_nat (Suc i)" by (simp_all add: i_def)
    have "list_files e s =
        (if removed_record r then list_files ?e (s\<lparr>fsys := f, file_ind := of_nat (Suc i)\<rparr>)
         else Some (Inr ((of_nat i, takeWhile (\<lambda>c. c \<noteq> 0) (short_name r) @ [0]), s\<lparr>fsys := f, file_ind := of_nat (Suc i)\<rparr>)))"
      using f(1) p(1-3) by (subst list_files.simps) (simp add: ind(2) [symmetric] ind(1) [symmetric] del: of_nat_Suc)
    then show ?thesis using False f(2,3) p(4) by (intro exI [of _ f] exI [of _ ?e]) simp
  qed
qed

lemma list_files_spec:
  assumes "current_dir s cs n" "named_records s cs n" "unat (file_ind s) \<le> n" "length (ename e) = 13"
  shows "\<exists>f. fs_inv (infoFat s) f \<and> disk f = disk (fsys s) \<and>
    list_files e s = Some (Inr (
      case find (\<lambda>j. \<not> removed_record (dir_list s cs ! j)) [unat (file_ind s)..<n] of
        Some j \<Rightarrow> ((of_nat j, takeWhile (\<lambda>c. c \<noteq> 0) (short_name (dir_list s cs ! j)) @ [0]),
          s\<lparr>fsys := f, file_ind := of_nat (Suc j)\<rparr>)
      | None \<Rightarrow> ((- 1, []), s\<lparr>fsys := f, file_ind := 0\<rparr>)))"
  using assms
proof (induction "n - unat (file_ind s)" arbitrary: s e rule: less_induct)
  case less
  let ?i = "unat (file_ind s)" and ?r = "dir_list s cs ! unat (file_ind s)"
  obtain f e' where f: "fs_inv (infoFat s) f" "disk f = disk (fsys s)" "length (ename e') = 13" and turn: "list_files e s =
      (if ?i = n then Some (Inr ((- 1, []), s\<lparr>fsys := f, file_ind := 0\<rparr>))
       else if removed_record ?r then list_files e' (s\<lparr>fsys := f, file_ind := of_nat (Suc ?i)\<rparr>)
       else Some (Inr ((of_nat ?i, takeWhile (\<lambda>c. c \<noteq> 0) (short_name ?r) @ [0]), s\<lparr>fsys := f, file_ind := of_nat (Suc ?i)\<rparr>)))"
    using list_files_turn [OF less.prems] by blast
  have upt: "[?i..<n] = ?i # [Suc ?i..<n]" if "?i \<noteq> n" using that less.prems(3) by (simp add: upt_conv_Cons)
  show ?case
  proof (cases "?i \<noteq> n \<and> removed_record ?r")
    case True
    let ?s = "s\<lparr>fsys := f, file_ind := of_nat (Suc ?i)\<rparr>"
    note u = current_dir_update [OF f(1,2), of "of_nat (Suc ?i)" cs]
    have dir: "current_dir ?s cs n" using u(1) less.prems(1) by (auto simp: current_dir_def)
    have named: "named_records ?s cs n" using less.prems(2) u(2) by (simp add: named_records_def)
    have "?i < n" "n < 2 ^ 31" using True less.prems(1,3) by (simp_all add: current_dir_def)
    then have ind: "unat (file_ind ?s) = Suc ?i" by (simp add: unat_of_nat del: of_nat_Suc)
    have "n - unat (file_ind ?s) < n - ?i" "unat (file_ind ?s) \<le> n" using \<open>?i < n\<close> unfolding ind by simp_all
    from less.hyps [OF this(1) dir named this(2) f(3)] obtain g where "fs_inv (infoFat s) g" "disk g = disk f"
      "list_files e' ?s = Some (Inr (
        case find (\<lambda>j. \<not> removed_record (dir_list s cs ! j)) [Suc ?i..<n] of
          Some j \<Rightarrow> ((of_nat j, takeWhile (\<lambda>c. c \<noteq> 0) (short_name (dir_list s cs ! j)) @ [0]),
            ?s\<lparr>fsys := g, file_ind := of_nat (Suc j)\<rparr>)
        | None \<Rightarrow> ((- 1, []), ?s\<lparr>fsys := g, file_ind := 0\<rparr>)))"
      unfolding ind u(2) by auto
    then show ?thesis using turn f(2) True upt by (auto split: option.split)
  qed (use turn f(1,2) upt in auto)
qed

section \<open>Making and entering directories\<close>

lemma make_directory_spec:
  assumes dir: "current_dir s cs n"
    and d: "is_free (infoFat s) (vol (infoFat s) (fsys s)) d"
      "\<And>j. j < d \<Longrightarrow> \<not> is_free (infoFat s) (vol (infoFat s) (fsys s)) j"
  shows "\<exists>f. make_directory name s = Inr (s\<lparr>fsys := f\<rparr>) \<and> fs_inv (infoFat s) f \<and>
    vol (infoFat s) f = vol_mkdir (infoFat s) (currentCluster s) (unat (currentCluster s) # cs) n
      (writeFileName blank_name name) d (vol (infoFat s) (fsys s))"
proof -
  let ?m = "infoFat s" and ?c = "currentCluster s"
  have c: "wf_meta ?m" "fs_inv ?m (fsys s)" "chain ?m (vol ?m (fsys s)) (unat ?c # cs)"
      "n < dir_capacity ?m (unat ?c # cs)" "\<not> record_used ?m (vol ?m (fsys s)) (unat ?c # cs) n"
      "\<And>j. j < n \<Longrightarrow> record_used ?m (vol ?m (fsys s)) (unat ?c # cs) j"
    using dir by (simp_all add: current_dir_def)
  show ?thesis using mkdir_spec [OF c d, of name] by (auto simp: make_directory_def)
qed

lemma enter_record:
  assumes "wf_meta (infoFat s)" "fs_inv (infoFat s) (fsys s)"
    "chain (infoFat s) (vol (infoFat s) (fsys s)) (unat (currentCluster s) # cs)"
    "k < dir_capacity (infoFat s) (unat (currentCluster s) # cs)" "k < 2 ^ 32"
    "dir_list s cs ! k = fill_record r 0 e" "length r = 32"
  shows "\<exists>f. change_directory e0 (of_nat k) s =
      Inr (s\<lparr>fsys := f, currentCluster := (if efstCluster e = 0 then 2 else efstCluster e), file_ind := 0\<rparr>) \<and>
    fs_inv (infoFat s) f \<and> disk f = disk (fsys s)"
proof -
  have k: "unat (of_nat k :: u32) = k" using assms(5) by (simp add: unat_of_nat)
  show ?thesis
    using getMetadata_records [OF assms(1-3), of "of_nat k" e0] assms(4,6) parse_fill_record [OF assms(7), of e "ename e0"]
    unfolding k by (auto simp: change_directory_def stored_entry_def)
qed

section \<open>Files\<close>

abbreviation file_entry :: "bytes \<Rightarrow> nat \<Rightarrow> nat \<Rightarrow> FAT32_entry" where
  "file_entry nm d len \<equiv> \<lparr>ename = nm, eattr = 0, efstCluster = of_nat d, esize = of_nat len\<rparr>"

lemma write_file_stored:
  assumes "current_dir s cs n" "len < 0x10000"
    and "sectors_for len div unat (sectorPerCluster (infoFat s)) < card (free_clusters (infoFat s) (vol (infoFat s) (fsys s)))"
  shows "\<exists>f d fs. write_file content (of_nat len) name s = Inr (s\<lparr>fsys := f\<rparr>) \<and> fs_inv (infoFat s) f \<and>
    file_stored (infoFat s) (unat (currentCluster s) # cs) n (file_entry (writeFileName blank_name name) d len)
      (map content [0..<len]) d fs (vol (infoFat s) (fsys s)) (vol (infoFat s) f)"
proof -
  let ?m = "infoFat s" and ?c = "currentCluster s"
  have c: "wf_meta ?m" "fs_inv ?m (fsys s)" "chain ?m (vol ?m (fsys s)) (unat ?c # cs)"
      "n < dir_capacity ?m (unat ?c # cs)" "\<not> record_used ?m (vol ?m (fsys s)) (unat ?c # cs) n"
      "\<And>j. j < n \<Longrightarrow> record_used ?m (vol ?m (fsys s)) (unat ?c # cs) j"
    using assms(1) by (simp_all add: current_dir_def)
  have "sint (of_nat len :: u32) = int len" using assms(2) sint_small [of "of_nat len"] by (simp add: unat_of_nat)
  from writeFile_spec [OF c this assms(3), of name content] obtain f d fs
    where "writeFile ?m ?c name content (of_nat len) (fsys s) = Inr ((), f)" "fs_inv ?m f"
      "file_stored ?m (unat ?c # cs) n (file_entry (writeFileName blank_name name) d len)
        (map content [0..<len]) d fs (vol ?m (fsys s)) (vol ?m f)"
    by blast
  then show ?thesis by (intro exI [of _ f] exI [of _ d] exI [of _ fs]) (simp add: write_file_def)
qed

text \<open>The directory after a file was stored in its first unused record.\<close>

lemma stored_dir:
  assumes dir: "current_dir s cs n" and n: "Suc n < dir_capacity (infoFat s) (unat (currentCluster s) # cs)" "Suc n < 2 ^ 31"
    and last: "\<not> record_used (infoFat s) (vol (infoFat s) (fsys s)) (unat (currentCluster s) # cs) (Suc n)"
    and st: "file_stored (infoFat s) (unat (currentCluster s) # cs) n e xs d fs (vol (infoFat s) (fsys s)) (vol (infoFat s) f)"
    and f: "fs_inv (infoFat s) f" and e: "ename e ! 0 \<noteq> 0"
  shows "current_dir (s\<lparr>fsys := f\<rparr>) cs (Suc n)"
    "dir_list (s\<lparr>fsys := f\<rparr>) cs = (dir_list s cs)[n := fill_record (dir_list s cs ! n) 0 e]"
proof -
  let ?m = "infoFat s" and ?ds = "unat (currentCluster s) # cs"
  have c: "wf_meta ?m" "fs_inv ?m (fsys s)" "chain ?m (vol ?m (fsys s)) ?ds" "n < dir_capacity ?m ?ds"
      "\<And>j. j < n \<Longrightarrow> record_used ?m (vol ?m (fsys s)) ?ds j"
    using dir by (simp_all add: current_dir_def)
  show r: "dir_list (s\<lparr>fsys := f\<rparr>) cs = (dir_list s cs)[n := fill_record (dir_list s cs ! n) 0 e]"
    using st by (simp add: file_stored_def)
  have ch: "chain ?m (vol ?m f) ?ds" by (rule stored_chain(1) [OF c(1,3) st])
  have "length (dir_list s cs ! n) = 32" using dir_list_record(1) [OF dir] by simp
  then have "fill_record (dir_list s cs ! n) 0 e ! 0 = ename e ! 0" by (simp add: fill_record_pokes nth_poke)
  then have used: "record_used ?m (vol ?m f) ?ds j \<longleftrightarrow> j = n \<or> record_used ?m (vol ?m (fsys s)) ?ds j"
    if "j < dir_capacity ?m ?ds" for j
    using record_used_iff [OF c(1) f ch that] record_used_iff [OF c(1-3) that] r e c(4) by (cases "j = n") auto
  show "current_dir (s\<lparr>fsys := f\<rparr>) cs (Suc n)"
    unfolding current_dir_def
    using c(1) f ch n last used [OF n(1)] used c(4,5) by (auto simp: less_Suc_eq simp del: chain.simps)
qed

lemma read_file_stored:
  assumes dir: "current_dir s cs n" and len: "length content < 0x10000"
    and st: "file_stored (infoFat s) (unat (currentCluster s) # cs) n (file_entry nm d (length content))
      content d fs (vol (infoFat s) (fsys s)) (vol (infoFat s) f)"
    and f: "fs_inv (infoFat s) f"
  shows "\<exists>g. read_file e (of_nat n) (s\<lparr>fsys := f, file_ind := i\<rparr>) = Inr (content, s\<lparr>fsys := g, file_ind := i\<rparr>) \<and>
    fs_inv (infoFat s) g \<and> vol (infoFat s) g = vol (infoFat s) f"
proof -
  let ?m = "infoFat s" and ?c = "currentCluster s"
  have n: "unat (of_nat n :: u32) = n" using dir by (simp add: current_dir_def unat_of_nat)
  have c: "wf_meta ?m" "fs_inv ?m (fsys s)" "chain ?m (vol ?m (fsys s)) (unat ?c # cs)"
      "unat (of_nat n :: u32) < dir_capacity ?m (unat ?c # cs)"
    using dir unfolding n by (simp_all add: current_dir_def)
  have "file_stored ?m (unat ?c # cs) (unat (of_nat n :: u32)) (file_entry nm d (length content))
      content d fs (vol ?m (fsys s)) (vol ?m f)"
    using st by (simp only: n)
  from stored_read_back [OF c len this f, of e] obtain s2 g x
    where "getMetadataFileFromDirectory ?m ?c (of_nat n) e f = Inr (x, s2)"
      "readFile ?m (efstCluster x) (esize x) s2 = Inr (content, g)" "fs_inv ?m g" "vol ?m g = vol ?m f"
    by blast
  then show ?thesis by (intro exI [of _ g]) (simp add: read_file_def)
qed

section \<open>Set-up\<close>

lemma wait_idle_floating:
  assumes "wait_idle dev p d = Some r" "\<And>d. fst (dev_inb dev p d) = 0xFF"
  shows False
  using assms
proof (induction rule: wait_idle.raw_induct [rotated, consumes 1, case_names step])
  case (step w dev p d r)
  obtain d' where "dev_inb dev p d = (0xFF, d')" using step(3) [of d] by (cases "dev_inb dev p d") auto
  then have "w dev p d' = Some r" using step(2) by simp
  then show ?case using step(1,3) by blast
qed

lemma pingDisk_absent:
  "(\<And>d. fst (dev_inb dev (port dr 7) d) = 0) \<Longrightarrow> \<exists>d'. pingDisk dev dr d = Some (0, d')"
  "(\<And>d. fst (dev_inb dev (port dr 7) d) = 0xFF) \<Longrightarrow> pingDisk dev dr d = None"
proof -
  show "\<exists>d'. pingDisk dev dr d = Some (0, d')" if "\<And>d. fst (dev_inb dev (port dr 7) d) = 0"
    using that by (auto simp: pingDisk_def Let_def split_beta)
  show "pingDisk dev dr d = None" if f: "\<And>d. fst (dev_inb dev (port dr 7) d) = 0xFF"
  proof -
    have "wait_idle dev (port dr 7) d = None" for d
      using wait_idle_floating [of dev "port dr 7" d] f by (cases "wait_idle dev (port dr 7) d") auto
    then show ?thesis using f by (simp add: pingDisk_def Let_def split_beta)
  qed
qed

lemma probe_none:
  assumes "\<And>dr d. \<exists>d'. pingDisk dev dr d = Some (0, d')"
  shows "\<exists>s' d'. probe_drives dev drs s d = Inr (s', d') \<and> foundDisk s' = foundDisk s"
proof (induction drs arbitrary: s d)
  case (Cons dr drs)
  obtain d' where "pingDisk dev dr d = Some (0, d')" using assms by blast
  then show ?case using Cons.IH [of "s\<lparr>activeDrive := dr\<rparr>" d'] by simp
qed simp

definition is_fat_type :: "bytes \<Rightarrow> nat \<Rightarrow> bool" where
  "is_fat_type b i \<longleftrightarrow> b ! (450 + 16 * i) = 0x0B \<or> b ! (450 + 16 * i) = 0x0C"

lemma findPartition_eq:
  "findPartition dr s =
     (case find (is_fat_type (disk s dr 0)) [0..<4] of
        Some i \<Rightarrow> load32 (disk s dr 0) (454 + 16 * i) | None \<Rightarrow> 0, read_sector dr 0 s)"
proof -
  have "(\<lambda>i. b ! (446 + 16 * i + 4) = 0x0B \<or> b ! (446 + 16 * i + 4) = 0x0C) = is_fat_type b" for b :: bytes
    by (simp add: fun_eq_iff is_fat_type_def add.commute)
  moreover have "446 + 16 * i + 8 = 454 + 16 * i" for i :: nat by simp
  ultimately show ?thesis
    by (simp only: findPartition_def Let_def) (simp add: read_sector_def split: option.split)
qed

section \<open>Examples\<close>

definition example_disk :: "fs \<Rightarrow> disk_state" where
  "example_disk f = \<lparr>fsys = f, partitionStart = 0, foundDisk = 1, activeDrive = \<lparr>channel = 0, drive = 0\<rparr>, infoFat = m0,
     currentCluster = 2, file_ind = 0\<rparr>"

definition blank_entry :: FAT32_entry where
  "blank_entry = \<lparr>ename = replicate 13 0, eattr = 0, efstCluster = 0, esize = 0\<rparr>"

text \<open>An MBR whose first partition is FAT32 and starts at sector 1, and the partition behind it.\<close>

definition example_mbr :: bytes where
  "example_mbr = poke 450 [0x0C, 0, 0, 0, 1, 0, 0, 0] (replicate 512 0)"

definition example_hdd :: fs where
  "example_hdd = \<lparr>disk = (\<lambda>dr n. if n = 0 then example_mbr else boot0), diskBuffer = replicate 512 0\<rparr>"

text \<open>Hardware on which every port reads 0x50: a drive that is ready at once.\<close>

definition ready_device :: "unit device" where
  "ready_device = floating\<lparr>dev_inb := (\<lambda>p d. (0x50, d))\<rparr>"

lemma dir_s0: "current_dir (example_disk s0) [] 0"
proof -
  have "\<not> record_used m0 (vol m0 s0) [unat (2 :: u32)] 0" using unused_s0 [of 0] by simp
  moreover have "chain m0 (vol m0 s0) [unat (2 :: u32)]" using chain_s0 by (simp del: chain.simps)
  ultimately show ?thesis
    using wf_m0 fs_inv_s0 by (simp add: current_dir_def example_disk_def del: chain.simps)
qed

lemma dir_s2: "current_dir (example_disk s2) [] 1" "dir_list (example_disk s2) [] ! 0 = 0x41 # peek 31 1 root2"
proof -
  have v: "vdata (vol m0 s2) 2 0 = root2"
    by (simp add: vdata_vol valid_cluster_def s2_def cluster_sector_def)
  have r: "dir_sector m0 (vol m0 s2) [2] k = root2" if "k < 16" for k
    using v that by (simp add: dir_sector_def dir_cluster_def dir_index_def)
  have "\<not> record_used m0 (vol m0 s2) [2] 1" "record_used m0 (vol m0 s2) [2] 0"
    by (simp_all add: record_used_def r root2_def nth_poke)
  moreover have "chain m0 (vol m0 s2) [unat (2 :: u32)]" using chain_s2(1) by (simp del: chain.simps)
  ultimately show "current_dir (example_disk s2) [] 1"
    using wf_m0 fs_inv_s2 by (simp add: current_dir_def example_disk_def del: chain.simps)
  have "peek 32 0 root2 = root2 ! 0 # peek 31 1 root2"
    by (intro nth_equalityI) (auto simp: peek_nth nth_Cons')
  moreover have "root2 ! 0 = 0x41" by (simp add: root2_def nth_poke)
  ultimately show "dir_list (example_disk s2) [] ! 0 = 0x41 # peek 31 1 root2"
    using r [of 0] by (simp add: dir_records_def example_disk_def record_at_def)
qed

lemma example_mount:
  "pingDisk ready_device \<lparr>channel = 0x1F0, drive = 0xB0\<rparr> () = Some (1, ())"
  "find (is_fat_type example_mbr) [0..<4] = Some 0" "load32 example_mbr 454 = 1"
proof -
  have w: "wait_idle ready_device p () = Some (0x50, ())" for p
    by (subst wait_idle.simps) (simp add: ready_device_def)
  show "pingDisk ready_device \<lparr>channel = 0x1F0, drive = 0xB0\<rparr> () = Some (1, ())"
    using w by (simp add: pingDisk_def Let_def split_beta) (simp add: ready_device_def)
  show "find (is_fat_type example_mbr) [0..<4] = Some 0"
    by (simp add: example_mbr_def is_fat_type_def nth_poke upt_rec)
  have "peek 4 454 (poke 450 [0x0C, 0, 0, 0, 1, 0, 0, 0] (replicate 512 0)) = [1, 0, 0, 0 :: u8]"
    by (simp add: peek_def poke_def)
  then show "load32 example_mbr 454 = 1" by (simp add: example_mbr_def load32_def)
qed

section \<open>Properties\<close>

text \<open>C25:
  In a directory whose used records are followed by an unused one, \<open>list_files\<close> always returns:
  with the number and the name of the next record that is not removed, and the position after it,
  or, when there is none left, with \<open>-1\<close> and the position back at the start. The disk is only read.\<close>

theorem list_files_next:
  assumes "current_dir s cs n" "named_records s cs n" "unat (file_ind s) \<le> n" "length (ename e) = 13"
  shows "\<exists>s'. disk (fsys s') = disk (fsys s) \<and> current_dir s' cs n \<and>
    (case find (\<lambda>j. \<not> removed_record (dir_list s cs ! j)) [unat (file_ind s)..<n] of
       Some j \<Rightarrow> file_ind s' = of_nat (Suc j) \<and>
         list_files e s = Some (Inr ((of_nat j, takeWhile (\<lambda>c. c \<noteq> 0) (short_name (dir_list s cs ! j)) @ [0]), s'))
     | None \<Rightarrow> file_ind s' = 0 \<and> list_files e s = Some (Inr ((- 1, []), s')))"
proof -
  obtain f where f: "fs_inv (infoFat s) f" "disk f = disk (fsys s)"
    "list_files e s = Some (Inr (
      case find (\<lambda>j. \<not> removed_record (dir_list s cs ! j)) [unat (file_ind s)..<n] of
        Some j \<Rightarrow> ((of_nat j, takeWhile (\<lambda>c. c \<noteq> 0) (short_name (dir_list s cs ! j)) @ [0]),
          s\<lparr>fsys := f, file_ind := of_nat (Suc j)\<rparr>)
      | None \<Rightarrow> ((- 1, []), s\<lparr>fsys := f, file_ind := 0\<rparr>)))"
    using list_files_spec [OF assms] by blast
  have "current_dir (s\<lparr>fsys := f, file_ind := i\<rparr>) cs n" for i
    using current_dir_update(1) [OF f(1,2), of i cs n] assms(1) by (auto simp: current_dir_def)
  then show ?thesis
    using f(2,3) by (cases "find (\<lambda>j. \<not> removed_record (dir_list s cs ! j)) [unat (file_ind s)..<n]") (auto intro!: exI)
qed

theorem list_files_next_witness:
  "\<exists>x s'. list_files blank_entry (example_disk s2) = Some (Inr ((0, x), s')) \<and> file_ind s' = 1"
proof -
  have "named_records (example_disk s2) [] 1" using dir_s2(2) by (simp add: named_records_def)
  moreover have "\<not> removed_record (dir_list (example_disk s2) [] ! 0)" using dir_s2(2) by (simp add: removed_record_def)
  ultimately show ?thesis
    using list_files_next [OF dir_s2(1), of blank_entry]
    by (auto simp: blank_entry_def example_disk_def)
qed

text \<open>C29:
  Making a directory and entering it by the number of its record leads to the new cluster, from
  which entering record 1, the link to the parent, leads back to where the command was given; the
  file system's invariant holds throughout.\<close>

theorem make_and_enter:
  assumes "current_dir s cs n" "currentCluster s \<noteq> 0"
    and "is_free (infoFat s) (vol (infoFat s) (fsys s)) d"
      "\<And>j. j < d \<Longrightarrow> \<not> is_free (infoFat s) (vol (infoFat s) (fsys s)) j"
  shows "\<exists>s1 s2 s3. make_directory name s = Inr s1 \<and> change_directory e (of_nat n) s1 = Inr s2 \<and>
    change_directory e 1 s2 = Inr s3 \<and> currentCluster s2 = of_nat d \<and> currentCluster s3 = currentCluster s \<and>
    fs_inv (infoFat s3) (fsys s3)"
proof -
  let ?m = "infoFat s" and ?c = "currentCluster s" and ?name = "writeFileName blank_name name"
  have c: "wf_meta ?m" "fs_inv ?m (fsys s)" "chain ?m (vol ?m (fsys s)) (unat ?c # cs)"
      "n < dir_capacity ?m (unat ?c # cs)" "n < 2 ^ 31"
    using assms(1) by (simp_all add: current_dir_def)
  obtain f where f: "make_directory name s = Inr (s\<lparr>fsys := f\<rparr>)" "fs_inv ?m f"
      "vol ?m f = vol_mkdir ?m ?c (unat ?c # cs) n ?name d (vol ?m (fsys s))"
    using make_directory_spec [OF assms(1,3,4)] by blast
  note r = vol_mkdir_records [OF c(1,3,4) length_dir_sector [OF c(1-4)] assms(3), of ?c ?name, folded f(3)]
  have dv: "unat (of_nat d :: u32) = d" "d \<noteq> 0"
    using assms(3) not_eoc_cluster(2) [OF c(1)] by (auto simp: is_free_def valid_cluster_def)
  have d0: "(of_nat d :: u32) \<noteq> 0" using dv by (metis unat_0)
  have n2: "n < 2 ^ 32" using c(5) by simp
  have rn: "dir_list (s\<lparr>fsys := f\<rparr>) cs ! n = fill_record (record_at ?m (vol ?m (fsys s)) (unat ?c # cs) n) 0
      \<lparr>ename = ?name, eattr = 16, efstCluster = of_nat d, esize = 0\<rparr>"
    using r(3) c(4) by simp
  obtain g where g: "change_directory e (of_nat n) (s\<lparr>fsys := f\<rparr>) =
      Inr (s\<lparr>fsys := g, currentCluster := of_nat d, file_ind := 0\<rparr>)" "fs_inv ?m g" "disk g = disk f"
    using enter_record [of "s\<lparr>fsys := f\<rparr>" cs n, OF _ _ _ _ n2 rn length_record_at [OF c(1-4)], of e]
      c(1,4) f(2) r(1) d0 by (auto simp del: chain.simps)
  let ?s2 = "s\<lparr>fsys := g, currentCluster := of_nat d, file_ind := 0\<rparr>"
  have vg: "vol ?m g = vol ?m f" by (simp only: vol_def g(3))
  have r1: "dir_list ?s2 [] ! 1 = fill_record (replicate 32 0) 0 \<lparr>ename = dotdot_name, eattr = 16, efstCluster = ?c, esize = 0\<rparr>"
    using r(4) vg dv(1) by simp
  have ch2: "chain ?m (vol ?m g) [unat (of_nat d :: u32)]" using r(2) vg dv(1) by (simp del: chain.simps)
  obtain h where h: "change_directory e (of_nat 1) ?s2 = Inr (?s2\<lparr>fsys := h, currentCluster := ?c, file_ind := 0\<rparr>)"
      "fs_inv ?m h"
    using enter_record [of ?s2 "[]" 1, OF _ _ _ _ _ r1, of e] c(1) g(2) ch2 two_records [OF c(1), of d] dv(1) assms(2)
    by (auto simp del: chain.simps)
  show ?thesis using f(1) g(1) h by auto
qed

theorem make_and_enter_witness:
  "\<exists>s1 s2 s3. make_directory (\<lambda>_. 0x41) (example_disk s0) = Inr s1 \<and> change_directory blank_entry 0 s1 = Inr s2 \<and>
    change_directory blank_entry 1 s2 = Inr s3 \<and> currentCluster s2 = 3 \<and> currentCluster s3 = 2"
  using make_and_enter [OF dir_s0, of 3 "\<lambda>_. 0x41" blank_entry] free_s0 by (auto simp: example_disk_def)

text \<open>A file written by the command is read back by the command that is given the number of the
  record it took: the same bytes, and the disk is as the write left it.\<close>

lemma write_file_read_file:
  assumes "current_dir s cs n" "len < 0x10000"
    and "sectors_for len div unat (sectorPerCluster (infoFat s)) < card (free_clusters (infoFat s) (vol (infoFat s) (fsys s)))"
  shows "\<exists>s1 s2. write_file content (of_nat len) name s = Inr s1 \<and>
    read_file e (of_nat n) s1 = Inr (map content [0..<len], s2) \<and>
    vol (infoFat s) (fsys s2) = vol (infoFat s) (fsys s1) \<and> currentCluster s2 = currentCluster s"
proof -
  let ?m = "infoFat s" and ?c = "currentCluster s"
  have n: "unat (of_nat n :: u32) = n" using assms(1) by (simp add: current_dir_def unat_of_nat)
  have c: "wf_meta ?m" "fs_inv ?m (fsys s)" "chain ?m (vol ?m (fsys s)) (unat ?c # cs)"
      "unat (of_nat n :: u32) < dir_capacity ?m (unat ?c # cs)"
      "\<not> record_used ?m (vol ?m (fsys s)) (unat ?c # cs) (unat (of_nat n :: u32))"
      "\<And>j. j < unat (of_nat n :: u32) \<Longrightarrow> record_used ?m (vol ?m (fsys s)) (unat ?c # cs) j"
    using assms(1) unfolding n by (simp_all add: current_dir_def)
  obtain s1 s2 s3 f where "writeFile ?m ?c name content (of_nat len) (fsys s) = Inr ((), s1)"
      "getMetadataFileFromDirectory ?m ?c (of_nat n) e s1 = Inr (f, s2)"
      "readFile ?m (efstCluster f) (esize f) s2 = Inr (map content [0..<len], s3)" "vol ?m s3 = vol ?m s1"
    using write_read_back [OF c assms(2,3), of name content e] by blast
  then show ?thesis by (auto simp: write_file_def read_file_def)
qed

text \<open>Set-up on a drive that answers: the first FAT32 partition of the partition table is mounted, its
  metadata is well-formed, the commands start in the root directory, and the disk is only read.\<close>

lemma setup_mounts:
  assumes "dr = possibleDrives ! 0" "pingDisk dev dr d = Some (1, d')"
    and "find (is_fat_type (disk (fsys s) dr 0)) [0..<4] = Some i"
      "p = load32 (disk (fsys s) dr 0) (454 + 16 * i)" "p \<noteq> 0" "b = disk (fsys s) dr (unat p)"
    and "load16 b 0x1FE = 0xAA55" "load16 b 0x0B = 512" "0 < unat (b ! 0x0D)" "0 < unat (b ! 0x10)" "0 < unat (load32 b 0x24)"
    and "unat p + unat (load16 b 0x0E) + unat (b ! 0x10) * unat (load32 b 0x24)
      + unat (b ! 0x0D) * (128 * unat (load32 b 0x24)) \<le> 2 ^ 28"
  shows "\<exists>s'. setupDrive dev s d = Inr (s', d') \<and> wf_meta (infoFat s') \<and> hardDrive (infoFat s') = dr \<and>
    partitionStart s' = p \<and> currentCluster s' = load32 b 0x2C \<and> disk (fsys s') = disk (fsys s)"
proof -
  let ?s = "s\<lparr>foundDisk := 1, activeDrive := dr\<rparr>" and ?f = "read_sector dr 0 (fsys s)"
  have probe: "probe_drives dev possibleDrives (s\<lparr>foundDisk := 0\<rparr>) d = Inr (?s, d')"
    using assms(1,2) by (simp add: possibleDrives_def)
  have part: "findPartition dr (fsys s) = (p, ?f)" using assms(3,4) by (simp add: findPartition_eq)
  have b: "b = disk ?f dr (unat p)" using assms(6) by (simp add: read_sector_def)
  obtain m g where m: "readBootSector dr p ?f = Inr (m, g)" "wf_meta m" "hardDrive m = dr" "disk g = disk ?f"
      "rootCluster m = load32 b 0x2C"
    using readBootSector_ok [OF b assms(9-12,7,8)] by blast
  have "setupDrive dev s d = Inr (?s\<lparr>partitionStart := p, fsys := g, infoFat := m, currentCluster := rootCluster m\<rparr>, d')"
    unfolding setupDrive_def probe by (simp add: part assms(5) m(1))
  then show ?thesis using m by (simp add: read_sector_def)
qed

text \<open>Set-up without a drive: when the status ports read 0 it stops with its message; when they read
  0xFF, as the lines of a channel without any device do, it waits for ever.\<close>

theorem setup_without_drive:
  assumes "\<And>p d. fst (dev_inb dev p d) = v" "v = 0 \<or> v = 0xFF"
  shows "setupDrive dev s d = (if v = 0 then Inl (Panic ''No disk found'') else Inl Diverges)"
proof (cases "v = 0")
  case True
  then have "\<exists>d'. pingDisk dev dr d = Some (0, d')" for dr d
    using pingDisk_absent(1) [of dev dr d] assms(1) by simp
  then obtain s' d' where "probe_drives dev possibleDrives (s\<lparr>foundDisk := 0\<rparr>) d = Inr (s', d')" "foundDisk s' = 0"
    using probe_none [of dev possibleDrives "s\<lparr>foundDisk := 0\<rparr>" d] by auto
  then show ?thesis using True by (simp add: setupDrive_def)
next
  case False
  then have "pingDisk dev dr d = None" for dr d
    using pingDisk_absent(2) [of dev dr d] assms by simp
  then show ?thesis using False by (simp add: setupDrive_def possibleDrives_def)
qed

theorem setup_without_drive_witness:
  "setupDrive floating (example_disk s0) () = Inl Diverges"
  using setup_without_drive [of floating "0xFF" "example_disk s0" "()"] by (simp add: floating_def)

end
