(* ===== verification/Interrupts.thy ===== *)
theory Interrupts
  imports Keyboard Disk_Commands
begin

text \<open>
  kernel/interrupt_handlers.c: the interrupt descriptor table, the programming of the interrupt
  controllers and the timer, the handlers of the system calls, and the dispatcher \<open>exception\<close>
  that the assembly wrappers call with the saved registers. The kernel state extends the machine
  of the keyboard handler with the disk and the flag \<open>reschedule\<close>. A pointer that a program passes
  in a register is an address of the memory. Handlers that leave for a process do not return to the
  dispatcher.
\<close>

section \<open>State\<close>

record IDT_entry =
  offset_low :: u16
  selector :: u16
  idt_ist :: "3 word"
  zero1 :: "5 word"
  type_attr :: u8
  offset_mid :: u16
  offset_high :: u32
  zero2 :: u32

record IDT_ptr =
  idt_limit :: u16
  idt_base :: u64

text \<open>The addresses of the assembly wrappers, of the table and of the kernel's objects.\<close>

record wrappers =
  pagefault_handler_wrapper :: u64
  time_handler_wrapper :: u64
  keyboard_handler_wrapper :: u64
  print_int_asm :: u64
  sys_getchar_handler_wrapper :: u64
  sys_write_char_handler_wrapper :: u64
  sys_cursor_handler_wrapper :: u64
  sys_list_files_handler_wrapper :: u64
  sys_mkdir_handler_wrapper :: u64
  sys_cd_handler_wrapper :: u64
  sys_rm_handler_wrapper :: u64
  sys_kb_tim_handler_wrapper :: u64
  sys_yield_handler_wrapper :: u64
  sys_start_handler_wrapper :: u64
  sys_stop_handler_wrapper :: u64
  sys_read_handler_wrapper :: u64
  sys_write_handler_wrapper :: u64
  IDTable_address :: u64

text \<open>
  The variables of the file, the register of the interrupt table and the interrupt flag, which \<open>sti\<close> sets at the end of the set-up.
  The kernel runs with it until it leaves for the shell, whose flags are part of its registers; the gates clear it on every entry.
\<close>

record kernel = machine +
  kdisk :: disk_state
  reschedule :: c_int
  IDTable :: "IDT_entry list"
  idtr :: IDT_ptr
  interrupt_flag :: bool

section \<open>Set-up\<close>

definition setupIDTEntry :: "u64 \<Rightarrow> c_int \<Rightarrow> IDT_entry" where
  "setupIDTEntry handlerAddr privilege =
     \<lparr>offset_low = ucast (handlerAddr AND 0xFFFF), selector = 0x08, idt_ist = 0, zero1 = 0,
      type_attr = ucast (0x8E + push_bit 5 privilege),
      offset_mid = ucast (drop_bit 16 handlerAddr AND 0xFFFF),
      offset_high = ucast (drop_bit 32 handlerAddr AND 0xFFFFFFFF), zero2 = 0\<rparr>"

definition setupIDTable :: "wrappers \<Rightarrow> IDT_entry list \<Rightarrow> IDT_entry list \<times> IDT_ptr" where
  "setupIDTable w t =
     (t[14 := setupIDTEntry (pagefault_handler_wrapper w) 0,
        32 := setupIDTEntry (time_handler_wrapper w) 0,
        33 := setupIDTEntry (keyboard_handler_wrapper w) 0,
        48 := setupIDTEntry (print_int_asm w) 3,
        0x80 := setupIDTEntry (sys_getchar_handler_wrapper w) 3,
        0x81 := setupIDTEntry (sys_write_char_handler_wrapper w) 3,
        0x82 := setupIDTEntry (sys_cursor_handler_wrapper w) 3,
        0x83 := setupIDTEntry (sys_list_files_handler_wrapper w) 3,
        0x84 := setupIDTEntry (sys_mkdir_handler_wrapper w) 3,
        0x85 := setupIDTEntry (sys_cd_handler_wrapper w) 3,
        0x86 := setupIDTEntry (sys_rm_handler_wrapper w) 3,
        0x87 := setupIDTEntry (sys_kb_tim_handler_wrapper w) 3,
        0x88 := setupIDTEntry (sys_yield_handler_wrapper w) 3,
        0x89 := setupIDTEntry (sys_start_handler_wrapper w) 3,
        0x8A := setupIDTEntry (sys_stop_handler_wrapper w) 3,
        0x8B := setupIDTEntry (sys_read_handler_wrapper w) 3,
        0x8C := setupIDTEntry (sys_write_handler_wrapper w) 3],
      \<lparr>idt_limit = 256 * 16 - 1, idt_base = IDTable_address w\<rparr>)"

definition TIMER_DIV :: "nat \<Rightarrow> nat" where
  "TIMER_DIV x = (1193182 + x div 2) div x"

definition setupPIC :: "io \<Rightarrow> io" where
  "setupPIC s =
     fold (\<lambda>(p, v). outb p v)
       [(0x20, 0x11), (0xA0, 0x11),
        (0x21, 0x20), (0x20, 0x28),
        (0x21, 0x04), (0xA1, 0x02),
        (0x21, 0x01), (0xA1, 0x01),
        (0x40 + 3, 0x00 OR 0x04 OR 0x30), (0x40, of_nat (TIMER_DIV 100 mod 256)), (0x40, of_nat (TIMER_DIV 100 div 256)),
        (0x21, 0xFF), (0xA1, 0xFF)] s"

definition setupInterrupts :: "wrappers \<Rightarrow> kernel \<Rightarrow> kernel" where
  "setupInterrupts w s =
     (let (t, p) = setupIDTable w (IDTable s) in
      s\<lparr>IDTable := t, mio := setupPIC (mio s), idtr := p, interrupt_flag := True\<rparr>)"

section \<open>Handlers\<close>

text \<open>
  The bytes behind a pointer, and a copy of bytes to where a pointer leads. The kernel does not check the pointers of a program, and
  its own variables, its stack and the screen lie in the same address space: a pointer that leads out of the slots of the
  programs is the error \<open>OutOfBounds\<close>. Of a name the kernel reads at most twelve bytes.
\<close>

definition user_memory :: "u64 \<Rightarrow> nat \<Rightarrow> bool" where
  "user_memory a n \<longleftrightarrow> n = 0 \<or> 0x100000 \<le> unat a \<and> unat a + n \<le> 0x300000"

definition check_user :: "u64 \<Rightarrow> nat \<Rightarrow> unit result" where
  "check_user a n = (if user_memory a n then Inr () else Inl OutOfBounds)"

definition user_bytes :: "kernel \<Rightarrow> u64 \<Rightarrow> nat \<Rightarrow> u8" where
  "user_bytes s a = (\<lambda>i. memory (vmem (msys s)) (a + of_nat i))"

definition put_bytes :: "u64 \<Rightarrow> bytes \<Rightarrow> kernel \<Rightarrow> kernel" where
  "put_bytes a bs s = s\<lparr>msys := (msys s)\<lparr>vmem := (vmem (msys s))\<lparr>memory :=
     (\<lambda>x. if in_region x a (length bs) then bs ! unat (x - a) else memory (vmem (msys s)) x)\<rparr>\<rparr>\<rparr>"

definition copy_out :: "u64 \<Rightarrow> bytes \<Rightarrow> kernel \<Rightarrow> kernel result" where
  "copy_out a bs s = bind (check_user a (length bs)) (\<lambda>_. Inr (put_bytes a bs s))"

definition set_rax :: "u64 \<Rightarrow> kernel \<Rightarrow> kernel" where
  "set_rax v s =
     (let y = msys s; p = procs y ! current y in
      s\<lparr>msys := y\<lparr>procs := (procs y)[current y := p\<lparr>reg := (reg p)\<lparr>reg_rax := v\<rparr>\<rparr>]\<rparr>\<rparr>)"

definition sys_write_char_handler :: "registers_t \<Rightarrow> kernel \<Rightarrow> kernel result" where
  "sys_write_char_handler r s =
     bind (shell_print_char (ucast (reg_rsi r)) (ucast (reg_rdi r)) (mio s)) (\<lambda>x. Inr (s\<lparr>mio := x\<rparr>))"

definition sys_getchar_handler :: "kernel \<Rightarrow> kernel" where
  "sys_getchar_handler s =
     (let y = msys s; p = procs y ! current y; k = mkb s in
      if kb_head k = kb_tail k then
        s\<lparr>msys := y\<lparr>procs := (procs y)[current y := p\<lparr>pstate := P_BLOCKED\<rparr>]\<rparr>,
          mkb := k\<lparr>keyboard_waiting := Some (current y)\<rparr>, reschedule := 1\<rparr>
      else
        let (val, k) = kb_buffer_get k in set_rax (scast val) (s\<lparr>mkb := k\<rparr>))"

definition sys_list_files_handler :: "FAT32_entry \<Rightarrow> registers_t \<Rightarrow> kernel \<Rightarrow> kernel result" where
  "sys_list_files_handler e r s =
     bind (of_loop (list_files e (kdisk s))) (\<lambda>((cont, name), d).
     bind (copy_out (reg_rdi r) name (s\<lparr>kdisk := d\<rparr>)) (\<lambda>s. Inr (set_rax (scast cont) s)))"

definition sys_cursor_handler :: "registers_t \<Rightarrow> kernel \<Rightarrow> kernel" where
  "sys_cursor_handler r s =
     s\<lparr>mio := outb 0x3D5 (ucast (drop_bit 8 (reg_rdi r) AND 0xFF)) (outb 0x3D4 0x0E
        (outb 0x3D5 (ucast (reg_rdi r AND 0xFF)) (outb 0x3D4 0x0F (mio s))))\<rparr>"

definition sys_mkdir_handler :: "registers_t \<Rightarrow> kernel \<Rightarrow> kernel result" where
  "sys_mkdir_handler r s =
     bind (check_user (reg_rdi r) 12) (\<lambda>_.
     bind (make_directory (user_bytes s (reg_rdi r)) (kdisk s)) (\<lambda>d. Inr (s\<lparr>kdisk := d\<rparr>)))"

definition sys_cd_handler :: "FAT32_entry \<Rightarrow> registers_t \<Rightarrow> kernel \<Rightarrow> kernel result" where
  "sys_cd_handler e r s = bind (change_directory e (ucast (reg_rdi r)) (kdisk s)) (\<lambda>d. Inr (s\<lparr>kdisk := d\<rparr>))"

definition sys_rm_handler :: "registers_t \<Rightarrow> kernel \<Rightarrow> kernel result" where
  "sys_rm_handler r s = bind (remove_directory (ucast (reg_rdi r)) (kdisk s)) (\<lambda>d. Inr (s\<lparr>kdisk := d\<rparr>))"

definition time_handler :: "kernel \<Rightarrow> kernel" where
  "time_handler s = s\<lparr>reschedule := 1, mio := outb 0x20 0x20 (mio s)\<rparr>"

definition sys_yield :: "kernel \<Rightarrow> kernel" where
  "sys_yield s = s\<lparr>reschedule := 1\<rparr>"

text \<open>
  The \<open>switch\<close> of \<open>exception\<close>. The result also says whether a handler has left for a process,
  which only the keyboard handler does. \<open>c\<close> is what the keyboard's port reads, \<open>e\<close> the
  uninitialised local of the file commands.
\<close>

definition dispatch ::
  "ramimage list \<Rightarrow> u8 \<Rightarrow> FAT32_entry \<Rightarrow> registers_t \<Rightarrow> kernel \<Rightarrow> (bool \<times> kernel) result" where
  "dispatch ramimages c e r s =
     (let n = reg_intno r; stay = (\<lambda>s. Inr (False, s)) in
      if n = 0x80 then stay (sys_getchar_handler s)
      else if n = 0x81 then bind (sys_write_char_handler r s) stay
      else if n = 0x83 then bind (sys_list_files_handler e r s) stay
      else if n = 0x82 then stay (sys_cursor_handler r s)
      else if n = 0x84 then bind (sys_mkdir_handler r s) stay
      else if n = 0x85 then bind (sys_cd_handler e r s) stay
      else if n = 0x86 then bind (sys_rm_handler r s) stay
      else if n = 32 then stay (time_handler s)
      else if n = 33 then Inr (keyboard_handler c s)
      else if n = 0x87 then stay (s\<lparr>mio := outb 0xA1 0xFF (outb 0x21 0xFC (mio s))\<rparr>)
      else if n = 0x88 then stay (sys_yield s)
      else if n = 0x89 then bind (sys_start ramimages r (msys s)) (\<lambda>y. stay (s\<lparr>msys := y\<rparr>))
      else if n = 0x8A then bind (sys_stop r (msys s)) (\<lambda>y. stay (s\<lparr>msys := y\<rparr>))
      else if n = 0x8B then
        bind (read_file e (ucast (reg_rdi r)) (kdisk s)) (\<lambda>(content, d).
          bind (copy_out (reg_rsi r) content (s\<lparr>kdisk := d\<rparr>)) stay)
      else if n = 0x8C then
        bind (check_user (reg_rdi r) (nat (sint (ucast (reg_rsi r) :: c_int)))) (\<lambda>_.
        bind (check_user (reg_rdx r) 12) (\<lambda>_.
        bind (write_file (user_bytes s (reg_rdi r)) (ucast (reg_rsi r)) (user_bytes s (reg_rdx r)) (kdisk s)) (\<lambda>d.
          stay (s\<lparr>kdisk := d\<rparr>))))
      else stay s)"

text \<open>Saving the registers on entry, and the choice of the process to go on with.\<close>

definition enter_kernel :: "layout \<Rightarrow> registers_t \<Rightarrow> kernel \<Rightarrow> kernel" where
  "enter_kernel L r s =
     (let y = msys s in
      s\<lparr>msys := y\<lparr>procs := (procs y)[current y := (procs y ! current y)\<lparr>reg := r\<rparr>],
                   vmem := change_pagetable (kernel_pagetables L) (vmem y)\<rparr>\<rparr>)"

definition leave_kernel :: "kernel \<Rightarrow> kernel" where
  "leave_kernel s =
     (let y = msys s in
      if reschedule s = 0 \<and> pstate (procs y ! current y) = P_RUNNABLE then s\<lparr>msys := run (current y) y\<rparr>
      else s\<lparr>reschedule := 0, msys := schedule y\<rparr>)"

definition exception ::
  "layout \<Rightarrow> ramimage list \<Rightarrow> u8 \<Rightarrow> FAT32_entry \<Rightarrow> registers_t \<Rightarrow> kernel \<Rightarrow> kernel result" where
  "exception L ramimages c e r s =
     bind (dispatch ramimages c e r (enter_kernel L r s)) (\<lambda>(left, s).
     Inr (if left then s else leave_kernel s))"

end
