(* ===== verification/Process_Correct.thy ===== *)
theory Process_Correct
  imports Process_Load
begin

text \<open>
  What the process component promises: the round-robin choice and its fairness, the image a
  loaded program finds, the requests to start and stop a program with their failures, and the
  invariant of the process table along every sequence of operations.
\<close>

section \<open>Operations as steps\<close>

text \<open>The operations the rest of the kernel applies to the process component.\<close>

inductive system_step :: "layout \<Rightarrow> ramimage list \<Rightarrow> system \<Rightarrow> system \<Rightarrow> bool"
  for L :: layout and ramimages :: "ramimage list" where
  step_schedule: "system_step L ramimages s (schedule s)"
| step_run: "system_step L ramimages s (run (current s) s)"
| step_start: "sys_start ramimages r s = Inr s' \<Longrightarrow> system_step L ramimages s s'"
| step_stop: "sys_stop r s = Inr s' \<Longrightarrow> system_step L ramimages s s'"
| step_save: "system_step L ramimages s
    (s\<lparr>procs := (procs s)[current s := (procs s ! current s)\<lparr>reg := r\<rparr>],
       vmem := change_pagetable (kernel_pagetables L) (vmem s)\<rparr>)"
| step_block: "system_step L ramimages s
    (s\<lparr>procs := (procs s)[i := (procs s ! i)\<lparr>pstate := st\<rparr>]\<rparr>)"

inductive system_steps :: "layout \<Rightarrow> ramimage list \<Rightarrow> system \<Rightarrow> system \<Rightarrow> bool"
  for L :: layout and ramimages :: "ramimage list" where
  steps_none: "system_steps L ramimages s s"
| steps_more: "system_steps L ramimages s s' \<Longrightarrow> system_step L ramimages s' s'' \<Longrightarrow> system_steps L ramimages s s''"

definition images_ok :: "layout \<Rightarrow> ramimage list \<Rightarrow> (nat \<Rightarrow> nat) \<Rightarrow> bool" where
  "images_ok L ramimages len \<longleftrightarrow> length ramimages = 4 \<and> (\<forall>k < 4. image_ok L (ramimages ! k) (len k))"

lemma sys_start_eq:
  "sys_start ramimages r s =
     (let i = unat (reg_rdi r) in
      if reg_rdi r \<noteq> 2 \<and> reg_rdi r \<noteq> 3 then Inl (Panic ''Not a startable process'')
      else if pstate (procs s ! i) \<noteq> P_FREE then Inl (Panic ''Process already running'')
      else load_process ramimages i i s)"
  by (simp add: sys_start_def kassert_def Let_def)

lemma startable_index: "reg_rdi r = 2 \<or> reg_rdi r = 3 \<Longrightarrow> unat (reg_rdi r) < 4"
  by auto

lemma sys_start_ok:
  assumes "layout_ok L" "images_ok L ramimages len" "system_ok L s" "sys_start ramimages r s = Inr s'"
  shows "system_ok L s'"
proof -
  let ?i = "unat (reg_rdi r)"
  have r: "reg_rdi r = 2 \<or> reg_rdi r = 3" and l: "load_process ramimages ?i ?i s = Inr s'"
    using assms(4) unfolding sys_start_eq Let_def by (simp_all split: if_splits)
  then have "image_ok L (ramimages ! ?i) (len ?i)" "?i < 8"
    using startable_index [OF r] assms(2) by (simp_all add: images_ok_def)
  from load_process_spec [OF assms(1,3) this(2,1)] l show ?thesis by auto
qed

lemma system_ok_update:
  assumes "system_ok L s" "pid q = pid (procs s ! i)" "page_table q = page_table (procs s ! i)"
  shows "system_ok L (s\<lparr>procs := (procs s)[i := q]\<rparr>)"
  using assms procs_ok_update [of L s q i] by (simp add: system_ok_def)

lemma system_ok_pagetable: "system_ok L s \<Longrightarrow> system_ok L (s\<lparr>vmem := change_pagetable K (vmem s)\<rparr>)"
  by (simp add: system_ok_def procs_ok_def change_pagetable_eq)

lemma system_step_ok:
  assumes "layout_ok L" "images_ok L ramimages len"
  shows "system_step L ramimages s s' \<Longrightarrow> system_ok L s \<Longrightarrow> system_ok L s'"
proof (induction rule: system_step.induct)
  case (step_run s)
  then show ?case using run_ok [of L s "current s"] by (simp add: system_ok_def)
next
  case (step_start r s s')
  then show ?case using sys_start_ok [OF assms] by blast
next
  case (step_stop r s s')
  then show ?case using sys_stop_ok by blast
next
  case (step_save s r)
  from system_ok_pagetable [OF system_ok_update [OF this, of "(procs s ! current s)\<lparr>reg := r\<rparr>" "current s"]]
  show ?case by simp
qed (auto intro: schedule_ok system_ok_update)

section \<open>Scheduling\<close>

definition example_running :: system where
  "example_running = example_system\<lparr>procs := (map (fresh_proc example_layout) [0..<8])
     [0 := (fresh_proc example_layout 0)\<lparr>pstate := P_RUNNABLE\<rparr>,
      1 := (fresh_proc example_layout 1)\<lparr>pstate := P_RUNNABLE\<rparr>,
      3 := (fresh_proc example_layout 3)\<lparr>pstate := P_RUNNABLE\<rparr>], current := 1\<rparr>"

lemma system_ok_running: "system_ok example_layout example_running"
proof -
  have "procs_ok example_layout example_running"
    unfolding procs_ok_def example_running_def by (simp add: fresh_proc_def nth_list_update del: upt_Suc)
  then show ?thesis using system_ok_example by (simp add: system_ok_def example_running_def example_system_def)
qed

lemma procs_schedule [simp]: "procs (schedule s) = procs s"
  by (simp add: schedule_def run_def)

lemma iterate_schedule:
  assumes "system_ok L s"
  shows "system_ok L ((schedule ^^ n) s)" "procs ((schedule ^^ n) s) = procs s"
  using assms by (induction n) (simp_all add: schedule_ok)

text \<open>C10:
  The scheduler runs the first runnable process after the current one, in the order of the
  identifiers and starting again at 1 after 7; the idle process 0 runs only when no other
  process is runnable. The registers of the chosen process are loaded into the processor
  together with its page table.\<close>

theorem schedule_round_robin:
  assumes "system_ok L s"
  shows "schedule s = run (next_process (procs s) (current s)) s \<and>
    current (schedule s) = next_process (procs s) (current s) \<and>
    cpu (schedule s) = reg (procs s ! current (schedule s)) \<and>
    (if \<exists>i \<in> {1..<8}. runnable (procs s) i
     then current (schedule s) \<in> {1..<8} \<and> runnable (procs s) (current (schedule s)) \<and>
       (\<forall>j \<in> {1..<8}. runnable (procs s) j \<longrightarrow> distance (current s) (current (schedule s)) \<le> distance (current s) j)
     else current (schedule s) = 0)"
proof -
  let ?c = "current s" and ?ps = "procs s"
  let ?y = "next_process ?ps ?c"
  have c: "?c < 8" and eq: "schedule s = run ?y s"
    using assms schedule_eq [of L s] by (auto simp: system_ok_def)
  have "if \<exists>i \<in> {1..<8}. runnable ?ps i
     then ?y \<in> {1..<8} \<and> runnable ?ps ?y \<and> (\<forall>j \<in> {1..<8}. runnable ?ps j \<longrightarrow> distance ?c ?y \<le> distance ?c j)
     else ?y = 0"
    by (rule next_process_first [OF c])
  moreover have "current (run ?y s) = ?y" "cpu (run ?y s) = reg (procs s ! ?y)" by (simp_all add: run_def)
  ultimately show ?thesis unfolding eq by (simp only: simp_thms)
qed

theorem schedule_round_robin_witness:
  "current (schedule example_running) = 3"
proof -
  have "next_process (procs example_running) (current example_running) = 3"
    by (simp add: example_running_def next_process_def turn_order_def runnable_def fresh_proc_def upt_rec)
  moreover have "current (schedule example_running) = next_process (procs example_running) (current example_running)"
    using schedule_round_robin [OF system_ok_running] by (elim conjE)
  ultimately show ?thesis by (rule trans [rotated])
qed

text \<open>C28:
  No starvation: whatever happens to the process table between the choices, a process that
  stays runnable gets the processor within seven choices of the scheduler.\<close>

theorem schedule_fair:
  assumes "\<And>n. system_ok L (\<sigma> n)" "\<And>n. current (\<sigma> (Suc n)) = current (schedule (\<sigma> n))"
    and "1 \<le> i" "i < PROC_NUMBER" "\<And>n. n < 7 \<Longrightarrow> pstate (procs (\<sigma> n) ! i) = P_RUNNABLE"
  shows "\<exists>n. 0 < n \<and> n \<le> 7 \<and> current (\<sigma> n) = i"
proof -
  have c: "current (\<sigma> n) < 8" for n using assms(1) by (simp add: system_ok_def)
  have t: "current (\<sigma> n) = turns (\<lambda>n. procs (\<sigma> n)) (current (\<sigma> 0)) n" for n
  proof (induction n)
    case (Suc n)
    then show ?case
      using assms(1,2) [of n] schedule_eq [of L "\<sigma> n"] by (simp add: system_ok_def run_def)
  qed simp
  have "\<exists>n. 0 < n \<and> n \<le> 7 \<and> turns (\<lambda>n. procs (\<sigma> n)) (current (\<sigma> 0)) n = i"
    using assms(5) by (intro turns_reach [OF c [of 0] assms(3,4)]) (simp add: runnable_def)
  then show ?thesis unfolding t [symmetric] .
qed

theorem schedule_fair_witness:
  "\<exists>n. 0 < n \<and> n \<le> 7 \<and> current ((schedule ^^ n) example_running) = 3"
proof (rule schedule_fair [of example_layout "\<lambda>n. (schedule ^^ n) example_running"])
  show "system_ok example_layout ((schedule ^^ n) example_running)" for n
    by (rule iterate_schedule(1) [OF system_ok_running])
  show "pstate (procs ((schedule ^^ n) example_running) ! 3) = P_RUNNABLE" for n
    unfolding iterate_schedule(2) [OF system_ok_running] by (simp add: example_running_def del: upt_Suc)
  show "current ((schedule ^^ Suc n) example_running) = current (schedule ((schedule ^^ n) example_running))" for n
    by (simp only: funpow.simps o_apply)
qed (simp_all only: one_le_numeral numeral_less_iff, simp)

section \<open>Loading programs\<close>

text \<open>C11:
  Loading program \<open>k\<close> into slot \<open>i\<close> returns, and afterwards: the bytes of the binary stand at
  \<open>0x100000 + i * 0x40000\<close>, the stack page at the end of the slot is zero, the pages of the
  program and its stack are mapped to themselves for the user and every other page of the first
  four mebibytes is mapped as before, no byte outside the slot and the page tables has changed
  (the other programs and the kernel included), and the process starts at the first byte of its
  slot with its stack at the end of it.\<close>

theorem load_process_isolated:
  assumes "layout_ok L" "system_ok L s" "i < PROC_NUMBER" "image_ok L (ramimages ! k) n"
  shows "\<exists>s'. load_process ramimages i k s = Inr s' \<and> system_ok L s' \<and>
    mem_bytes (memory (vmem s')) (of_nat (proc_base i)) n = mem_bytes (memory (vmem s)) (image_begin (ramimages ! k)) n \<and>
    (\<forall>x. proc_base i + 0x3F000 \<le> unat x \<and> unat x < proc_base i + 0x40000 \<longrightarrow> memory (vmem s') x = 0) \<and>
    (\<forall>j < 1024. leaf (kernel_pagetables L) (memory (vmem s')) j =
       (if proc_base i div 4096 \<le> j \<and> j < proc_base i div 4096 + program_pages n \<or> j = proc_base i div 4096 + 63
        then (of_nat j * PAGE_SIZE) OR 7 else leaf (kernel_pagetables L) (memory (vmem s)) j)) \<and>
    (\<forall>x. \<not> in_region x (kernel_pagetables L) 0x5000 \<longrightarrow> unat x < proc_base i \<or> proc_base i + 0x40000 \<le> unat x
       \<longrightarrow> memory (vmem s') x = memory (vmem s) x) \<and>
    pstate (procs s' ! i) = P_RUNNABLE \<and> reg_rip (reg (procs s' ! i)) = of_nat (proc_base i) \<and>
    reg_rsp (reg (procs s' ! i)) = of_nat (proc_base i + 0x40000 - 8) \<and>
    (\<forall>j. j \<noteq> i \<longrightarrow> procs s' ! j = procs s ! j)"
proof -
  have len: "i < length (procs s)" using assms(2,3) by (simp add: system_ok_def procs_ok_def)
  obtain s' where s': "load_process ramimages i k s = Inr s'" "system_ok L s'"
      "loaded L i (ramimages ! k) n (vmem s) (vmem s')"
      "procs s' = (procs s)[i := (procs s ! i)
        \<lparr>reg := (reg (procs s ! i))\<lparr>reg_rip := of_nat (proc_base i), reg_rsp := of_nat (proc_base i + 0x40000 - 8)\<rparr>,
         pstate := P_RUNNABLE\<rparr>]"
    using load_process_spec [OF assms] by blast
  have "pstate (procs s' ! i) = P_RUNNABLE" "reg_rip (reg (procs s' ! i)) = of_nat (proc_base i)"
    "reg_rsp (reg (procs s' ! i)) = of_nat (proc_base i + 0x40000 - 8)" "\<forall>j. j \<noteq> i \<longrightarrow> procs s' ! j = procs s ! j"
    using len by (simp_all only: s'(4) nth_list_update_eq nth_list_update_neq) (simp_all add: nth_list_update)
  with s'(1-3) show ?thesis unfolding loaded_def by blast
qed

theorem load_process_isolated_witness:
  "\<exists>s'. load_process (replicate 4 example_image) 2 2 example_running = Inr s' \<and> pstate (procs s' ! 2) = P_RUNNABLE"
proof -
  have "(2 :: nat) < PROC_NUMBER" "image_ok example_layout (replicate 4 example_image ! 2) 0x2000"
    using image_ok_example by simp_all
  from load_process_isolated [OF layout_ok_example system_ok_running this] show ?thesis by blast
qed

text \<open>The start of the system: after the page tables are set up, \<open>init_processes\<close> and
  \<open>launch_shell\<close> return with the idle process and the shell loaded and runnable, the other six
  slots free, and the processor at the first instruction of the shell in user mode with interrupts
  enabled.\<close>

lemma boot_runs_shell:
  assumes L: "layout_ok L" and img: "image_ok L (ramimages ! 0) n0" "image_ok L (ramimages ! 1) n1"
    and s: "current s < PROC_NUMBER" "upper_tables (kernel_pagetables L) (memory (vmem s))"
      "length (frames_info (vmem s)) = FRAME_NUMBER"
  shows "\<exists>s'. bind (init_processes L ramimages s) (launch_shell ramimages) = Inr s' \<and> system_ok L s' \<and>
    current s' = 1 \<and> reg_rip (cpu s') = 0x140000 \<and> reg_rsp (cpu s') = 0x17FFF8 \<and> reg_cs (cpu s') = 0x13 \<and>
    reg_rflags (cpu s') = 0x200 \<and>
    mem_bytes (memory (vmem s')) 0x140000 n1 = mem_bytes (memory (vmem s)) (image_begin (ramimages ! 1)) n1 \<and>
    (\<forall>i < PROC_NUMBER. pstate (procs s' ! i) = (if i \<le> 1 then P_RUNNABLE else P_FREE)) \<and>
    cpu s' = reg (procs s' ! 1) \<and> cr3 (vmem s') = page_table (procs s' ! 1)"
proof -
  obtain s1 where s1: "init_processes L ramimages s = Inr s1" "system_ok L s1"
      "loaded L 0 (ramimages ! 0) n0 (vmem s) (vmem s1)" "runnable (procs s1) 0"
      "\<forall>i. 1 \<le> i \<and> i < PROC_NUMBER \<longrightarrow> procs s1 ! i = fresh_proc L i"
    using init_processes_spec [OF L img(1) s] by blast
  define q where "q = (fresh_proc L 1)
    \<lparr>reg := (reg (fresh_proc L 1))\<lparr>reg_rip := of_nat (proc_base 1), reg_rsp := of_nat (proc_base 1 + 0x40000 - 8)\<rparr>,
     pstate := P_RUNNABLE\<rparr>"
  obtain s2 where s2: "load_process ramimages 1 1 s1 = Inr s2" "system_ok L s2"
      "loaded L 1 (ramimages ! 1) n1 (vmem s1) (vmem s2)" "procs s2 = (procs s1)[1 := q]"
    using load_process_spec [OF L s1(2) _ img(2), of 1] s1(5) unfolding q_def by auto
  have len: "length (procs s1) = 8" using s1(2) by (simp add: system_ok_def procs_ok_def)
  have st: "\<forall>i < PROC_NUMBER. pstate (procs s2 ! i) = (if i \<le> 1 then P_RUNNABLE else P_FREE)"
    using s1(4,5) len by (auto simp: s2(4) nth_list_update q_def runnable_def fresh_proc_def le_Suc_eq)
  have "mem_bytes (memory (vmem s1)) (image_begin (ramimages ! 1)) n1 =
      mem_bytes (memory (vmem s)) (image_begin (ramimages ! 1)) n1"
  proof (rule mem_bytes_cong)
    fix j assume "j < n1"
    then show "memory (vmem s1) (image_begin (ramimages ! 1) + of_nat j) =
        memory (vmem s) (image_begin (ramimages ! 1) + of_nat j)"
      using image_below [OF img(2)] img(2) s1(3) by (simp add: image_ok_def loaded_def proc_base_def)
  qed
  then have img1: "mem_bytes (memory (vmem s2)) 0x140000 n1 = mem_bytes (memory (vmem s)) (image_begin (ramimages ! 1)) n1"
    using s2(3) by (simp add: loaded_def proc_base_def)
  have r: "bind (init_processes L ramimages s) (launch_shell ramimages) = Inr (run 1 s2)"
    by (simp only: s1(1) s2(1) launch_shell_def bind_Inr)
  have "procs s2 ! 1 = q" using len by (simp add: s2(4))
  then have "current (run 1 s2) = 1" "cpu (run 1 s2) = reg q" "procs (run 1 s2) = procs s2"
    "memory (vmem (run 1 s2)) = memory (vmem s2)" "cr3 (vmem (run 1 s2)) = page_table q"
    by (simp_all add: run_def change_pagetable_eq)
  moreover have "reg_rip (reg q) = 0x140000" "reg_rsp (reg q) = 0x17FFF8" "reg_cs (reg q) = 0x13" "reg_rflags (reg q) = 0x200"
    by (simp_all add: q_def proc_base_def fresh_proc_def)
  ultimately show ?thesis using r run_ok [OF s2(2), of 1] st img1 \<open>procs s2 ! 1 = q\<close> by auto
qed

section \<open>Starting and stopping\<close>

text \<open>C30:
  A request to start a program fails with the message of the failed assertion unless it names
  process 2 or 3 and that process is free; then the program of that number is loaded into that
  slot, it becomes runnable, and the registers it does not set keep what a stopped predecessor
  left in them.\<close>

theorem sys_start_outcome:
  assumes "layout_ok L" "images_ok L ramimages len" "system_ok L s"
  shows "if reg_rdi r \<noteq> 2 \<and> reg_rdi r \<noteq> 3
       then sys_start ramimages r s = Inl (Panic ''Not a startable process'')
     else if pstate (procs s ! unat (reg_rdi r)) \<noteq> P_FREE
       then sys_start ramimages r s = Inl (Panic ''Process already running'')
     else \<exists>s'. sys_start ramimages r s = Inr s' \<and> system_ok L s' \<and>
       loaded L (unat (reg_rdi r)) (ramimages ! unat (reg_rdi r)) (len (unat (reg_rdi r))) (vmem s) (vmem s') \<and>
       runnable (procs s') (unat (reg_rdi r)) \<and>
       reg_rax (reg (procs s' ! unat (reg_rdi r))) = reg_rax (reg (procs s ! unat (reg_rdi r)))"
proof (cases "(reg_rdi r = 2 \<or> reg_rdi r = 3) \<and> pstate (procs s ! unat (reg_rdi r)) = P_FREE")
  case True
  let ?i = "unat (reg_rdi r)"
  have i: "?i < 4" using startable_index True by blast
  then have im: "image_ok L (ramimages ! ?i) (len ?i)" "?i < 8" using assms(2) by (simp_all add: images_ok_def)
  have len: "?i < length (procs s)" using assms(3) im(2) by (simp add: system_ok_def procs_ok_def)
  obtain s' where "load_process ramimages ?i ?i s = Inr s'" "system_ok L s'"
      "loaded L ?i (ramimages ! ?i) (len ?i) (vmem s) (vmem s')" "runnable (procs s') ?i"
      "reg_rax (reg (procs s' ! ?i)) = reg_rax (reg (procs s ! ?i))"
    using load_process_spec [OF assms(1,3) im(2,1)] len by (auto simp: runnable_def)
  then show ?thesis using True by (auto simp: sys_start_eq Let_def)
qed (auto simp: sys_start_eq Let_def)

theorem sys_start_outcome_witness:
  "\<exists>s'. sys_start (replicate 4 example_image) (zero_registers\<lparr>reg_rdi := 2\<rparr>) example_running = Inr s' \<and>
     runnable (procs s') 2"
proof -
  have "images_ok example_layout (replicate 4 example_image) (\<lambda>_. 0x2000)"
    using image_ok_example by (simp add: images_ok_def)
  moreover have "pstate (procs example_running ! 2) = P_FREE"
    by (simp add: example_running_def fresh_proc_def del: upt_Suc)
  ultimately show ?thesis
    using sys_start_outcome [OF layout_ok_example _ system_ok_running,
        of "replicate 4 example_image" "\<lambda>_. 0x2000" "zero_registers\<lparr>reg_rdi := 2\<rparr>"] by auto
qed

text \<open>C31:
  A request to stop a program fails unless it names process 2 or 3 and that process is runnable;
  then that process and no other becomes free, and the scheduler does not choose it any more.\<close>

theorem sys_stop_outcome:
  assumes "system_ok L s"
  shows "if reg_rdi r \<noteq> 2 \<and> reg_rdi r \<noteq> 3
       then sys_stop r s = Inl (Panic ''Not a stoppable process'')
     else if \<not> runnable (procs s) (unat (reg_rdi r))
       then sys_stop r s = Inl (Panic ''Process already running'')
     else \<exists>s'. sys_stop r s = Inr s' \<and> system_ok L s' \<and> current (schedule s') \<noteq> unat (reg_rdi r) \<and>
       pstate (procs s' ! unat (reg_rdi r)) = P_FREE \<and> vmem s' = vmem s \<and>
       (\<forall>j. j \<noteq> unat (reg_rdi r) \<longrightarrow> procs s' ! j = procs s ! j)"
proof (cases "(reg_rdi r = 2 \<or> reg_rdi r = 3) \<and> runnable (procs s) (unat (reg_rdi r))")
  case True
  let ?i = "unat (reg_rdi r)"
  define s' where "s' = s\<lparr>procs := (procs s)[?i := (procs s ! ?i)\<lparr>pstate := P_FREE\<rparr>]\<rparr>"
  have i: "?i \<noteq> 0" "?i < length (procs s)" using True assms by (auto simp: system_ok_def procs_ok_def)
  have ok: "system_ok L s'" unfolding s'_def using assms by (rule system_ok_update) simp_all
  then have c: "current s' < 8" "procs_ok L s'" by (simp_all add: system_ok_def)
  have free: "pstate (procs s' ! ?i) = P_FREE" using i by (simp add: s'_def)
  have "next_process (procs s') (current s') \<noteq> ?i"
    using next_process_first [OF c(1), of "procs s'"] free i(1) by (auto simp: runnable_def split: if_splits)
  then have "current (schedule s') \<noteq> ?i" using schedule_eq [OF c(2,1)] by (simp add: run_def)
  moreover have "sys_stop r s = Inr s'" using True by (simp add: sys_stop_def kassert_def Let_def s'_def runnable_def)
  ultimately show ?thesis using True ok free by (auto simp: s'_def)
qed (auto simp: sys_stop_def kassert_def runnable_def)

theorem sys_stop_outcome_witness:
  "\<exists>s'. sys_stop (zero_registers\<lparr>reg_rdi := 3\<rparr>) example_running = Inr s' \<and> current (schedule s') \<noteq> 3"
proof -
  have "runnable (procs example_running) 3"
    by (simp add: runnable_def example_running_def fresh_proc_def del: upt_Suc)
  then show ?thesis
    using sys_stop_outcome [OF system_ok_running, of "zero_registers\<lparr>reg_rdi := 3\<rparr>"] by auto
qed

section \<open>The invariant along every run\<close>

text \<open>Every sequence of scheduling, resuming, starting, stopping, saving registers and changing the
  state of a process keeps the invariant: eight processes with their own numbers and the kernel's
  page table, a current process among them, and page tables whose upper levels are intact.\<close>

theorem system_invariant:
  assumes "layout_ok L" "images_ok L ramimages len" "system_ok L s" "system_steps L ramimages s s'"
  shows "system_ok L s'"
  using assms(4,3)
proof (induction rule: system_steps.induct)
  case (steps_more s s' s'')
  then show ?case using system_step_ok [OF assms(1,2)] by blast
qed

theorem system_invariant_witness:
  "system_ok example_layout (schedule (schedule example_running))"
proof (rule system_invariant [OF layout_ok_example _ system_ok_running, of "replicate 4 example_image" "\<lambda>_. 0x2000"])
  show "images_ok example_layout (replicate 4 example_image) (\<lambda>_. 0x2000)"
    using image_ok_example by (simp add: images_ok_def)
  show "system_steps example_layout (replicate 4 example_image) example_running (schedule (schedule example_running))"
    by (rule steps_more [OF steps_more [OF steps_none step_schedule] step_schedule])
qed

end
