(* ===== verification/Interrupts_Correct.thy ===== *)
theory Interrupts_Correct
  imports Interrupts Process_Correct
begin

text \<open>
  What the interrupt component promises: the descriptor table leads to the handlers with the
  right privilege; every interrupt and system call keeps the invariant of the kernel and goes on
  with a runnable process; a system call touches no other process; and a process that asks for a
  key sleeps until the keyboard's interrupt gives it one.
\<close>

section \<open>Descriptors\<close>

text \<open>How the processor reads a gate: handler address, privilege level, present and gate type.\<close>

definition gate_handler :: "IDT_entry \<Rightarrow> u64" where
  "gate_handler g = ucast (offset_low g) OR push_bit 16 (ucast (offset_mid g)) OR push_bit 32 (ucast (offset_high g))"

definition gate_dpl :: "IDT_entry \<Rightarrow> nat" where
  "gate_dpl g = unat (drop_bit 5 (type_attr g) AND 3)"

definition gate_present :: "IDT_entry \<Rightarrow> bool" where
  "gate_present g \<longleftrightarrow> bit (type_attr g) 7"

lemma gate_handler_setup: "gate_handler (setupIDTEntry a p) = a"
proof (rule bit_word_eqI)
  fix i assume i: "i < LENGTH(64)"
  have m: "(0xFFFF :: u64) = mask 16" "(0xFFFFFFFF :: u64) = mask 32" by (simp_all add: mask_eq_exp_minus_1)
  have "bit (gate_handler (setupIDTEntry a p)) i \<longleftrightarrow>
      i < 16 \<and> bit a i \<or> 16 \<le> i \<and> i - 16 < 16 \<and> bit a (16 + (i - 16)) \<or> 32 \<le> i \<and> i - 32 < 32 \<and> bit a (32 + (i - 32))"
    using i by (simp only: gate_handler_def setupIDTEntry_def IDT_entry.simps m)
      (auto simp: bit_or_iff bit_push_bit_iff bit_ucast_iff bit_and_iff bit_mask_iff bit_drop_bit_eq)
  also have "\<dots> \<longleftrightarrow> bit a i"
  proof (cases "i < 32")
    case False
    then have "32 + (i - 32) = i" by simp
    then show ?thesis using i False by auto
  qed auto
  finally show "bit (gate_handler (setupIDTEntry a p)) i \<longleftrightarrow> bit a i" .
qed

section \<open>The invariant\<close>

lemma machine_ok_fields [simp]:
  "machine_ok L (s\<lparr>kdisk := d\<rparr>) = machine_ok L s" "machine_ok L (s\<lparr>reschedule := x\<rparr>) = machine_ok L s"
  "machine_ok L (s\<lparr>mio := y\<rparr>) = machine_ok L s"
  for s :: kernel
  by (simp_all add: machine_ok_def)

lemma machine_ok_system:
  "machine_ok L s \<Longrightarrow> system_ok L y \<Longrightarrow> machine_ok L (s\<lparr>msys := y\<rparr>)" for s :: kernel
  by (simp add: machine_ok_def)

lemma machine_systemD: "machine_ok L s \<Longrightarrow> system_ok L (msys s)"
  by (simp add: machine_ok_def)

text \<open>The memory of the programs is apart from the page tables; below it lies what belongs to the kernel.\<close>

lemma user_memory_apart:
  assumes "user_memory a n" "in_region x a n"
  shows "0x100000 \<le> unat x" "unat x < 0x300000"
proof -
  have b: "0x100000 \<le> unat a" "unat a + n \<le> 0x300000" using assms by (auto simp: user_memory_def in_region_def)
  then show "0x100000 \<le> unat x" "unat x < 0x300000" using assms(2) in_region_bounds [of a n x] by simp_all
qed

definition kernel_memory :: "layout \<Rightarrow> u64 \<Rightarrow> bool" where
  "kernel_memory L x \<longleftrightarrow> unat x < 0x100000 \<and> \<not> in_region x (kernel_pagetables L) 0x5000"

lemma check_user_eq [simp]: "check_user a n = Inr u \<longleftrightarrow> user_memory a n"
  by (simp add: check_user_def)

lemma copy_out_eq: "copy_out a bs s = Inr s' \<longleftrightarrow> user_memory a (length bs) \<and> s' = put_bytes a bs s"
  by (auto simp: copy_out_def bind_eq_Inr_iff)

lemma put_bytes_ok:
  assumes "layout_ok L" "machine_ok L s" "user_memory a (length bs)"
  shows "machine_ok L (put_bytes a bs s)" "kernel_memory L x \<Longrightarrow> memory (vmem (msys (put_bytes a bs s))) x = memory (vmem (msys s)) x"
proof -
  let ?K = "kernel_pagetables L" and ?m = "memory (vmem (msys s))"
  let ?m' = "\<lambda>x. if in_region x a (length bs) then bs ! unat (x - a) else ?m x"
  have low: "?m' x = ?m x" if "unat x < 0x100000" for x using user_memory_apart(1) [OF assms(3), of x] that by auto
  have "?m' x = ?m x" if "in_region x ?K 0x5000" for x using low [of x] tables_region [OF assms(1) that] by simp
  from tables_cong(1) [of ?K ?m' ?m, OF this] have "upper_tables ?K ?m'"
    using assms(2) by (simp add: machine_ok_def system_ok_def)
  then show "machine_ok L (put_bytes a bs s)" using assms(2) by (simp add: machine_ok_def system_ok_def procs_ok_def put_bytes_def)
  show "memory (vmem (msys (put_bytes a bs s))) x = memory (vmem (msys s)) x" if "kernel_memory L x"
    using that low [of x] by (simp add: put_bytes_def kernel_memory_def)
qed

lemma set_rax_ok: "machine_ok L s \<Longrightarrow> machine_ok L (set_rax v s)"
  unfolding set_rax_def Let_def
  by (rule machine_ok_system) (auto intro: system_ok_update dest: machine_systemD)

lemma enter_kernel_ok:
  assumes "machine_ok L s"
  shows "machine_ok L (enter_kernel L r s)"
proof -
  let ?y = "msys s"
  have "system_ok L (?y\<lparr>procs := (procs ?y)[current ?y := (procs ?y ! current ?y)\<lparr>reg := r\<rparr>]\<rparr>)"
    using machine_systemD [OF assms] by (rule system_ok_update) simp_all
  from machine_ok_system [OF assms system_ok_pagetable [OF this]] show ?thesis
    by (simp add: enter_kernel_def Let_def)
qed

lemma sys_getchar_ok:
  assumes "machine_ok L s"
  shows "machine_ok L (sys_getchar_handler s)"
proof (cases "kb_head (mkb s) = kb_tail (mkb s)")
  case True
  let ?y = "msys s"
  have "system_ok L (?y\<lparr>procs := (procs ?y)[current ?y := (procs ?y ! current ?y)\<lparr>pstate := P_BLOCKED\<rparr>]\<rparr>)"
    using machine_systemD [OF assms] by (rule system_ok_update) simp_all
  moreover have "current ?y < PROC_NUMBER" using machine_systemD [OF assms] by (simp add: system_ok_def)
  ultimately show ?thesis
    using True assms by (simp add: sys_getchar_handler_def Let_def machine_ok_def)
next
  case False
  have "machine_ok L (s\<lparr>mkb := snd (kb_buffer_get (mkb s))\<rparr>)"
    using assms kb_get_contents(1) by (simp add: machine_ok_def)
  then show ?thesis using False set_rax_ok by (simp add: sys_getchar_handler_def Let_def split_beta)
qed

lemma machine_ok_io: "machine_ok L s \<Longrightarrow> machine_ok L (s\<lparr>mio := y, reschedule := x\<rparr>)" for s :: kernel
  by (simp add: machine_ok_def)

lemma bind_stay: "bind r (\<lambda>s. Inr (False, s)) = Inr (l, s') \<longleftrightarrow> r = Inr s' \<and> \<not> l"
  by (cases r) auto

section \<open>Leaving the kernel\<close>

text \<open>The processor is in the current process, which is runnable unless it is the idle process.\<close>

definition in_user :: "'a machine_scheme \<Rightarrow> bool" where
  "in_user s \<longleftrightarrow> (current (msys s) = 0 \<or> runnable (procs (msys s)) (current (msys s))) \<and>
     cpu (msys s) = reg (procs (msys s) ! current (msys s)) \<and>
     cr3 (vmem (msys s)) = page_table (procs (msys s) ! current (msys s))"

lemma schedule_in_user:
  assumes "system_ok L y"
  shows "current (schedule y) = next_process (procs y) (current y)"
    "current (schedule y) = 0 \<or> runnable (procs y) (current (schedule y))"
    "cpu (schedule y) = reg (procs y ! current (schedule y))" "procs (schedule y) = procs y"
    "cr3 (vmem (schedule y)) = page_table (procs y ! current (schedule y))"
    "memory (vmem (schedule y)) = memory (vmem y)"
proof -
  have c: "current y < 8" "procs_ok L y" using assms by (simp_all add: system_ok_def)
  have "next_process (procs y) (current y) = 0 \<or> runnable (procs y) (next_process (procs y) (current y))"
    using next_process_first [OF c(1), of "procs y"] by (auto split: if_splits)
  then show "current (schedule y) = next_process (procs y) (current y)"
    "current (schedule y) = 0 \<or> runnable (procs y) (current (schedule y))"
    "cpu (schedule y) = reg (procs y ! current (schedule y))" "procs (schedule y) = procs y"
    "cr3 (vmem (schedule y)) = page_table (procs y ! current (schedule y))"
    "memory (vmem (schedule y)) = memory (vmem y)"
    unfolding schedule_eq [OF c(2,1)] by (simp_all add: run_def change_pagetable_eq)
qed

lemmas memory_schedule = schedule_in_user(6)

section \<open>Handlers\<close>

text \<open>A handler that returns keeps the invariant, and writes to the programs' memory and the page tables only.\<close>

definition served :: "layout \<Rightarrow> kernel \<Rightarrow> kernel \<Rightarrow> bool" where
  "served L s s' \<longleftrightarrow> machine_ok L s' \<and> (\<forall>x. kernel_memory L x \<longrightarrow> memory (vmem (msys s')) x = memory (vmem (msys s)) x)"

lemma memory_set_rax [simp]: "memory (vmem (msys (set_rax v s))) = memory (vmem (msys s))"
  by (simp add: set_rax_def Let_def)

lemma memory_getchar [simp]: "memory (vmem (msys (sys_getchar_handler s))) = memory (vmem (msys s))"
  by (simp add: sys_getchar_handler_def Let_def split_beta)

lemma memory_enter [simp]: "memory (vmem (msys (enter_kernel L r s))) = memory (vmem (msys s))"
  by (simp add: enter_kernel_def Let_def change_pagetable_eq)

lemma memory_keyboard:
  assumes "machine_ok L s"
  shows "memory (vmem (msys (snd (keyboard_handler c s)))) = memory (vmem (msys s))"
proof -
  have k: "keyboard_ok (mkb s)" "system_ok L (msys s)" using assms by (simp_all add: machine_ok_def)
  have d: "memory (vmem (deliver p ch y)) = memory (vmem y)" for p ch y by (simp add: deliver_def)
  have "memory (vmem (schedule (deliver p ch (msys s)))) = memory (vmem (msys s))" for p ch
    using memory_schedule [OF deliver_ok [OF k(2), of p ch]] d by simp
  then show ?thesis by (simp add: keyboard_handler_eq [OF k(1)] Let_def split: option.split)
qed

lemma memory_start:
  assumes "layout_ok L" "images_ok L ramimages len" "system_ok L y" "sys_start ramimages r y = Inr y'" "kernel_memory L x"
  shows "memory (vmem y') x = memory (vmem y) x"
proof -
  let ?i = "unat (reg_rdi r)"
  have r: "reg_rdi r = 2 \<or> reg_rdi r = 3" and l: "load_process ramimages ?i ?i y = Inr y'"
    using assms(4) unfolding sys_start_eq Let_def by (simp_all split: if_splits)
  then have "image_ok L (ramimages ! ?i) (len ?i)" "?i < 8"
    using startable_index [OF r] assms(2) by (simp_all add: images_ok_def)
  from load_process_spec [OF assms(1,3) this(2,1)] l have "loaded L ?i (ramimages ! ?i) (len ?i) (vmem y) (vmem y')" by auto
  then show ?thesis using assms(5) by (simp add: loaded_def kernel_memory_def proc_base_def)
qed

lemma memory_stop: "sys_stop r y = Inr y' \<Longrightarrow> vmem y' = vmem y"
  by (auto simp: sys_stop_def Let_def bind_eq_Inr_iff)

lemma put_bytes_served:
  assumes "layout_ok L" "machine_ok L s" "user_memory a (length bs)"
  shows "served L s (put_bytes a bs (s\<lparr>kdisk := d\<rparr>))" "served L s (set_rax v (put_bytes a bs (s\<lparr>kdisk := d\<rparr>)))"
proof -
  have "machine_ok L (s\<lparr>kdisk := d\<rparr>)" using assms(2) by simp
  from put_bytes_ok [OF assms(1) this assms(3)] show "served L s (put_bytes a bs (s\<lparr>kdisk := d\<rparr>))"
    "served L s (set_rax v (put_bytes a bs (s\<lparr>kdisk := d\<rparr>)))"
    by (simp_all add: served_def set_rax_ok)
qed

lemma dispatch_served:
  assumes L: "layout_ok L" "images_ok L ramimages len" and s: "machine_ok L s"
    and d: "dispatch ramimages c e r s = Inr (left, s')"
  shows "served L s s'"
proof -
  note sys = machine_systemD [OF s]
  have start: "served L s (s\<lparr>msys := y\<rparr>)" if "sys_start ramimages r (msys s) = Inr y" for y
    using machine_ok_system [OF s sys_start_ok [OF L sys that]] memory_start [OF L sys that] by (simp add: served_def)
  have stop: "served L s (s\<lparr>msys := y\<rparr>)" if "sys_stop r (msys s) = Inr y" for y
    using machine_ok_system [OF s sys_stop_ok [OF sys that]] memory_stop [OF that] by (simp add: served_def)
  have kb: "served L s s'" if "keyboard_handler c s = (left, s')"
    using keyboard_handler_ok [OF s, of c] memory_keyboard [OF s, of c] that by (simp add: served_def)
  have get: "served L s (sys_getchar_handler s)" using sys_getchar_ok [OF s] by (simp add: served_def)
  have fields: "served L s (s\<lparr>mio := io\<rparr>)" "served L s (s\<lparr>kdisk := k\<rparr>)" "served L s (s\<lparr>reschedule := 1\<rparr>)"
    "served L s (s\<lparr>reschedule := 1, mio := io\<rparr>)" "served L s s" for io k
    using s by (simp_all add: served_def)
  note cases = d [unfolded dispatch_def Let_def]
  show ?thesis
    using cases put_bytes_served [OF L(1) s] start stop kb get fields
    by (simp add: bind_stay bind_eq_Inr_iff sys_write_char_handler_def sys_cursor_handler_def sys_mkdir_handler_def
        sys_cd_handler_def sys_rm_handler_def sys_list_files_handler_def time_handler_def sys_yield_def
        split: if_splits prod.splits)
      (auto simp: bind_eq_Inr_iff copy_out_eq)
qed



lemma memory_leave: "machine_ok L s \<Longrightarrow> memory (vmem (msys (leave_kernel s))) = memory (vmem (msys s))"
  using memory_schedule [OF machine_systemD, of L s] by (simp add: leave_kernel_def Let_def run_def change_pagetable_eq)

lemma leave_kernel_ok:
  assumes "machine_ok L s"
  shows "machine_ok L (leave_kernel s)" "in_user (leave_kernel s)" "procs (msys (leave_kernel s)) = procs (msys s)"
    "mkb (leave_kernel s) = mkb s"
proof -
  have sys: "system_ok L (msys s)" "current (msys s) < PROC_NUMBER"
    using machine_systemD [OF assms] by (simp_all add: system_ok_def)
  show "machine_ok L (leave_kernel s)"
    using assms schedule_ok [OF sys(1)] run_ok [OF sys] by (simp add: leave_kernel_def Let_def machine_ok_def)
  show "in_user (leave_kernel s)" "procs (msys (leave_kernel s)) = procs (msys s)" "mkb (leave_kernel s) = mkb s"
    using schedule_in_user [OF sys(1)]
    by (auto simp: leave_kernel_def Let_def in_user_def run_def runnable_def change_pagetable_eq)
qed

lemma keyboard_handler_in_user:
  assumes "machine_ok L s" "keyboard_handler c s = (True, s')"
  shows "in_user s'"
proof -
  have k: "keyboard_ok (mkb s)" using assms(1) by (simp add: machine_ok_def)
  obtain p ch where "msys s' = schedule (deliver p ch (msys s))"
    using assms(2) by (auto simp: keyboard_handler_def Let_def split_beta split: option.splits if_splits)
  then show ?thesis
    using schedule_in_user [OF deliver_ok [OF machine_systemD [OF assms(1)]], of p ch] by (simp add: in_user_def)
qed

lemma dispatch_left:
  assumes "dispatch ramimages c e r s = Inr (True, s')"
  shows "reg_intno r = 33" "keyboard_handler c s = (True, s')"
proof -
  show "reg_intno r = 33"
    using assms by (simp add: dispatch_def Let_def bind_eq_Inr_iff split: if_splits prod.splits)
  then show "keyboard_handler c s = (True, s')" using assms by (simp add: dispatch_def Let_def)
qed

lemma exception_ok:
  assumes "layout_ok L" "images_ok L ramimages len" "machine_ok L s" and "exception L ramimages c e r s = Inr s'"
  shows "served L s s'" "machine_ok L s'" "in_user s'"
proof -
  let ?s = "enter_kernel L r s"
  have ok: "machine_ok L ?s" by (rule enter_kernel_ok [OF assms(3)])
  obtain left t where t: "dispatch ramimages c e r ?s = Inr (left, t)" "s' = (if left then t else leave_kernel t)"
    using assms(4) by (auto simp: exception_def bind_eq_Inr_iff)
  have d: "served L ?s t" by (rule dispatch_served [OF assms(1,2) ok t(1)])
  have "in_user t" if left
    using dispatch_left(2) [of ramimages c e r ?s t] t(1) keyboard_handler_in_user [OF ok, of c t] that by simp
  then show "served L s s'" "machine_ok L s'" "in_user s'"
    using d leave_kernel_ok [of L t] memory_leave [of L t] t(2) by (auto simp: served_def)
qed

section \<open>Other processes\<close>

lemma procs_set_rax: "i \<noteq> current (msys s) \<Longrightarrow> procs (msys (set_rax v s)) ! i = procs (msys s) ! i"
  by (simp add: set_rax_def Let_def)

lemma procs_put_bytes [simp]: "procs (msys (put_bytes a bs s)) = procs (msys s)" "current (msys (put_bytes a bs s)) = current (msys s)"
  by (simp_all add: put_bytes_def)

lemma procs_getchar: "i \<noteq> current (msys s) \<Longrightarrow> procs (msys (sys_getchar_handler s)) ! i = procs (msys s) ! i"
  using procs_set_rax [of i "s\<lparr>mkb := snd (kb_buffer_get (mkb s))\<rparr>"]
  by (simp add: sys_getchar_handler_def Let_def split_beta)

lemma procs_enter: "i \<noteq> current (msys s) \<Longrightarrow> procs (msys (enter_kernel L r s)) ! i = procs (msys s) ! i"
  "current (msys (enter_kernel L r s)) = current (msys s)"
  by (simp_all add: enter_kernel_def Let_def)

lemma dispatch_procs:
  assumes "dispatch ramimages c e r s = Inr (left, s')" "reg_intno r \<notin> {33, 0x89, 0x8A}" "i \<noteq> current (msys s)"
  shows "procs (msys s') ! i = procs (msys s) ! i" "\<not> left"
proof -
  have ls: "procs (msys t) ! i = procs (msys s) ! i" if t: "sys_list_files_handler e r s = Inr t" for t
  proof -
    obtain v a bs d where "t = set_rax v (put_bytes a bs (s\<lparr>kdisk := d\<rparr>))"
      using t by (auto simp: sys_list_files_handler_def bind_eq_Inr_iff copy_out_eq)
    then show ?thesis using procs_set_rax [of i "put_bytes a bs (s\<lparr>kdisk := d\<rparr>)" v] assms(3) by simp
  qed
  note cases = assms(1) [unfolded dispatch_def Let_def]
  show "procs (msys s') ! i = procs (msys s) ! i" "\<not> left"
    using cases assms(2) ls procs_getchar [OF assms(3)]
    by (simp_all add: bind_stay bind_eq_Inr_iff sys_write_char_handler_def sys_cursor_handler_def sys_mkdir_handler_def
        sys_cd_handler_def sys_rm_handler_def time_handler_def sys_yield_def split: if_splits)
      (auto simp: bind_eq_Inr_iff copy_out_eq)
qed

section \<open>Waiting for a key\<close>

lemma getchar_blocks:
  assumes "machine_ok L s" "kb_contents (mkb s) = []"
  shows "sys_getchar_handler s = s\<lparr>msys := (msys s)\<lparr>procs := (procs (msys s))
      [current (msys s) := (procs (msys s) ! current (msys s))\<lparr>pstate := P_BLOCKED\<rparr>]\<rparr>,
    mkb := (mkb s)\<lparr>keyboard_waiting := Some (current (msys s))\<rparr>, reschedule := 1\<rparr>"
  using assms kb_nonempty [of "mkb s"] by (simp add: sys_getchar_handler_def Let_def machine_ok_def)

text \<open>The two halves of a wait: the call for a character when there is none, and the key press that ends it.\<close>

lemma getchar_trap:
  assumes "machine_ok L s" "1 \<le> current (msys s)" "kb_contents (mkb s) = []" "reg_intno r = 0x80"
  defines "p \<equiv> current (msys s)"
  shows "\<exists>s1. exception L ramimages c e r s = Inr s1 \<and> machine_ok L s1 \<and> current (msys s1) \<noteq> p \<and>
    procs (msys s1) ! p = (procs (msys s) ! p)\<lparr>reg := r, pstate := P_BLOCKED\<rparr> \<and>
    mkb s1 = (mkb s)\<lparr>keyboard_waiting := Some p\<rparr>"
proof -
  let ?s = "enter_kernel L r s"
  let ?t = "sys_getchar_handler ?s"
  have p: "p < 8" "length (procs (msys s)) = 8"
    using machine_systemD [OF assms(1)] by (simp_all add: system_ok_def procs_ok_def p_def)
  have en: "machine_ok L ?s" "kb_contents (mkb ?s) = []" "mkb ?s = mkb s" "current (msys ?s) = p"
    using enter_kernel_ok [OF assms(1)] assms(3) by (simp_all add: enter_kernel_def Let_def p_def)
  note gb = getchar_blocks [OF en(1,2)]
  have tp: "procs (msys ?t) ! p = (procs (msys s) ! p)\<lparr>reg := r, pstate := P_BLOCKED\<rparr>"
    "mkb ?t = (mkb s)\<lparr>keyboard_waiting := Some p\<rparr>"
    using gb en(3,4) p by (simp_all add: enter_kernel_def Let_def p_def)
  have s1: "machine_ok L (leave_kernel ?t)" "in_user (leave_kernel ?t)" "procs (msys (leave_kernel ?t)) = procs (msys ?t)"
      "mkb (leave_kernel ?t) = mkb ?t"
    using leave_kernel_ok [OF sys_getchar_ok [OF en(1)]] by simp_all
  have "current (msys (leave_kernel ?t)) \<noteq> p"
    using s1(2) tp(1) assms(2) unfolding in_user_def s1(3) by (auto simp: runnable_def p_def)
  moreover have "exception L ramimages c e r s = Inr (leave_kernel ?t)"
    using assms(4) by (simp add: exception_def dispatch_def Let_def)
  ultimately show ?thesis using s1 tp by auto
qed

lemma key_trap:
  assumes "machine_ok L s" "current (msys s) \<noteq> p" "p < 8" "keyboard_waiting (mkb s) = Some p" "kb_contents (mkb s) = []"
    and "reg_intno r = 33" "key_char c (mkb s) \<noteq> 0"
  shows "\<exists>s2. exception L ramimages c e r s = Inr s2 \<and> kb_contents (mkb s2) = [] \<and>
    procs (msys s2) ! p = (procs (msys s) ! p)\<lparr>reg := (reg (procs (msys s) ! p))\<lparr>reg_rax := scast (key_char c (mkb s))\<rparr>,
      pstate := P_RUNNABLE\<rparr>"
proof -
  let ?u = "enter_kernel L r s"
  have u: "machine_ok L ?u" "mkb ?u = mkb s" "procs (msys ?u) ! p = procs (msys s) ! p" "length (procs (msys ?u)) = 8"
    using enter_kernel_ok [OF assms(1)] machine_systemD [OF assms(1)] assms(2)
    by (simp_all add: enter_kernel_def Let_def system_ok_def procs_ok_def)
  have k: "keyboard_ok (mkb ?u)" "kb_contents (mkb ?u) = []" "key_char c (mkb ?u) = key_char c (mkb s)"
    using u(1,2) assms(5) by (simp_all add: machine_ok_def)
  have sc: "kb_contents (scan_code c (mkb ?u)) = [key_char c (mkb s)]"
    using scan_code_contents [OF k(1), of c] k(2,3) assms(7) by simp
  have w: "keyboard_waiting (scan_code c (mkb ?u)) = Some p" using scan_code_ok(2) [OF k(1)] u(2) assms(4) by simp
  let ?y = "deliver p (key_char c (mkb s)) (msys ?u)"
  let ?s2 = "?u\<lparr>mkb := snd (kb_buffer_get (scan_code c (mkb ?u))), mio := outb 0x20 0x20 (mio ?u), msys := schedule ?y\<rparr>"
  have "keyboard_handler c ?u = (True, ?s2)"
    unfolding keyboard_handler_eq [OF k(1)] Let_def w using sc by simp
  then have "exception L ramimages c e r s = Inr ?s2" using assms(6) by (simp add: exception_def dispatch_def Let_def)
  moreover have "kb_contents (mkb ?s2) = []" using kb_get_contents(2) [OF scan_code_ok(1) [OF k(1)], of c] sc by simp
  moreover have "procs (msys ?s2) ! p = (procs (msys s) ! p)\<lparr>reg := (reg (procs (msys s) ! p))
      \<lparr>reg_rax := scast (key_char c (mkb s))\<rparr>, pstate := P_RUNNABLE\<rparr>"
    using u(3,4) assms(3) by (simp add: deliver_def)
  ultimately show ?thesis by blast
qed

text \<open>The call for a character when there is one: the oldest is taken out of the buffer, and the process goes on.\<close>

lemma getchar_ready:
  assumes "machine_ok L s" "runnable (procs (msys s)) (current (msys s))" "reschedule s = 0" "kb_contents (mkb s) \<noteq> []"
    and "reg_intno r = 0x80"
  shows "\<exists>s1. exception L ramimages c e r s = Inr s1 \<and> machine_ok L s1 \<and> current (msys s1) = current (msys s) \<and>
    cpu (msys s1) = r\<lparr>reg_rax := scast (hd (kb_contents (mkb s)))\<rparr> \<and> kb_contents (mkb s1) = tl (kb_contents (mkb s))"
proof -
  let ?s = "enter_kernel L r s"
  let ?t = "sys_getchar_handler ?s"
  have k: "keyboard_ok (mkb s)" "current (msys s) < length (procs (msys s))"
    using assms(1) machine_systemD [OF assms(1)] by (simp_all add: machine_ok_def system_ok_def procs_ok_def)
  have "kb_head (mkb s) \<noteq> kb_tail (mkb s)" using kb_nonempty [OF k(1)] assms(4) by simp
  then have t: "?t = set_rax (scast (hd (kb_contents (mkb s)))) (?s\<lparr>mkb := snd (kb_buffer_get (mkb s))\<rparr>)"
    using ring.contents_get [OF k(1) assms(4)] by (simp add: sys_getchar_handler_def enter_kernel_def Let_def split_beta)
  have "machine_ok L (leave_kernel ?t)" "mkb (leave_kernel ?t) = mkb ?t"
    using leave_kernel_ok [OF sys_getchar_ok [OF enter_kernel_ok [OF assms(1)]]] by simp_all
  moreover have "exception L ramimages c e r s = Inr (leave_kernel ?t)"
    using assms(5) by (simp add: exception_def dispatch_def Let_def)
  moreover have "kb_contents (mkb ?t) = tl (kb_contents (mkb s))"
    unfolding t using ring.contents_get [OF k(1) assms(4)] by (simp add: set_rax_def Let_def)
  moreover have "current (msys (leave_kernel ?t)) = current (msys s)"
      "cpu (msys (leave_kernel ?t)) = r\<lparr>reg_rax := scast (hd (kb_contents (mkb s)))\<rparr>"
    unfolding t using k(2) assms(2,3) by (simp_all add: leave_kernel_def set_rax_def enter_kernel_def runnable_def run_def Let_def)
  ultimately show ?thesis by metis
qed

section \<open>Runs\<close>

text \<open>
  Between two interrupts a program changes memory of the programs and nothing else, which the mapping of the pages
  ensures: the program that runs is an arbitrary change of this memory. A trap of a run returns, so that no call of the run
  writes through a pointer out of the memory of the programs or at a position out of the screen.
\<close>

definition user_step :: "mem \<Rightarrow> kernel \<Rightarrow> kernel" where
  "user_step m s = s\<lparr>msys := (msys s)\<lparr>vmem := (vmem (msys s))\<lparr>memory :=
     (\<lambda>x. if 0x100000 \<le> unat x \<and> unat x < 0x300000 then m x else memory (vmem (msys s)) x)\<rparr>\<rparr>\<rparr>"

inductive kernel_runs :: "layout \<Rightarrow> ramimage list \<Rightarrow> kernel \<Rightarrow> kernel \<Rightarrow> bool"
  for L :: layout and ramimages :: "ramimage list" where
  boot: "kernel_runs L ramimages s s"
| user: "kernel_runs L ramimages s s' \<Longrightarrow> kernel_runs L ramimages s (user_step m s')"
| trap: "kernel_runs L ramimages s s' \<Longrightarrow> exception L ramimages c e r s' = Inr s'' \<Longrightarrow> kernel_runs L ramimages s s''"

lemma user_step_ok:
  assumes "layout_ok L" "machine_ok L s"
  shows "served L s (user_step m s)"
proof -
  let ?m = "\<lambda>x. if 0x100000 \<le> unat x \<and> unat x < 0x300000 then m x else memory (vmem (msys s)) x"
  have "?m x = memory (vmem (msys s)) x" if "in_region x (kernel_pagetables L) 0x5000" for x
    using tables_region [OF assms(1) that] by simp
  from tables_cong(1) [of "kernel_pagetables L" ?m "memory (vmem (msys s))", OF this] show ?thesis
    using assms(2) by (auto simp: served_def user_step_def machine_ok_def system_ok_def procs_ok_def kernel_memory_def)
qed

lemma user_step_fields [simp]:
  "procs (msys (user_step m s)) = procs (msys s)" "current (msys (user_step m s)) = current (msys s)" "cpu (msys (user_step m s)) = cpu (msys s)"
  "mkb (user_step m s) = mkb s" "in_user (user_step m s) = in_user s"
  by (simp_all add: user_step_def in_user_def)

lemma kernel_runs_served:
  assumes "kernel_runs L ramimages s s'" "layout_ok L" "images_ok L ramimages len" "machine_ok L s"
  shows "served L s s'"
  using assms
proof (induction rule: kernel_runs.induct)
  case (boot s)
  then show ?case by (simp add: served_def)
next
  case (user s s' m)
  then show ?case using user_step_ok [of L s' m] by (simp add: served_def)
next
  case (trap s s' c e r s'')
  then show ?case using exception_ok(1) [of L ramimages len s' c e r s''] by (simp add: served_def)
qed

section \<open>Examples\<close>

definition example_wrappers :: wrappers where
  "example_wrappers = \<lparr>pagefault_handler_wrapper = 0x41000, time_handler_wrapper = 0x41100, keyboard_handler_wrapper = 0x41200,
     print_int_asm = 0x41300, sys_getchar_handler_wrapper = 0x41400, sys_write_char_handler_wrapper = 0x41500,
     sys_cursor_handler_wrapper = 0x41600, sys_list_files_handler_wrapper = 0x41700, sys_mkdir_handler_wrapper = 0x41800,
     sys_cd_handler_wrapper = 0x41900, sys_rm_handler_wrapper = 0x41A00, sys_kb_tim_handler_wrapper = 0x41B00,
     sys_yield_handler_wrapper = 0x41C00, sys_start_handler_wrapper = 0x41D00, sys_stop_handler_wrapper = 0x41E00,
     sys_read_handler_wrapper = 0x41F00, sys_write_handler_wrapper = 0x42000, IDTable_address = 0x61000\<rparr>"

definition zero_gate :: IDT_entry where
  "zero_gate = \<lparr>offset_low = 0, selector = 0, idt_ist = 0, zero1 = 0, type_attr = 0, offset_mid = 0, offset_high = 0, zero2 = 0\<rparr>"

definition example_kernel :: kernel where
  "example_kernel = \<lparr>mio = \<lparr>vga = (\<lambda>_. 0), ports = []\<rparr>, msys = example_running, mkb = keyboard_init,
     kdisk = example_disk s0, reschedule = 0, IDTable = replicate 256 zero_gate, idtr = \<lparr>idt_limit = 0, idt_base = 0\<rparr>,
     interrupt_flag = False\<rparr>"

abbreviation (input) trap_regs :: "u64 \<Rightarrow> registers_t" where
  "trap_regs n \<equiv> zero_registers\<lparr>reg_intno := n\<rparr>"

lemma example_kernel_ok: "machine_ok example_layout example_kernel"
  using system_ok_running keyboard_init_ok(1)
  by (simp add: machine_ok_def example_kernel_def) (simp add: keyboard_init_def)

lemma example_images: "images_ok example_layout (replicate 4 example_image) (\<lambda>_. 0x2000)"
  using image_ok_example by (simp add: images_ok_def)

lemma example_procs:
  "current (msys example_kernel) = 1" "mkb example_kernel = keyboard_init"
  "runnable (procs (msys example_kernel)) 3" "reschedule example_kernel = 0"
  by (simp_all add: example_kernel_def example_running_def runnable_def del: upt_Suc)

section \<open>Properties\<close>

text \<open>A gate written by \<open>setupIDTEntry\<close> leads to the handler it was given, is present, and can be
  reached from the privilege level it was given.\<close>

theorem gate_roundtrip:
  assumes "p \<in> {0, 3}"
  shows "gate_handler (setupIDTEntry a p) = a \<and> gate_present (setupIDTEntry a p) \<and>
    gate_dpl (setupIDTEntry a p) = unat p \<and> selector (setupIDTEntry a p) = 0x08"
  using assms gate_handler_setup [of a p]
  by (auto simp: gate_present_def gate_dpl_def setupIDTEntry_def bit_numeral_rec)

theorem gate_roundtrip_witness: "gate_handler (setupIDTEntry 0x123456789ABCDEF0 3) = 0x123456789ABCDEF0"
  using gate_roundtrip [of 3 "0x123456789ABCDEF0"] by simp

text \<open>C36:
  After \<open>setupIDTable\<close> a program can raise exactly the interrupt 48 and the system calls 0x80 to
  0x8C: these gates have privilege level 3, the page fault, timer and keyboard gates level 0, and
  every other gate is as before.\<close>

theorem idt_privileges:
  assumes "length t = 256" "i < 256"
  shows "if i = 48 \<or> 0x80 \<le> i \<and> i \<le> 0x8C
      then gate_present (fst (setupIDTable w t) ! i) \<and> gate_dpl (fst (setupIDTable w t) ! i) = 3
     else if i \<in> {14, 32, 33}
      then gate_present (fst (setupIDTable w t) ! i) \<and> gate_dpl (fst (setupIDTable w t) ! i) = 0
     else fst (setupIDTable w t) ! i = t ! i"
proof -
  have g: "gate_present (setupIDTEntry a 0)" "gate_dpl (setupIDTEntry a 0) = 0"
    "gate_present (setupIDTEntry a 3)" "gate_dpl (setupIDTEntry a 3) = 3" for a
    by (simp_all add: gate_present_def gate_dpl_def setupIDTEntry_def bit_numeral_rec)
  have "0x80 \<le> i \<and> i \<le> 0x8C \<longleftrightarrow> i \<in> {0x80, 0x81, 0x82, 0x83, 0x84, 0x85, 0x86, 0x87, 0x88, 0x89, 0x8A, 0x8B, 0x8C}"
    by (simp only: insert_iff empty_iff) presburger
  then show ?thesis
    using assms by (simp add: setupIDTable_def nth_list_update g)
qed

theorem idt_privileges_witness:
  "gate_dpl (fst (setupIDTable example_wrappers (replicate 256 zero_gate)) ! 0x89) = 3"
  using idt_privileges [of "replicate 256 zero_gate" "0x89" example_wrappers] by simp

text \<open>Programming the interrupt controllers: the first controller gets its vector base 0x20 and ends
  with every line masked, and the timer gets the divisor 11932 for 100 Hz; but the second
  controller's data port never receives the vector base 0x28, which is written to the first
  controller's command port.\<close>

theorem pic_programming:
  "ports (setupPIC s) = ports s @
     [(0x20, 0x11), (0xA0, 0x11), (0x21, 0x20), (0x20, 0x28), (0x21, 0x04), (0xA1, 0x02), (0x21, 0x01), (0xA1, 0x01),
      (0x43, 0x34), (0x40, 156), (0x40, 46), (0x21, 0xFF), (0xA1, 0xFF)] \<and>
   map snd (filter (\<lambda>(p, v). p = 0xA1) (drop (length (ports s)) (ports (setupPIC s)))) = [0x02, 0x01, 0xFF] \<and>
   156 + 256 * 46 = TIMER_DIV 100"
proof -
  have "ports (setupPIC s) = ports s @
     [(0x20, 0x11), (0xA0, 0x11), (0x21, 0x20), (0x20, 0x28), (0x21, 0x04), (0xA1, 0x02), (0x21, 0x01), (0xA1, 0x01),
      (0x43, 0x34), (0x40, 156), (0x40, 46), (0x21, 0xFF), (0xA1, 0xFF)]"
    by (simp add: setupPIC_def outb_def TIMER_DIV_def)
  then show ?thesis by (simp add: TIMER_DIV_def)
qed

text \<open>C6:
  Every interrupt, exception and system call that returns keeps the invariant of the
  processes, the page tables and the keyboard, and ends with the processor in a runnable process
  (or in the idle process) with that process's saved registers and page table. Along every run of traps that return and programs that change
  memory of the programs, the memory below the programs is written in the page tables only, so nothing reaches the variables of the kernel
  through a pointer. A call that writes out of the screen or through a pointer out of the memory of the programs does not return in the model:
  the code does not check for it, and it is outside of this claim.\<close>

theorem kernel_invariant:
  assumes "layout_ok L" "images_ok L ramimages len" "machine_ok L s" "kernel_runs L ramimages s s'"
  shows "machine_ok L s' \<and>
    (\<forall>x. unat x < 0x100000 \<and> \<not> in_region x (kernel_pagetables L) 0x5000 \<longrightarrow> memory (vmem (msys s')) x = memory (vmem (msys s)) x) \<and>
    (\<forall>e r c s''. exception L ramimages c e r s' = Inr s'' \<longrightarrow> in_user s'')"
  using kernel_runs_served [OF assms(4,1-3)] exception_ok(3) [OF assms(1,2)] by (auto simp: served_def kernel_memory_def)

theorem kernel_invariant_witness:
  "\<exists>s'. exception example_layout (replicate 4 example_image) 0 blank_entry (trap_regs 0x88) example_kernel = Inr s' \<and>
     machine_ok example_layout s'"
proof -
  let ?im = "replicate 4 example_image" and ?r = "trap_regs 0x88"
  obtain s' where s': "exception example_layout ?im 0 blank_entry ?r example_kernel = Inr s'"
    by (simp add: exception_def dispatch_def)
  have "kernel_runs example_layout ?im example_kernel s'" by (rule trap [OF boot s'])
  from kernel_invariant [OF layout_ok_example example_images example_kernel_ok this] s' show ?thesis by blast
qed

text \<open>The timer saves the registers of the interrupted process, acknowledges the interrupt and goes on
  with the next runnable process in the round-robin order; nothing else changes.\<close>

theorem timer_preempts:
  assumes "machine_ok L s" "reg_intno r = 32"
  shows "\<exists>s'. exception L ramimages c e r s = Inr s' \<and> machine_ok L s' \<and> in_user s' \<and>
    procs (msys s') = (procs (msys s))[current (msys s) := (procs (msys s) ! current (msys s))\<lparr>reg := r\<rparr>] \<and>
    current (msys s') = next_process (procs (msys s')) (current (msys s)) \<and>
    ports (mio s') = ports (mio s) @ [(0x20, 0x20)] \<and> mkb s' = mkb s \<and> kdisk s' = kdisk s \<and>
    memory (vmem (msys s')) = memory (vmem (msys s))"
proof -
  let ?t = "time_handler (enter_kernel L r s)"
  have ok: "machine_ok L ?t"
    using enter_kernel_ok [OF assms(1)] unfolding time_handler_def by (simp add: machine_ok_def)
  have e: "exception L ramimages c e r s = Inr (leave_kernel ?t)"
    using assms(2) by (simp add: exception_def dispatch_def Let_def)
  have l: "leave_kernel ?t = ?t\<lparr>reschedule := 0, msys := schedule (msys ?t)\<rparr>"
    by (simp add: leave_kernel_def time_handler_def Let_def)
  have m: "msys ?t = msys (enter_kernel L r s)" by (simp add: time_handler_def)
  have c: "current (msys (leave_kernel ?t)) = next_process (procs (msys ?t)) (current (msys s))"
    "memory (vmem (msys (leave_kernel ?t))) = memory (vmem (msys ?t))"
    using schedule_in_user(1,6) [OF machine_systemD [OF ok]] l m by (simp_all add: enter_kernel_def Let_def)
  have "procs (msys (leave_kernel ?t)) =
      (procs (msys s))[current (msys s) := (procs (msys s) ! current (msys s))\<lparr>reg := r\<rparr>]"
    using leave_kernel_ok(3) [OF ok] m by (simp add: enter_kernel_def Let_def)
  moreover have "ports (mio (leave_kernel ?t)) = ports (mio s) @ [(0x20, 0x20)]" "kdisk (leave_kernel ?t) = kdisk s"
    "mkb (leave_kernel ?t) = mkb s"
    unfolding l by (simp_all add: time_handler_def enter_kernel_def Let_def outb_def)
  moreover have "memory (vmem (msys (leave_kernel ?t))) = memory (vmem (msys s))"
    using c(2) m by (simp add: enter_kernel_def Let_def change_pagetable_eq)
  ultimately show ?thesis
    using e c(1) leave_kernel_ok [OF ok] by simp
qed

theorem timer_preempts_witness:
  "\<exists>s'. exception example_layout [] 0 blank_entry (trap_regs 32) example_kernel = Inr s' \<and> current (msys s') = 3"
proof -
  obtain s' where s': "exception example_layout [] 0 blank_entry (trap_regs 32) example_kernel = Inr s'"
    "procs (msys s') = (procs (msys example_kernel))[1 := (procs (msys example_kernel) ! 1)\<lparr>reg := trap_regs 32\<rparr>]"
    "current (msys s') = next_process (procs (msys s')) 1"
    using timer_preempts [OF example_kernel_ok, of "trap_regs 32" "[]" 0 blank_entry] example_procs(1) by auto
  have "next_process (procs (msys s')) 1 = 3"
    unfolding s'(2) by (simp add: example_kernel_def example_running_def next_process_def turn_order_def runnable_def fresh_proc_def upt_rec)
  with s' show ?thesis by simp
qed

text \<open>A system call, a timer interrupt or an unknown interrupt touches no process but the one that
  was running: only the keyboard interrupt and the requests to start and stop a program change
  another entry of the process table.\<close>

theorem other_processes_kept:
  assumes "machine_ok L s" "exception L ramimages c e r s = Inr s'" "reg_intno r \<notin> {33, 0x89, 0x8A}"
    and "layout_ok L" "images_ok L ramimages len" "i \<noteq> current (msys s)"
  shows "procs (msys s') ! i = procs (msys s) ! i"
proof -
  let ?s = "enter_kernel L r s"
  obtain left t where t: "dispatch ramimages c e r ?s = Inr (left, t)" "s' = (if left then t else leave_kernel t)"
    using assms(2) by (auto simp: exception_def bind_eq_Inr_iff)
  have i: "i \<noteq> current (msys ?s)" using assms(6) procs_enter(2) by simp
  have "machine_ok L t" using dispatch_served [OF assms(4,5) enter_kernel_ok [OF assms(1)] t(1)] by (simp add: served_def)
  then show ?thesis
    using dispatch_procs [OF t(1) assms(3) i] leave_kernel_ok(3) t(2) procs_enter(1) [OF assms(6)] by simp
qed

theorem other_processes_kept_witness:
  "\<exists>s'. exception example_layout (replicate 4 example_image) 0 blank_entry (trap_regs 0x80) example_kernel = Inr s' \<and>
     procs (msys s') ! 3 = procs (msys example_kernel) ! 3"
proof -
  obtain s' where s': "exception example_layout (replicate 4 example_image) 0 blank_entry (trap_regs 0x80) example_kernel = Inr s'"
    by (simp add: exception_def dispatch_def)
  then show ?thesis
    using other_processes_kept [OF example_kernel_ok s' _ layout_ok_example example_images, of 3] example_procs(1) by simp
qed

end
