(* ===== verification/Kernel_Boot.thy ===== *)
theory Kernel_Boot
  imports Interrupts_Correct
begin

text \<open>
  kernel/kernel.c: the start of the kernel. The components are set up in the order of the source:
  serial port, screen, virtual memory, interrupts, disk, processes; then the shell is launched,
  which does not return.
\<close>

section \<open>Definition\<close>

definition kernel_main ::
  "layout \<Rightarrow> wrappers \<Rightarrow> ramimage list \<Rightarrow> 'd device \<Rightarrow> kernel \<Rightarrow> 'd \<Rightarrow> (kernel \<times> 'd) result" where
  "kernel_main L w ramimages dev s d =
     (let s = s\<lparr>mio := serial_init (mio s)\<rparr>;
          s = s\<lparr>mio := cleanScreen (mio s)\<rparr>
      in bind (init_virtual_memory L (vmem (msys s))) (\<lambda>v.
      let s = s\<lparr>msys := (msys s)\<lparr>vmem := v\<rparr>\<rparr>;
          s = setupInterrupts w s
      in bind (setupDrive dev (kdisk s) d) (\<lambda>(k, d).
      let s = s\<lparr>kdisk := k\<rparr>
      in bind (init_processes L ramimages (msys s)) (\<lambda>y.
      bind (launch_shell ramimages y) (\<lambda>y. Inr (s\<lparr>msys := y\<rparr>, d))))))"

section \<open>Memory outside the page tables\<close>

lemma store_entry_outside:
  assumes "i < 2560" "\<not> in_region x K 0x5000"
  shows "store64 m (entry_addr K i) v x = m x"
proof -
  have "\<not> in_region x (entry_addr K i) 8"
    using assms entry_region [of i _ K] by (auto elim!: in_regionE)
  then show ?thesis by (simp add: store64_def)
qed

lemma init_tables_outside:
  assumes "\<not> in_region x (kernel_pagetables L) 0x5000"
  shows "memory (init_tables L s) x = memory s x"
  using assms by (simp add: init_tables_memory Let_def store_entry_outside memset_apply)

lemma fold_put_leaf_outside:
  assumes "\<not> in_region x K 0x5000"
  shows "\<forall>a \<in> set as. a < MEM_SIZE \<Longrightarrow> fold (\<lambda>a. put_leaf K (unat a div 4096) (f a)) as m x = m x"
proof (induction as arbitrary: m)
  case (Cons a as)
  then show ?case using put_leaf_outside [OF frame_index assms] by simp
qed simp

lemma fold_put_leaf_upper:
  "\<forall>a \<in> set as. a < MEM_SIZE \<Longrightarrow>
    upper_tables K (fold (\<lambda>a. put_leaf K (unat a div 4096) (f a)) as m) = upper_tables K m"
proof (induction as arbitrary: m)
  case (Cons a as)
  then show ?case using put_leaf(1) [OF frame_index] by simp
qed simp

lemma init_memory_outside:
  assumes "layout_ok L" "init_virtual_memory L s = Inr s'" "\<not> in_region x (kernel_pagetables L) 0x5000"
  shows "memory s' x = memory s x"
proof -
  let ?K = "kernel_pagetables L" and ?s = "init_tables L (segments_init L s)"
  let ?as = "map (\<lambda>i. of_nat i * PAGE_SIZE) [0..<FRAME_NUMBER]"
  let ?t = "?s\<lparr>memory := fold (\<lambda>a. put_leaf ?K (unat a div 4096) ((a AND NOT 0xFFF) OR (PTE_P OR PTE_W))) ?as (memory ?s)\<rparr>"
  have mem: "\<forall>a \<in> set ?as. a < MEM_SIZE" using page_addr(2) by auto
  note up = init_tables_entries [OF assms(1), of "segments_init L s"]
  have mp: "map_pages ?K ?as (PTE_P OR PTE_W) ?s = Inr ?t" by (rule map_pages_kernel [OF assms(1) up(1) mem])
  obtain u where u: "map_page ?K 0 0 PTE_P None ?t = Inr u" "s' = init_framing L (change_pagetable ?K u)"
    using assms(2) unfolding init_virtual_memory_def Let_def mp by (auto simp: bind_eq_Inr_iff)
  have "upper_tables ?K (memory ?t)"
    using fold_put_leaf_upper [OF mem] up(1) by simp
  then have "u = ?t\<lparr>memory := put_leaf ?K 0 ((0 AND NOT 0xFFF) OR PTE_P) (memory ?t)\<rparr>"
    using map_page_kernel [OF assms(1), of ?t 0 0 PTE_P None] u(1) by simp
  then have "memory s' x = memory ?t x"
    using u(2) put_leaf_outside [of 0 x ?K] assms(3) by (simp add: init_framing_eq change_pagetable_eq)
  also have "\<dots> = memory ?s x" using fold_put_leaf_outside [OF assms(3) mem] by simp
  also have "\<dots> = memory s x"
    using init_tables_outside [OF assms(3)] by (simp add: segments_init_def lcr0_def split_beta Let_def)
  finally show ?thesis .
qed

lemma length_fold_frames: "length (fold (\<lambda>i fs. fs[i := f i]) xs fs) = length fs"
  by (induction xs arbitrary: fs) simp_all

section \<open>Properties\<close>



end
