(* ===== verification/User_Shell.thy ===== *)
theory User_Shell
  imports Kernel_Boot
begin

text \<open>
  userspace/p_shell.c: the command shell, a user program. Its variables are the fields of a
  record, together with the parts of the kernel that its system calls reach: the screen and the
  ports, the disk, the processes. A system call is the kernel function that its handler calls
  with the arguments of the registers, and what the handler copies to the shell's memory is
  copied into the array behind the pointer; that the dispatcher comes back to the caller after
  such a call is shown in \<open>Shell_Calls\<close>. In the main loop the characters that \<open>sys_getchar\<close> delivers are a list.

  Counters that the code never lets below 0 are natural numbers. An access outside an array is the
  error \<open>OutOfBounds\<close>. \<open>e\<close> is the uninitialised local of the kernel's file commands.
\<close>

section \<open>State\<close>

abbreviation (input) BUFF_LEN :: nat where "BUFF_LEN \<equiv> 78"
abbreviation (input) SCREEN_SIZE :: int where "SCREEN_SIZE \<equiv> 2000"

record shell =
  cmd :: bytes
  cmd_len :: nat
  screen :: bytes
  path :: bytes
  path_len :: nat
  cmd_ind :: nat
  cursor :: int
  process0_running :: bool
  process1_running :: bool
  cmd1 :: bytes
  cmd1_len :: nat
  cmd2 :: bytes
  cmd2_len :: nat
  cmd3 :: bytes
  cmd3_len :: nat
  file_name_return :: bytes
  sio :: io
  sdisk :: disk_state
  ssys :: system

text \<open>A loop whose body may fail.\<close>

primrec foreach :: "('a \<Rightarrow> 's \<Rightarrow> 's result) \<Rightarrow> 'a list \<Rightarrow> 's \<Rightarrow> 's result" where
  "foreach f [] s = Inr s"
| "foreach f (x # xs) s = bind (f x s) (foreach f xs)"

text \<open>The array access \<open>b[i]\<close>, and copying bytes to the start of an array.\<close>

definition array_get :: "bytes \<Rightarrow> int \<Rightarrow> u8 result" where
  "array_get b i = (if 0 \<le> i \<and> i < int (length b) then Inr (b ! nat i) else Inl OutOfBounds)"

definition array_set :: "bytes \<Rightarrow> nat \<Rightarrow> u8 \<Rightarrow> bytes result" where
  "array_set b i c = (if i < length b then Inr (b[i := c]) else Inl OutOfBounds)"

definition copy_in :: "bytes \<Rightarrow> bytes \<Rightarrow> bytes result" where
  "copy_in src dst = (if length src \<le> length dst then Inr (poke 0 src dst) else Inl OutOfBounds)"

text \<open>The bytes behind a pointer to an array; the kernel reads at most twelve bytes of a name.\<close>

definition array_pointer :: "bytes \<Rightarrow> nat \<Rightarrow> u8" where
  "array_pointer b = (\<lambda>i. if i < length b then b ! i else 0)"

section \<open>The screen\<close>

definition sys_write_char :: "int \<Rightarrow> u8 \<Rightarrow> shell \<Rightarrow> shell result" where
  "sys_write_char pos c s =
     (if 0 \<le> pos \<and> pos < SCREEN_SIZE
      then bind (shell_print_char (word_of_int pos) c (sio s)) (\<lambda>x. Inr (s\<lparr>screen := (screen s)[nat pos := c], sio := x\<rparr>))
      else Inl OutOfBounds)"

definition clear_line :: "int \<Rightarrow> shell \<Rightarrow> shell result" where
  "clear_line l = foreach (\<lambda>i. sys_write_char i 0) [l * 80..(l + 1) * 80 - 1]"

definition clear_screen :: "shell \<Rightarrow> shell result" where
  "clear_screen = foreach clear_line [0..24]"

definition scroll_cell :: "nat \<Rightarrow> shell \<Rightarrow> shell result" where
  "scroll_cell k s =
     (let s = s\<lparr>screen := (screen s)[k := screen s ! (k + 80)]\<rparr>
      in sys_write_char (int k) (screen s ! k) s)"

definition scroll :: "shell \<Rightarrow> shell result" where
  "scroll s =
     bind (foreach (\<lambda>i. foreach (\<lambda>j. scroll_cell ((i - 1) * 80 + j)) [0..<80]) [1..<25] s)
       (foreach (\<lambda>j s. sys_write_char (24 * 80 + int j) 0 (s\<lparr>screen := (screen s)[24 * 80 + j := 0]\<rparr>)) [0..<80])"

function set_cursor :: "int \<Rightarrow> shell \<Rightarrow> shell result" where
  "set_cursor new_pos s =
     (if SCREEN_SIZE \<le> new_pos then bind (scroll s) (\<lambda>s. set_cursor (new_pos - 80) s)
      else Inr (s\<lparr>cursor := new_pos\<rparr>))"
  by pat_completeness auto
termination
  by (relation "measure (\<lambda>(p, s). nat p)") auto

declare set_cursor.simps [simp del]

text \<open>Moving to the start of the next line, with C's remainder.\<close>

definition next_line :: "shell \<Rightarrow> shell result" where
  "next_line s = set_cursor (cursor s + 80 - cursor s smod 80) s"

definition put_char :: "u8 \<Rightarrow> shell \<Rightarrow> shell result" where
  "put_char c s = bind (sys_write_char (cursor s) c s) (\<lambda>s. set_cursor (cursor s + 1) s)"

text \<open>\<open>sys_write\<close> on the array behind its argument; an array without terminator is read past its end.\<close>

primrec sys_write :: "bytes \<Rightarrow> shell \<Rightarrow> shell result" where
  "sys_write [] s = Inl OutOfBounds"
| "sys_write (c # cs) s =
     (if c = 0 then Inr s
      else bind (if c = 0x0A then next_line s
                 else if c = 0x09 then foreach (\<lambda>_. put_char 0x20) [0..<4] s
                 else put_char c s) (sys_write cs))"

definition say :: "string \<Rightarrow> shell \<Rightarrow> shell result" where
  "say t = sys_write (ascii t @ [0])"

definition say_line :: "string \<Rightarrow> shell \<Rightarrow> shell result" where
  "say_line t = sys_write (ascii t @ [0x0A, 0])"

definition sys_cursor :: "shell \<Rightarrow> shell" where
  "sys_cursor s =
     (let p = word_of_int (cursor s) :: u64 in
      s\<lparr>sio := outb 0x3D5 (ucast (drop_bit 8 p AND 0xFF)) (outb 0x3D4 0x0E
         (outb 0x3D5 (ucast (p AND 0xFF)) (outb 0x3D4 0x0F (sio s))))\<rparr>)"

section \<open>Parsing\<close>

text \<open>The loops of \<open>parse_cmd\<close>: skipping spaces, and copying while a condition holds.\<close>

function skip_spaces :: "bytes \<Rightarrow> nat \<Rightarrow> nat \<Rightarrow> nat" where
  "skip_spaces b len ind = (if ind < len \<and> b ! ind = 0x20 then skip_spaces b len (Suc ind) else ind)"
  by pat_completeness auto
termination
  by (relation "measure (\<lambda>(b, len, ind). len - ind)") auto

function copy_while :: "(u8 \<Rightarrow> bool) \<Rightarrow> bytes \<Rightarrow> nat \<Rightarrow> nat \<Rightarrow> bytes \<Rightarrow> nat \<Rightarrow> (bytes \<times> nat) \<times> nat" where
  "copy_while P b len ind dst dst_len =
     (if ind < len \<and> P (b ! ind) then copy_while P b len (Suc ind) (dst[dst_len := b ! ind]) (Suc dst_len)
      else ((dst, dst_len), ind))"
  by pat_completeness auto
termination
  by (relation "measure (\<lambda>(P, b, len, ind, dst, n). len - ind)") auto

declare skip_spaces.simps [simp del] copy_while.simps [simp del]

definition zero_words :: "shell \<Rightarrow> shell" where
  "zero_words s = fold (\<lambda>i s. s\<lparr>cmd1 := (cmd1 s)[i := 0], cmd2 := (cmd2 s)[i := 0], cmd3 := (cmd3 s)[i := 0]\<rparr>)
     [0..<BUFF_LEN + 1] (s\<lparr>cmd1_len := 0, cmd2_len := 0, cmd3_len := 0\<rparr>)"

definition parse_cmd :: "shell \<Rightarrow> shell" where
  "parse_cmd s =
     (let s = zero_words s; len = cmd_len s;
          ind = skip_spaces (cmd s) len 0;
          ((w1, n1), ind) = copy_while (\<lambda>c. c \<noteq> 0x20) (cmd s) len ind (cmd1 s) (cmd1_len s);
          ind = skip_spaces (cmd s) len ind;
          ((w2, n2), ind) = copy_while (\<lambda>c. c \<noteq> 0x20) (cmd s) len ind (cmd2 s) (cmd2_len s);
          ind = skip_spaces (cmd s) len ind;
          ((w3, n3), ind) = copy_while (\<lambda>_. True) (cmd s) len ind (cmd3 s) (cmd3_len s)
      in s\<lparr>cmd1 := w1, cmd1_len := n1, cmd2 := w2, cmd2_len := n2, cmd3 := w3, cmd3_len := n3\<rparr>)"

text \<open>The comparison stops at the latest at the seventh byte.\<close>

function strcmp_loop :: "bytes \<Rightarrow> bytes \<Rightarrow> nat \<Rightarrow> nat" where
  "strcmp_loop a b i = (if a ! i \<noteq> 0 \<and> b ! i \<noteq> 0 \<and> a ! i = b ! i \<and> i \<le> 5 then strcmp_loop a b (Suc i) else i)"
  by pat_completeness auto
termination
  by (relation "measure (\<lambda>(a, b, i). 6 - i)") auto

declare strcmp_loop.simps [simp del]

definition strcmp :: "bytes \<Rightarrow> bytes \<Rightarrow> int" where
  "strcmp a b = (let i = strcmp_loop a b 0 in of_bool (a ! i > b ! i) - of_bool (a ! i < b ! i))"

abbreviation is_text :: "bytes \<Rightarrow> string \<Rightarrow> bool" where
  "is_text b t \<equiv> strcmp b (ascii t @ [0]) = 0"

section \<open>Files\<close>

partial_function (option) ind_loop ::
  "FAT32_entry \<Rightarrow> bytes \<Rightarrow> c_int \<Rightarrow> shell \<Rightarrow> (c_int \<times> shell) result option" where
  "ind_loop e active_buffer found s =
     (case list_files e (sdisk s) of
        None \<Rightarrow> None
      | Some (Inl err) \<Rightarrow> Some (Inl err)
      | Some (Inr ((ind, name), d)) \<Rightarrow>
     (case copy_in name (file_name_return s) of
        Inl err \<Rightarrow> Some (Inl err)
      | Inr str \<Rightarrow>
          let s = s\<lparr>sdisk := d, file_name_return := str\<rparr> in
          if ind \<noteq> - 1 \<and> strcmp str active_buffer = 0 then ind_loop e active_buffer ind s
          else if ind = - 1 then Some (Inr (found, s))
          else ind_loop e active_buffer found s))"

definition ind_of_file_in_current_directory :: "FAT32_entry \<Rightarrow> bytes \<Rightarrow> shell \<Rightarrow> (c_int \<times> shell) result" where
  "ind_of_file_in_current_directory e active_buffer s = of_loop (ind_loop e active_buffer (- 1) s)"

partial_function (option) ls_loop :: "FAT32_entry \<Rightarrow> shell \<Rightarrow> shell result option" where
  "ls_loop e s =
     (case list_files e (sdisk s) of
        None \<Rightarrow> None
      | Some (Inl err) \<Rightarrow> Some (Inl err)
      | Some (Inr ((ind, name), d)) \<Rightarrow>
     (case copy_in name (file_name_return s) of
        Inl err \<Rightarrow> Some (Inl err)
      | Inr str \<Rightarrow>
     (case (let s = s\<lparr>sdisk := d, file_name_return := str\<rparr> in
            if 0 \<le> sint ind then bind (say ''  '' s) (\<lambda>s. sys_write (file_name_return s) s) else Inr s) of
        Inl err \<Rightarrow> Some (Inl err)
      | Inr s \<Rightarrow> if ind = - 1 then Some (Inr s) else ls_loop e s)))"

definition sys_ls :: "FAT32_entry \<Rightarrow> shell \<Rightarrow> shell result" where
  "sys_ls e s = bind (of_loop (ls_loop e s)) (say_line [])"

definition sys_mkdir :: "shell \<Rightarrow> shell result" where
  "sys_mkdir s = bind (make_directory (array_pointer (cmd2 s)) (sdisk s)) (\<lambda>d. Inr (s\<lparr>sdisk := d\<rparr>))"

definition sys_cd :: "FAT32_entry \<Rightarrow> c_int \<Rightarrow> shell \<Rightarrow> shell result" where
  "sys_cd e ind s = bind (change_directory e ind (sdisk s)) (\<lambda>d. Inr (s\<lparr>sdisk := d\<rparr>))"

definition sys_rm :: "c_int \<Rightarrow> shell \<Rightarrow> shell result" where
  "sys_rm ind s = bind (remove_directory ind (sdisk s)) (\<lambda>d. Inr (s\<lparr>sdisk := d\<rparr>))"

definition sys_write_file :: "shell \<Rightarrow> shell result" where
  "sys_write_file s =
     bind (write_file (array_pointer (cmd3 s)) (of_nat (cmd3_len s)) (array_pointer (cmd2 s)) (sdisk s)) (\<lambda>d.
     Inr (s\<lparr>sdisk := d\<rparr>))"

definition sys_read_file :: "FAT32_entry \<Rightarrow> c_int \<Rightarrow> shell \<Rightarrow> shell result" where
  "sys_read_file e ind s =
     bind (read_file e ind (sdisk s)) (\<lambda>(content, d).
     bind (copy_in content (cmd3 s)) (\<lambda>b. Inr (s\<lparr>sdisk := d, cmd3 := b\<rparr>)))"

text \<open>The character of \<open>sys_getchar\<close> is the lowest byte of \<open>rax\<close> in the registers that the interrupt returns with.\<close>

definition sys_getchar :: "registers_t \<Rightarrow> u8" where
  "sys_getchar r = ucast (reg_rax r)"

definition shell_start :: "ramimage list \<Rightarrow> u64 \<Rightarrow> shell \<Rightarrow> shell result" where
  "shell_start ramimages prog s =
     bind (sys_start ramimages (zero_registers\<lparr>reg_rdi := prog\<rparr>) (ssys s)) (\<lambda>y. Inr (s\<lparr>ssys := y\<rparr>))"

definition shell_stop :: "u64 \<Rightarrow> shell \<Rightarrow> shell result" where
  "shell_stop prog s = bind (sys_stop (zero_registers\<lparr>reg_rdi := prog\<rparr>) (ssys s)) (\<lambda>y. Inr (s\<lparr>ssys := y\<rparr>))"

section \<open>Commands\<close>

text \<open>Does the word end in the four characters of \<open>.TXT\<close>? They are read from the last one backwards.\<close>

definition txt_suffix :: "bytes \<Rightarrow> nat \<Rightarrow> bool result" where
  "txt_suffix b n =
     bind (array_get b (int n - 1)) (\<lambda>c. if c \<noteq> 0x54 then Inr False else
     bind (array_get b (int n - 2)) (\<lambda>c. if c \<noteq> 0x58 then Inr False else
     bind (array_get b (int n - 3)) (\<lambda>c. if c \<noteq> 0x54 then Inr False else
     bind (array_get b (int n - 4)) (\<lambda>c. Inr (c = 0x2E)))))"

text \<open>
  The test of \<open>mkdir\<close> and \<open>cd\<close> looks at the length of the whole line, that of \<open>write\<close> and \<open>read\<close> at the
  length of the word.
\<close>

definition looks_like_txt :: "shell \<Rightarrow> bool result" where
  "looks_like_txt s = (if 4 \<le> cmd_len s then txt_suffix (cmd2 s) (cmd2_len s) else Inr False)"

definition is_txt :: "shell \<Rightarrow> bool result" where
  "is_txt s = (if cmd2_len s < 4 then Inr False else txt_suffix (cmd2 s) (cmd2_len s))"

abbreviation (input) cannot_enter :: string where
  "cannot_enter \<equiv> ''Can'' @ [CHR 0x27] @ ''t enter a text file''"

abbreviation (input) does_not_exist :: string where
  "does_not_exist \<equiv> '' doesn'' @ [CHR 0x27] @ ''t exist''"

abbreviation (input) must_end_txt :: string where
  "must_end_txt \<equiv> ''The file must end by '' @ [CHR 0x22] @ ''.txt'' @ [CHR 0x22]"

definition say_about :: "string \<Rightarrow> shell \<Rightarrow> shell result" where
  "say_about t s = bind (sys_write (cmd2 s) s) (say_line t)"

definition cmd_mkdir :: "FAT32_entry \<Rightarrow> shell \<Rightarrow> shell result" where
  "cmd_mkdir e s =
     bind (looks_like_txt s) (\<lambda>t. if t then say_line cannot_enter s
     else
       bind (ind_of_file_in_current_directory e (cmd2 s) s) (\<lambda>(ind, s).
       if ind \<noteq> - 1 \<or> is_text (cmd2 s) ''.'' \<or> is_text (cmd2 s) ''..'' then say_about '' already exists'' s
       else sys_mkdir s))"

text \<open>The path that the prompt shows: leaving the last directory, and entering one.\<close>

function path_up :: "bytes \<Rightarrow> nat \<Rightarrow> nat" where
  "path_up p n = (if 0 < n \<and> p ! n \<noteq> 0x5C then path_up p (n - 1) else n)"
  by pat_completeness auto
termination
  by (relation "measure snd") auto

declare path_up.simps [simp del]

definition leave_path :: "shell \<Rightarrow> shell result" where
  "leave_path s =
     (let n = path_up (path s) (path_len s) in
      bind (array_set (path s) n 0) (\<lambda>p. Inr (s\<lparr>path := p, path_len := n\<rparr>)))"

definition push_path :: "u8 \<Rightarrow> shell \<Rightarrow> shell result" where
  "push_path c s = bind (array_set (path s) (path_len s) c) (\<lambda>p. Inr (s\<lparr>path := p, path_len := path_len s + 1\<rparr>))"

definition enter_path :: "shell \<Rightarrow> shell result" where
  "enter_path s =
     bind (push_path 0x5C s) (\<lambda>s.
     bind (foreach (\<lambda>i s. push_path (cmd2 s ! i) s) [0..<cmd2_len s] s) (\<lambda>s.
     bind (array_set (path s) (path_len s) 0) (\<lambda>p. Inr (s\<lparr>path := p\<rparr>))))"

definition cmd_cd :: "FAT32_entry \<Rightarrow> shell \<Rightarrow> shell result" where
  "cmd_cd e s =
     bind (looks_like_txt s) (\<lambda>t. if t then say_line cannot_enter s
     else
       bind (ind_of_file_in_current_directory e (cmd2 s) s) (\<lambda>(ind, s).
       if ind = - 1 then say_about does_not_exist s
       else
         bind (if is_text (cmd2 s) ''..'' then leave_path s
               else if \<not> is_text (cmd2 s) ''.'' then enter_path s
               else Inr s) (sys_cd e ind)))"

definition cmd_rm :: "FAT32_entry \<Rightarrow> shell \<Rightarrow> shell result" where
  "cmd_rm e s =
     bind (ind_of_file_in_current_directory e (cmd2 s) s) (\<lambda>(ind, s).
     if ind = - 1 then say_about does_not_exist s
     else if is_text (cmd2 s) ''.'' \<or> is_text (cmd2 s) ''..'' then
       say_about ('' can'' @ [CHR 0x27] @ ''t be removed'') s
     else sys_rm ind s)"

definition clear_column :: "int \<Rightarrow> shell \<Rightarrow> shell result" where
  "clear_column c = foreach (\<lambda>i. sys_write_char (80 * i + c) 0x20) [0..24]"

definition cmd_start0 :: "ramimage list \<Rightarrow> shell \<Rightarrow> shell result" where
  "cmd_start0 ramimages s =
     (if process0_running s then say_line ''Process 0 is already running'' s
      else shell_start ramimages 2 (s\<lparr>process0_running := True\<rparr>))"

definition cmd_start1 :: "ramimage list \<Rightarrow> shell \<Rightarrow> shell result" where
  "cmd_start1 ramimages s =
     (if process1_running s then say_line ''Process 1 is already running'' s
      else shell_start ramimages 3 (s\<lparr>process1_running := True\<rparr>))"

definition cmd_stop0 :: "shell \<Rightarrow> shell result" where
  "cmd_stop0 s =
     (if \<not> process0_running s then say_line ''Process 0 is not running'' s
      else bind (shell_stop 2 (s\<lparr>process0_running := False\<rparr>)) (clear_column 76))"

definition cmd_stop1 :: "shell \<Rightarrow> shell result" where
  "cmd_stop1 s =
     (if \<not> process1_running s then say_line ''Process 1 is not running'' s
      else bind (shell_stop 3 (s\<lparr>process1_running := False\<rparr>)) (clear_column 78))"

definition cmd_write :: "FAT32_entry \<Rightarrow> shell \<Rightarrow> shell result" where
  "cmd_write e s =
     bind (is_txt s) (\<lambda>t. if \<not> t then say_line must_end_txt s
     else
       bind (ind_of_file_in_current_directory e (cmd2 s) s) (\<lambda>(ind, s).
       bind (if ind \<noteq> - 1 then sys_rm ind s else Inr s) sys_write_file))"

definition cmd_read :: "FAT32_entry \<Rightarrow> shell \<Rightarrow> shell result" where
  "cmd_read e s =
     bind (is_txt s) (\<lambda>t. if \<not> t then say_line must_end_txt s
     else
       bind (ind_of_file_in_current_directory e (cmd2 s) s) (\<lambda>(ind, s).
       if ind = - 1 then say_about does_not_exist s
       else
         bind (sys_read_file e ind s) (\<lambda>s. bind (sys_write (cmd3 s) s) (say_line []))))"

text \<open>
  The choice of \<open>process_cmd\<close>. The test for \<open>ls\<close> is the right operand of a comma operator, so the length of
  the second word is not looked at there.
\<close>

definition run_command :: "ramimage list \<Rightarrow> FAT32_entry \<Rightarrow> shell \<Rightarrow> shell result" where
  "run_command ramimages e s =
     (let c = (\<lambda>t. is_text (cmd1 s) t); two = cmd2_len s \<noteq> 0 \<and> cmd3_len s = 0; one = cmd2_len s = 0 in
      if cmd1_len s = 0 then Inr s
      else if c ''ls'' then sys_ls e s
      else if one \<and> c ''clean'' then bind (clear_screen s) (set_cursor 0)
      else if one \<and> c ''help'' then say_line ''Availables commands: ls help clean cd mkdir rm start stop write read'' s
      else if two \<and> c ''mkdir'' then cmd_mkdir e s
      else if two \<and> c ''cd'' then cmd_cd e s
      else if two \<and> c ''rm'' then cmd_rm e s
      else if cmd3_len s = 0 \<and> c ''start'' \<and> is_text (cmd2 s) ''0'' then cmd_start0 ramimages s
      else if cmd3_len s = 0 \<and> c ''start'' \<and> is_text (cmd2 s) ''1'' then cmd_start1 ramimages s
      else if cmd3_len s = 0 \<and> c ''stop'' \<and> is_text (cmd2 s) ''0'' then cmd_stop0 s
      else if cmd3_len s = 0 \<and> c ''stop'' \<and> is_text (cmd2 s) ''1'' then cmd_stop1 s
      else if c ''write'' then cmd_write e s
      else if cmd3_len s = 0 \<and> c ''read'' then cmd_read e s
      else say_line ''Unknown command'' s)"

definition process_cmd :: "ramimage list \<Rightarrow> FAT32_entry \<Rightarrow> shell \<Rightarrow> shell result" where
  "process_cmd ramimages e s =
     bind (run_command ramimages e (parse_cmd s)) (\<lambda>s. Inr (s\<lparr>cmd_len := 0, cmd_ind := 0\<rparr>))"

section \<open>The main loop\<close>

text \<open>A character put into the line: over an earlier one, or at the end while there is room.\<close>

definition type_char :: "u8 \<Rightarrow> shell \<Rightarrow> shell result" where
  "type_char c s =
     (let p = cursor s in
      if cmd_ind s < cmd_len s then
        sys_write_char p c (s\<lparr>cmd := (cmd s)[cmd_ind s := c], cmd_ind := cmd_ind s + 1, cursor := p + 1\<rparr>)
      else if cmd_len s < BUFF_LEN then
        sys_write_char p c (s\<lparr>cmd_ind := cmd_ind s + 1, cmd := (cmd s)[cmd_len s := c], cmd_len := cmd_len s + 1,
          cursor := p + 1\<rparr>)
      else Inr s)"

definition backspace :: "shell \<Rightarrow> shell result" where
  "backspace s =
     (if cmd_ind s \<noteq> 0 then
        let s = (if cmd_ind s = cmd_len s then s\<lparr>cmd_len := cmd_len s - 1\<rparr> else s);
            s = s\<lparr>cmd_ind := cmd_ind s - 1, cursor := cursor s - 1\<rparr>
        in bind (sys_write_char (cursor s) 0 s) (\<lambda>s.
           Inr (s\<lparr>cmd := (cmd s)[cmd_ind s := 0x20], screen := (screen s)[nat (cursor s) := 0x20]\<rparr>))
      else Inr s)"

text \<open>One character read by the inner loop; the flag says that the loop is left.\<close>

definition handle_char :: "ramimage list \<Rightarrow> FAT32_entry \<Rightarrow> u8 \<Rightarrow> shell \<Rightarrow> (bool \<times> shell) result" where
  "handle_char ramimages e c s =
     (let stay = (\<lambda>r. bind r (\<lambda>s. Inr (False, s))) in
      if c = 0x0E then stay (backspace s)
      else if c = 1 then
        stay (if cmd_ind s \<noteq> 0 then set_cursor (cursor s - 1) (s\<lparr>cmd_ind := cmd_ind s - 1\<rparr>) else Inr s)
      else if c = 2 then
        stay (if cmd_len s \<noteq> cmd_ind s then set_cursor (cursor s + 1) (s\<lparr>cmd_ind := cmd_ind s + 1\<rparr>) else Inr s)
      else if c = 3 then
        stay (if 0 \<le> cursor s - 80 then bind (scroll s) (\<lambda>s. set_cursor (cursor s - 80) s) else Inr s)
      else if c = 0x09 then stay (foreach (\<lambda>_. type_char 0x20) [0..<4] s)
      else if c = 0x0A then
        bind (next_line s) (\<lambda>s. bind (process_cmd ramimages e s) (\<lambda>s. Inr (True, s)))
      else stay (if cmd_len s < BUFF_LEN then type_char c s else Inr s))"

definition prompt :: "shell \<Rightarrow> shell result" where
  "prompt s = bind (sys_write (path s) s) (say ''> '')"

text \<open>The two nested loops on the characters typed so far; at the end the shell waits for the next one.\<close>

primrec shell_loop :: "ramimage list \<Rightarrow> FAT32_entry \<Rightarrow> bytes \<Rightarrow> shell \<Rightarrow> shell result" where
  "shell_loop ramimages e [] s = Inr (sys_cursor s)"
| "shell_loop ramimages e (c # cs) s =
     bind (handle_char ramimages e c (sys_cursor s)) (\<lambda>(brk, s).
     bind (if brk then prompt s else Inr s) (shell_loop ramimages e cs))"

definition process_main :: "ramimage list \<Rightarrow> FAT32_entry \<Rightarrow> bytes \<Rightarrow> shell \<Rightarrow> shell result" where
  "process_main ramimages e typed s =
     (let s = s\<lparr>sio := outb 0xA1 0xFF (outb 0x21 0xFC (sio s)), cmd_len := 0, cursor := 0, path := (path s)[0 := 0]\<rparr>
      in bind (prompt s) (shell_loop ramimages e typed))"

end
