(* ===== verification/Shell_Screen.thy ===== *)
theory Shell_Screen
  imports User_Shell
begin

text \<open>
  What the shell's output routines do to the screen. The shell keeps a copy of the screen and
  scrolls by writing the copy back, so that the display follows the copy: \<open>mirrors\<close> says that the
  two look the same, a zero byte being as blank as a space.
\<close>

section \<open>Loops\<close>

lemma foreach_append: "foreach f (xs @ ys) s = bind (foreach f xs s) (foreach f ys)"
  by (induction xs arbitrary: s) (auto simp: bind_def split: sum.split)

lemma foreach_upt:
  assumes "\<And>i. m \<le> i \<Longrightarrow> i < n \<Longrightarrow> f i (g i) = Inr (g (Suc i))" "m \<le> n"
  shows "foreach f [m..<n] (g m) = Inr (g n)"
  using assms(2,1)
proof (induction n rule: dec_induct)
  case (step n)
  have "foreach f [m..<n] (g m) = Inr (g n)" by (rule step.IH) (use step.prems in simp)
  then show ?case using step by (simp add: foreach_append)
qed simp

text \<open>What every pass of a loop keeps, the loop keeps.\<close>

lemma foreach_keeps:
  assumes "\<And>x s s'. P s \<Longrightarrow> f x s = Inr s' \<Longrightarrow> P s'"
  shows "P s \<Longrightarrow> foreach f xs s = Inr s' \<Longrightarrow> P s'"
  by (induction xs arbitrary: s) (use assms in \<open>auto simp: bind_eq_Inr_iff\<close>)

lemma foreach_total:
  assumes "\<And>x s. x \<in> set xs \<Longrightarrow> P s \<Longrightarrow> \<exists>s'. f x s = Inr s' \<and> P s'"
  shows "P s \<Longrightarrow> \<exists>s'. foreach f xs s = Inr s' \<and> P s'"
  using assms
proof (induction xs arbitrary: s)
  case (Cons x xs)
  obtain t where "f x s = Inr t" "P t" using Cons.prems(1) Cons.prems(2) [of x s] by auto
  then show ?case using Cons.IH [of t] Cons.prems(2) by auto
qed simp

section \<open>Cells\<close>

definition glyph :: "u8 \<Rightarrow> u16" where
  "glyph c = 0x0F00 OR scast c"

text \<open>The shell after \<open>c\<close> was written to cell \<open>k\<close>, and after its whole copy was written back.\<close>

definition put_cell :: "nat \<Rightarrow> u8 \<Rightarrow> shell \<Rightarrow> shell" where
  "put_cell k c s = s\<lparr>screen := (screen s)[k := c], sio := (sio s)\<lparr>vga := (vga (sio s))(int k := glyph c)\<rparr>\<rparr>"

definition paint :: "bytes \<Rightarrow> io \<Rightarrow> io" where
  "paint b x = x\<lparr>vga := (\<lambda>p. if 0 \<le> p \<and> p < SCREEN_SIZE then glyph (b ! nat p) else vga x p)\<rparr>"

definition scrolled_bytes :: "bytes \<Rightarrow> bytes" where
  "scrolled_bytes b = drop 80 b @ replicate 80 0"

definition scrolled :: "shell \<Rightarrow> shell" where
  "scrolled s = s\<lparr>screen := scrolled_bytes (screen s), sio := paint (scrolled_bytes (screen s)) (sio s)\<rparr>"

lemma length_scrolled_bytes [simp]: "length b = 2000 \<Longrightarrow> length (scrolled_bytes b) = 2000"
  by (simp add: scrolled_bytes_def)

lemma nth_scrolled_bytes:
  "length b = 2000 \<Longrightarrow> k < 2000 \<Longrightarrow> scrolled_bytes b ! k = (if k < 1920 then b ! (k + 80) else 0)"
  by (simp add: scrolled_bytes_def nth_append add.commute)

lemma update_between:
  "length a = length b \<Longrightarrow> k < length b \<Longrightarrow> (take k b @ drop k a)[k := b ! k] = take (Suc k) b @ drop (Suc k) a"
  by (intro nth_equalityI) (auto simp: nth_append nth_list_update)

lemma sint_position: "0 \<le> p \<Longrightarrow> p < 2000 \<Longrightarrow> sint (word_of_int p :: c_int) = p"
  by (simp add: sint_sbintrunc' signed_take_bit_int_eq_self)

lemma sys_write_char_eq:
  "sys_write_char p c s = (if 0 \<le> p \<and> p < 2000 then Inr (put_cell (nat p) c s) else Inl OutOfBounds)"
  by (auto simp: sys_write_char_def put_cell_def glyph_def shell_print_char_def sint_position)

section \<open>Scrolling\<close>

text \<open>The state when the first \<open>k\<close> cells have been moved.\<close>

definition partly_scrolled :: "shell \<Rightarrow> nat \<Rightarrow> shell" where
  "partly_scrolled s k =
     (let b = scrolled_bytes (screen s) in
      s\<lparr>screen := take k b @ drop k (screen s),
        sio := (sio s)\<lparr>vga := (\<lambda>p. if 0 \<le> p \<and> p < int k then glyph (b ! nat p) else vga (sio s) p)\<rparr>\<rparr>)"

lemma partly_scrolled_step:
  assumes "length (screen s) = 2000" "k < 2000"
  shows "put_cell k (scrolled_bytes (screen s) ! k) (partly_scrolled s k) = partly_scrolled s (Suc k)"
proof -
  let ?b = "scrolled_bytes (screen s)"
  have "(take k ?b @ drop k (screen s))[k := ?b ! k] = take (Suc k) ?b @ drop (Suc k) (screen s)"
    using assms by (intro update_between) auto
  moreover have "(\<lambda>p. if 0 \<le> p \<and> p < int k then glyph (?b ! nat p) else vga (sio s) p)(int k := glyph (?b ! k)) =
      (\<lambda>p. if 0 \<le> p \<and> p < int (Suc k) then glyph (?b ! nat p) else vga (sio s) p)"
    by (auto simp: fun_eq_iff)
  ultimately show ?thesis by (simp add: put_cell_def partly_scrolled_def Let_def)
qed

lemma put_cell_screen: "put_cell k c (s\<lparr>screen := (screen s)[k := d]\<rparr>) = put_cell k c s"
  by (simp add: put_cell_def)

lemma scroll_cell_step:
  assumes "length (screen s) = 2000" "k < 1920"
  shows "scroll_cell k (partly_scrolled s k) = Inr (partly_scrolled s (Suc k))"
proof -
  have n: "scrolled_bytes (screen s) ! k = screen s ! (k + 80)"
    "screen (partly_scrolled s k) ! (k + 80) = screen s ! (k + 80)"
    using assms by (simp_all add: nth_scrolled_bytes nth_append partly_scrolled_def Let_def add.commute)
  have "k < length (screen (partly_scrolled s k))" using assms by (simp add: partly_scrolled_def Let_def)
  then show ?thesis
    using assms(2) n partly_scrolled_step [OF assms(1), of k]
    by (simp add: scroll_cell_def sys_write_char_eq put_cell_screen)
qed

lemma scroll_eq:
  assumes "length (screen s) = 2000"
  shows "scroll s = Inr (scrolled s)"
proof -
  let ?g = "partly_scrolled s"
  have line: "foreach (\<lambda>j. scroll_cell ((i - 1) * 80 + j)) [0..<80] (?g ((i - 1) * 80 + 0)) = Inr (?g ((i - 1) * 80 + 80))"
    if "1 \<le> i" "i < 25" for i
    using that by (intro foreach_upt) (auto simp: scroll_cell_step [OF assms])
  have step: "foreach (\<lambda>j. scroll_cell ((i - 1) * 80 + j)) [0..<80] (?g ((i - 1) * 80)) = Inr (?g ((Suc i - 1) * 80))"
    if "1 \<le> i" "i < 25" for i
  proof -
    have "(i - 1) * 80 + 80 = (Suc i - 1) * 80" using that(1) by simp
    then show ?thesis using line [OF that] by (simp only: add_0_right)
  qed
  have "foreach (\<lambda>i. foreach (\<lambda>j. scroll_cell ((i - 1) * 80 + j)) [0..<80]) [1..<25] (?g ((1 - 1) * 80)) = Inr (?g ((25 - 1) * 80))"
    using step by (intro foreach_upt [where g = "\<lambda>i. ?g ((i - 1) * 80)"]) auto
  moreover have "foreach (\<lambda>j s. sys_write_char (24 * 80 + int j) 0 (s\<lparr>screen := (screen s)[24 * 80 + j := 0]\<rparr>)) [0..<80]
      (?g (1920 + 0)) = Inr (?g (1920 + 80))"
  proof (rule foreach_upt)
    fix j :: nat assume "j < 80"
    moreover have "nat (1920 + int j) = 1920 + j" by simp
    ultimately show "sys_write_char (24 * 80 + int j) 0 ((?g (1920 + j))\<lparr>screen := (screen (?g (1920 + j)))[24 * 80 + j := 0]\<rparr>)
        = Inr (?g (1920 + Suc j))"
      using partly_scrolled_step [OF assms, of "1920 + j"] assms
      by (simp add: sys_write_char_eq put_cell_screen nth_scrolled_bytes)
  qed simp
  moreover have "(\<lambda>p. if 0 \<le> p \<and> p < int 0 then glyph (scrolled_bytes (screen s) ! nat p) else vga (sio s) p) = vga (sio s)"
    by (intro ext if_not_P) simp
  then have "?g 0 = s" by (simp only: partly_scrolled_def Let_def) simp
  moreover have "?g 2000 = scrolled s"
    using assms by (simp add: partly_scrolled_def scrolled_def paint_def Let_def)
  ultimately show ?thesis by (simp add: scroll_def)
qed

lemma scrolled_screen [simp]: "length (screen s) = 2000 \<Longrightarrow> length (screen (scrolled s)) = 2000"
  by (simp add: scrolled_def)

section \<open>The display follows the copy\<close>

definition looks_like :: "u8 \<Rightarrow> u8 \<Rightarrow> bool" where
  "looks_like c d \<longleftrightarrow> c = d \<or> c \<in> {0, 0x20} \<and> d \<in> {0, 0x20}"

definition mirrors :: "shell \<Rightarrow> bool" where
  "mirrors s \<longleftrightarrow> (\<forall>k < 2000. \<exists>c. vga (sio s) (int k) = glyph c \<and> looks_like c (screen s ! k))"

text \<open>
  What output does: only the copy, the display and the cursor change, no cell outside the display
  is written, no port, and the display goes on to follow the copy.
\<close>

definition draws :: "shell \<Rightarrow> shell \<Rightarrow> bool" where
  "draws s s' \<longleftrightarrow>
     s' = s\<lparr>screen := screen s', sio := (sio s)\<lparr>vga := vga (sio s')\<rparr>, cursor := cursor s'\<rparr> \<and>
     length (screen s) = 2000 \<and> length (screen s') = 2000 \<and> (mirrors s \<longrightarrow> mirrors s') \<and>
     (\<forall>p. p < 0 \<or> 2000 \<le> p \<longrightarrow> vga (sio s') p = vga (sio s) p)"

lemma draws_refl: "length (screen s) = 2000 \<Longrightarrow> draws s s"
  by (simp add: draws_def)

lemma draws_trans:
  assumes "draws s t" "draws t u"
  shows "draws s u"
proof -
  let ?f = "\<lambda>x. x\<lparr>screen := screen u, sio := (sio x)\<lparr>vga := vga (sio u)\<rparr>, cursor := cursor u\<rparr>"
  have "u = ?f t" "t = s\<lparr>screen := screen t, sio := (sio s)\<lparr>vga := vga (sio t)\<rparr>, cursor := cursor t\<rparr>"
    using assms by (simp_all add: draws_def)
  then have "u = ?f (s\<lparr>screen := screen t, sio := (sio s)\<lparr>vga := vga (sio t)\<rparr>, cursor := cursor t\<rparr>)" by (rule trans [OF _ arg_cong [of _ _ ?f]])
  also have "\<dots> = ?f s" by simp
  finally have "u = ?f s" .
  then show ?thesis using assms by (simp add: draws_def)
qed

lemma draws_fields:
  assumes "draws s s'"
  shows "cmd s' = cmd s" "cmd_len s' = cmd_len s" "path s' = path s" "path_len s' = path_len s" "cmd_ind s' = cmd_ind s"
    "process0_running s' = process0_running s" "process1_running s' = process1_running s"
    "cmd1 s' = cmd1 s" "cmd1_len s' = cmd1_len s" "cmd2 s' = cmd2 s" "cmd2_len s' = cmd2_len s" "cmd3 s' = cmd3 s"
    "cmd3_len s' = cmd3_len s" "file_name_return s' = file_name_return s" "sdisk s' = sdisk s" "ssys s' = ssys s"
    "ports (sio s') = ports (sio s)" "length (screen s') = 2000"
proof -
  have e: "s' = s\<lparr>screen := screen s', sio := (sio s)\<lparr>vga := vga (sio s')\<rparr>, cursor := cursor s'\<rparr>"
    using assms by (simp add: draws_def)
  show "cmd s' = cmd s" "cmd_len s' = cmd_len s" "path s' = path s" "path_len s' = path_len s" "cmd_ind s' = cmd_ind s"
    "process0_running s' = process0_running s" "process1_running s' = process1_running s"
    "cmd1 s' = cmd1 s" "cmd1_len s' = cmd1_len s" "cmd2 s' = cmd2 s" "cmd2_len s' = cmd2_len s" "cmd3 s' = cmd3 s"
    "cmd3_len s' = cmd3_len s" "file_name_return s' = file_name_return s" "sdisk s' = sdisk s" "ssys s' = ssys s"
    "ports (sio s') = ports (sio s)"
    by (subst e, simp)+
  show "length (screen s') = 2000" using assms by (simp add: draws_def)
qed

lemma draws_mirrors: "draws s s' \<Longrightarrow> mirrors s \<Longrightarrow> mirrors s'"
  unfolding draws_def by blast

lemma looks_like_refl [simp]: "looks_like c c"
  by (simp add: looks_like_def)

lemma put_cell_draws:
  assumes "length (screen s) = 2000" "k < 2000"
  shows "draws s (put_cell k c s)"
  using assms by (auto simp: draws_def put_cell_def mirrors_def nth_list_update)

lemma scrolled_draws:
  assumes "length (screen s) = 2000"
  shows "draws s (scrolled s)"
proof -
  have "mirrors (scrolled s)" by (auto simp: mirrors_def scrolled_def paint_def)
  then show ?thesis using assms by (auto simp: draws_def scrolled_def paint_def)
qed

lemma cursor_draws: "length (screen s) = 2000 \<Longrightarrow> draws s (s\<lparr>cursor := p\<rparr>)"
  by (simp add: draws_def mirrors_def)

lemma set_cursor_total:
  assumes "length (screen s) = 2000"
  shows "\<exists>s'. set_cursor p s = Inr s' \<and> draws s s' \<and> cursor s' = (if p < 2000 then p else 1920 + p mod 80)"
  using assms
proof (induction p s rule: set_cursor.induct)
  case (1 p s)
  show ?case
  proof (cases "p < 2000")
    case True
    then show ?thesis using cursor_draws [OF 1(2)] by (subst set_cursor.simps) simp
  next
    case False
    obtain s' where s': "set_cursor (p - 80) (scrolled s) = Inr s'" "draws (scrolled s) s'"
        "cursor s' = (if p - 80 < 2000 then p - 80 else 1920 + (p - 80) mod 80)"
      using 1 False by (auto simp: scroll_eq)
    have "(if p - 80 < 2000 then p - 80 else 1920 + (p - 80) mod 80) = 1920 + p mod 80"
      using False by auto presburger+
    then show ?thesis
      using s' False draws_trans [OF scrolled_draws [OF 1(2)]] 1(2) by (subst set_cursor.simps) (auto simp: scroll_eq)
  qed
qed

definition on_screen :: "shell \<Rightarrow> bool" where
  "on_screen s \<longleftrightarrow> length (screen s) = 2000 \<and> 0 \<le> cursor s \<and> cursor s < 2000"

lemma put_char_total:
  assumes "on_screen s"
  shows "\<exists>s'. put_char c s = Inr s' \<and> draws s s' \<and> on_screen s'"
proof -
  have s: "length (screen s) = 2000" "0 \<le> cursor s" "cursor s < 2000" using assms by (auto simp: on_screen_def)
  let ?t = "put_cell (nat (cursor s)) c s"
  have t: "draws s ?t" using s by (intro put_cell_draws) auto
  obtain s' where s': "set_cursor (cursor ?t + 1) ?t = Inr s'" "draws ?t s'"
      "cursor s' = (if cursor ?t + 1 < 2000 then cursor ?t + 1 else 1920 + (cursor ?t + 1) mod 80)"
    using set_cursor_total [OF draws_fields(18) [OF t]] by blast
  have "cursor ?t = cursor s" by (simp add: put_cell_def)
  then have "0 \<le> cursor s'" "cursor s' < 2000" using s'(3) s(2) by auto
  then show ?thesis
    using s s' draws_trans [OF t s'(2)] draws_fields(18) [OF s'(2)]
    by (simp add: put_char_def sys_write_char_eq on_screen_def)
qed

lemma next_line_total:
  assumes "length (screen s) = 2000" "0 \<le> cursor s"
  shows "\<exists>s'. next_line s = Inr s' \<and> draws s s' \<and> on_screen s' \<and> cursor s' mod 80 = 0"
proof -
  have m: "cursor s smod 80 = cursor s mod 80" using assms(2) by (simp add: smod_int_range smod_mod_positive)
  have e: "cursor s + 80 - cursor s mod 80 = 80 * (cursor s div 80 + 1)"
    by (simp add: minus_mod_eq_mult_div [symmetric] algebra_simps)
  obtain s' where s': "next_line s = Inr s'" "draws s s'"
      "cursor s' = (if 80 * (cursor s div 80 + 1) < 2000 then 80 * (cursor s div 80 + 1) else 1920 + 80 * (cursor s div 80 + 1) mod 80)"
    using set_cursor_total [OF assms(1), of "80 * (cursor s div 80 + 1)"] by (auto simp: next_line_def m e)
  have "cursor s' mod 80 = 0" "0 \<le> cursor s'" "cursor s' < 2000"
    using s'(3) assms(2) by (auto simp: div_int_pos_iff)
  then show ?thesis using s' draws_fields(18) [OF s'(2)] by (auto simp: on_screen_def)
qed

lemma sys_write_total:
  "on_screen s \<Longrightarrow> 0 \<in> set b \<Longrightarrow> \<exists>s'. sys_write b s = Inr s' \<and> draws s s' \<and> on_screen s'"
proof (induction b arbitrary: s)
  case (Cons c b)
  have len: "length (screen s) = 2000" "0 \<le> cursor s" using Cons.prems(1) by (auto simp: on_screen_def)
  have tab: "\<exists>s'. foreach (\<lambda>_. put_char 0x20) [0..<4] s = Inr s' \<and> (draws s s' \<and> on_screen s')"
    using Cons.prems(1) draws_refl [OF len(1)] put_char_total draws_trans
    by (intro foreach_total) blast+
  have "\<exists>t. (if c = 0x0A then next_line s else if c = 0x09 then foreach (\<lambda>_. put_char 0x20) [0..<4] s
      else put_char c s) = Inr t \<and> draws s t \<and> on_screen t"
    using tab put_char_total [OF Cons.prems(1)] next_line_total [OF len] by auto
  then obtain t where t: "(if c = 0x0A then next_line s else if c = 0x09 then foreach (\<lambda>_. put_char 0x20) [0..<4] s
      else put_char c s) = Inr t" "draws s t" "on_screen t" by blast
  show ?case
  proof (cases "c = 0")
    case True
    then show ?thesis using Cons.prems(1) draws_refl [OF len(1)] by simp
  next
    case False
    then obtain s' where "sys_write b t = Inr s'" "draws t s'" "on_screen s'"
      using Cons.IH [OF t(3)] Cons.prems(2) by auto
    then show ?thesis using False t(1) draws_trans [OF t(2)] by auto
  qed
qed simp

end
