(* ===== verification/Shell_Line.thy ===== *)
theory Shell_Line
  imports Shell_Screen
begin

text \<open>
  The command line: editing it, splitting it into words, comparing words. The abstract line is the
  text and the position in it; \<open>edit\<close> says what a key does to it. \<open>words3\<close> is the reference for
  the parser, in terms of the text alone.
\<close>

section \<open>Words\<close>

definition words3 :: "bytes \<Rightarrow> bytes \<times> bytes \<times> bytes" where
  "words3 t =
     (let sp = (\<lambda>c. c = 0x20); t1 = dropWhile sp t; t2 = dropWhile sp (dropWhile (\<lambda>c. c \<noteq> 0x20) t1) in
      (takeWhile (\<lambda>c. c \<noteq> 0x20) t1, takeWhile (\<lambda>c. c \<noteq> 0x20) t2, dropWhile sp (dropWhile (\<lambda>c. c \<noteq> 0x20) t2)))"

text \<open>A word in its array: the rest of the array is zero.\<close>

definition padded :: "bytes \<Rightarrow> bytes" where
  "padded w = w @ replicate (79 - length w) 0"

lemma words3_length: "words3 t = (w1, w2, w3) \<Longrightarrow> length w1 \<le> length t \<and> length w2 \<le> length t \<and> length w3 \<le> length t"
  by (auto simp: words3_def Let_def intro!: order_trans [OF length_takeWhile_le] order_trans [OF length_dropWhile_le])

lemma drop_step: "i < n \<Longrightarrow> n \<le> length b \<Longrightarrow> drop i (take n b) = b ! i # drop (Suc i) (take n b)"
  by (simp add: Cons_nth_drop_Suc [symmetric])

lemma skip_spaces_spec:
  assumes "i \<le> n" "n \<le> length b"
  shows "skip_spaces b n i \<le> n \<and> drop (skip_spaces b n i) (take n b) = dropWhile (\<lambda>c. c = 0x20) (drop i (take n b))"
  using assms
proof (induction b n i rule: skip_spaces.induct)
  case (1 b n i)
  show ?case
  proof (cases "i < n")
    case True
    then show ?thesis using 1 drop_step [of i n b] by (subst (1 2) skip_spaces.simps) auto
  next
    case False
    then show ?thesis using 1 by (subst (1 2) skip_spaces.simps) simp
  qed
qed

lemma poke_step: "k < length d \<Longrightarrow> Suc k + length w \<le> length d \<Longrightarrow> poke (Suc k) w (d[k := c]) = poke k (c # w) d"
  by (intro nth_equalityI) (auto simp: nth_poke nth_list_update nth_Cons')

lemma copy_while_spec:
  assumes "i \<le> n" "n \<le> length b" "k + (n - i) \<le> length d"
  shows "\<exists>j \<le> n. copy_while P b n i d k =
      ((poke k (takeWhile P (drop i (take n b))) d, k + length (takeWhile P (drop i (take n b)))), j) \<and>
    drop j (take n b) = dropWhile P (drop i (take n b))"
  using assms
proof (induction P b n i d k rule: copy_while.induct)
  case (1 P b n i d k)
  show ?case
  proof (cases "i < n \<and> P (b ! i)")
    case True
    have "Suc i \<le> n" "Suc k + (n - Suc i) \<le> length (d[k := b ! i])" using True 1(4) by auto
    from 1(1) [OF True this(1) 1(3) this(2)] obtain j where j: "j \<le> n" "copy_while P b n (Suc i) (d[k := b ! i]) (Suc k) =
        ((poke (Suc k) (takeWhile P (drop (Suc i) (take n b))) (d[k := b ! i]),
          Suc k + length (takeWhile P (drop (Suc i) (take n b)))), j)"
        "drop j (take n b) = dropWhile P (drop (Suc i) (take n b))"
      by blast
    have "length (takeWhile P (drop (Suc i) (take n b))) \<le> n - Suc i"
      by (rule order_trans [OF length_takeWhile_le]) (use 1(3) in simp)
    then have "poke (Suc k) (takeWhile P (drop (Suc i) (take n b))) (d[k := b ! i]) =
        poke k (b ! i # takeWhile P (drop (Suc i) (take n b))) d"
      using 1(4) True by (intro poke_step) auto
    then show ?thesis
      using True j drop_step [of i n b] 1(3) by (subst copy_while.simps) (auto intro!: exI [of _ j])
  next
    case False
    then have "takeWhile P (drop i (take n b)) = []" "dropWhile P (drop i (take n b)) = drop i (take n b)"
      using 1(2,3) drop_step [of i n b] by (cases "i < n"; auto)+
    then show ?thesis using False 1(2) by (subst copy_while.simps) (auto simp: poke_def)
  qed
qed

lemma zero_words_eq:
  assumes "length (cmd1 s) = 79" "length (cmd2 s) = 79" "length (cmd3 s) = 79"
  shows "zero_words s = s\<lparr>cmd1 := replicate 79 0, cmd1_len := 0, cmd2 := replicate 79 0, cmd2_len := 0,
    cmd3 := replicate 79 0, cmd3_len := 0\<rparr>"
proof -
  have "n \<le> 79 \<Longrightarrow> fold (\<lambda>i s. s\<lparr>cmd1 := (cmd1 s)[i := 0], cmd2 := (cmd2 s)[i := 0], cmd3 := (cmd3 s)[i := 0]\<rparr>) [0..<n] t =
      t\<lparr>cmd1 := replicate n 0 @ drop n (cmd1 t), cmd2 := replicate n 0 @ drop n (cmd2 t), cmd3 := replicate n 0 @ drop n (cmd3 t)\<rparr>"
    if "length (cmd1 t) = 79" "length (cmd2 t) = 79" "length (cmd3 t) = 79" for n t
  proof (induction n)
    case (Suc n)
    have z: "(replicate n 0 @ drop n b)[n := 0] = replicate (Suc n) 0 @ drop (Suc n) b" if "length b = 79" for b :: bytes
      using that Suc.prems by (intro nth_equalityI) (auto simp: nth_append nth_list_update nth_Cons')
    show ?case using Suc that by (simp del: replicate_Suc add: z)
  qed simp
  from this [of "s\<lparr>cmd1_len := 0, cmd2_len := 0, cmd3_len := 0\<rparr>" 79] assms show ?thesis by (simp add: zero_words_def)
qed

lemma poke_padded: "length w \<le> 79 \<Longrightarrow> poke 0 w (replicate 79 0) = padded w"
  by (simp add: poke_def padded_def drop_replicate)

lemma copy_word:
  assumes "i \<le> n" "n \<le> length b" "n \<le> 78"
  shows "\<exists>j \<le> n. copy_while P b n i (replicate 79 0) 0 =
      ((padded (takeWhile P (drop i (take n b))), length (takeWhile P (drop i (take n b)))), j) \<and>
    drop j (take n b) = dropWhile P (drop i (take n b))"
proof -
  have "length (takeWhile P (drop i (take n b))) \<le> 79"
    by (rule order_trans [OF length_takeWhile_le]) (use assms in simp)
  moreover have "0 + (n - i) \<le> length (replicate 79 (0 :: u8))" using assms(3) by simp
  ultimately show ?thesis
    using copy_while_spec [OF assms(1,2), of 0 "replicate 79 0" P] by (simp add: poke_padded)
qed

lemma parse_cmd_eq:
  assumes "length (cmd s) = 78" "cmd_len s \<le> 78" "length (cmd1 s) = 79" "length (cmd2 s) = 79" "length (cmd3 s) = 79"
    and "words3 (take (cmd_len s) (cmd s)) = (w1, w2, w3)"
  shows "parse_cmd s = s\<lparr>cmd1 := padded w1, cmd1_len := length w1, cmd2 := padded w2, cmd2_len := length w2,
    cmd3 := padded w3, cmd3_len := length w3\<rparr>"
proof -
  let ?n = "cmd_len s" and ?b = "cmd s" and ?r = "\<lambda>i. drop i (take (cmd_len s) (cmd s))"
  let ?z = "replicate 79 0 :: bytes" and ?i1 = "skip_spaces (cmd s) (cmd_len s) 0"
  have n: "?n \<le> length ?b" using assms(1,2) by simp
  note sk = skip_spaces_spec [OF _ n] and cp = copy_word [OF _ n assms(2)]
  have i1: "?i1 \<le> ?n" "?r ?i1 = dropWhile (\<lambda>c. c = 0x20) (?r 0)" using sk [of 0] by auto
  obtain j1 where j1: "j1 \<le> ?n" "copy_while (\<lambda>c. c \<noteq> 0x20) ?b ?n ?i1 ?z 0 =
      ((padded (takeWhile (\<lambda>c. c \<noteq> 0x20) (?r ?i1)), length (takeWhile (\<lambda>c. c \<noteq> 0x20) (?r ?i1))), j1)"
      "?r j1 = dropWhile (\<lambda>c. c \<noteq> 0x20) (?r ?i1)"
    using cp [OF i1(1)] by blast
  let ?i2 = "skip_spaces ?b ?n j1"
  have i2: "?i2 \<le> ?n" "?r ?i2 = dropWhile (\<lambda>c. c = 0x20) (?r j1)" using sk [OF j1(1)] by auto
  obtain j2 where j2: "j2 \<le> ?n" "copy_while (\<lambda>c. c \<noteq> 0x20) ?b ?n ?i2 ?z 0 =
      ((padded (takeWhile (\<lambda>c. c \<noteq> 0x20) (?r ?i2)), length (takeWhile (\<lambda>c. c \<noteq> 0x20) (?r ?i2))), j2)"
      "?r j2 = dropWhile (\<lambda>c. c \<noteq> 0x20) (?r ?i2)"
    using cp [OF i2(1)] by blast
  let ?i3 = "skip_spaces ?b ?n j2"
  have i3: "?i3 \<le> ?n" "?r ?i3 = dropWhile (\<lambda>c. c = 0x20) (?r j2)" using sk [OF j2(1)] by auto
  have all: "takeWhile (\<lambda>_. True) t = t" for t :: bytes by (induction t) simp_all
  obtain j3 where j3: "copy_while (\<lambda>_. True) ?b ?n ?i3 ?z 0 = ((padded (?r ?i3), length (?r ?i3)), j3)"
    using cp [OF i3(1), of "\<lambda>_. True"] unfolding all by blast
  have "?r 0 = take ?n ?b" by simp
  then have w: "w1 = takeWhile (\<lambda>c. c \<noteq> 0x20) (?r ?i1)" "w2 = takeWhile (\<lambda>c. c \<noteq> 0x20) (?r ?i2)" "w3 = ?r ?i3"
    using assms(6) i1(2) i2(2) i3(2) j1(3) j2(3) by (simp_all add: words3_def Let_def del: drop_0)
  show ?thesis
    using j1(2) j2(2) j3 by (simp add: parse_cmd_def Let_def zero_words_eq [OF assms(3-5)] w)
qed

section \<open>Comparing\<close>

definition text_of :: "bytes \<Rightarrow> bytes" where
  "text_of b = takeWhile (\<lambda>c. c \<noteq> 0) b"

primrec same_start :: "nat \<Rightarrow> bytes \<Rightarrow> bytes \<Rightarrow> bool" where
  "same_start 0 a b \<longleftrightarrow> True"
| "same_start (Suc n) a b \<longleftrightarrow> hd a = hd b \<and> (hd a = 0 \<or> same_start n (tl a) (tl b))"

lemma same_start_text:
  "0 \<in> set a \<Longrightarrow> 0 \<in> set b \<Longrightarrow> same_start n a b \<longleftrightarrow> take n (text_of a) = take n (text_of b)"
proof (induction n arbitrary: a b)
  case (Suc n)
  obtain x a' y b' where ab: "a = x # a'" "b = y # b'"
    using Suc.prems by (metis list.set_cases list.exhaust empty_iff list.set(1))
  show ?case using Suc ab by (auto simp: text_of_def)
qed simp

lemma strcmp_loop_spec:
  assumes "i \<le> 6" "0 \<in> set (drop i a)" "0 \<in> set (drop i b)"
  shows "(a ! strcmp_loop a b i = b ! strcmp_loop a b i) = same_start (7 - i) (drop i a) (drop i b)"
  using assms
proof (induction a b i rule: strcmp_loop.induct)
  case (1 a b i)
  have i: "i < length a" "i < length b" using 1(3,4) by (metis drop_all empty_iff list.set(1) not_le_imp_less)+
  then have d: "drop i a = a ! i # drop (Suc i) a" "drop i b = b ! i # drop (Suc i) b"
    by (simp_all add: Cons_nth_drop_Suc)
  show ?case
  proof (cases "a ! i \<noteq> 0 \<and> b ! i \<noteq> 0 \<and> a ! i = b ! i \<and> i \<le> 5")
    case True
    then have "7 - i = Suc (7 - Suc i)" by arith
    moreover have "0 \<in> set (drop (Suc i) a)" "0 \<in> set (drop (Suc i) b)" using True 1(3,4) unfolding d by auto
    ultimately show ?thesis using True 1(1) d by (subst (1 2) strcmp_loop.simps) simp
  next
    case False
    have "same_start (7 - i) (drop i a) (drop i b) \<longleftrightarrow> a ! i = b ! i"
    proof (cases "i = 6")
      case True
      then have "same_start (7 - i) (drop i a) (drop i b) \<longleftrightarrow> same_start (Suc 0) (drop i a) (drop i b)" by simp
      then show ?thesis unfolding d by simp
    next
      case i6: False
      then have "7 - i = Suc (6 - i)" using 1(2) by simp
      then show ?thesis unfolding d using False i6 1(2) by auto
    qed
    moreover have "strcmp_loop a b i = i" using False by (subst strcmp_loop.simps) auto
    ultimately show ?thesis by simp
  qed
qed

lemma strcmp_eq:
  assumes "0 \<in> set a" "0 \<in> set b"
  shows "strcmp a b = 0 \<longleftrightarrow> take 7 (text_of a) = take 7 (text_of b)"
proof -
  have "(of_bool (x > y) - of_bool (x < y) :: int) = 0 \<longleftrightarrow> x = y" for x y :: u8
    by (cases x y rule: linorder_cases) auto
  then show ?thesis
    using strcmp_loop_spec [of 0 a b] same_start_text [OF assms, of 7] assms by (simp add: strcmp_def Let_def)
qed

lemma text_padded: "0 \<notin> set w \<Longrightarrow> length w \<le> 78 \<Longrightarrow> text_of (padded w) = w \<and> 0 \<in> set (padded w)"
  by (simp add: text_of_def padded_def takeWhile_append)

section \<open>Editing\<close>

text \<open>The line as text and position, and what a key does to it.\<close>

definition line_of :: "shell \<Rightarrow> bytes \<times> nat" where
  "line_of s = (take (cmd_len s) (cmd s), cmd_ind s)"

definition put_text :: "u8 \<Rightarrow> bytes \<times> nat \<Rightarrow> bytes \<times> nat" where
  "put_text c l = (case l of (t, p) \<Rightarrow>
     if p < length t then (t[p := c], Suc p) else if length t < BUFF_LEN then (t @ [c], Suc p) else l)"

definition edit :: "u8 \<Rightarrow> bytes \<times> nat \<Rightarrow> bytes \<times> nat" where
  "edit c l = (case l of (t, p) \<Rightarrow>
     if c = 0x0E then (if p = 0 then l else if p = length t then (butlast t, p - 1) else (t[p - 1 := 0x20], p - 1))
     else if c = 1 then (t, p - 1)
     else if c = 2 then (t, if p = length t then p else Suc p)
     else if c = 0x09 then (put_text 0x20 ^^ 4) l
     else if length t < BUFF_LEN then put_text c l else l)"

text \<open>
  The shell while a line is edited: the line starts at cell \<open>b\<close> and fits on the screen from there,
  and the copy of the screen shows the text of the line.
\<close>

definition editing :: "nat \<Rightarrow> shell \<Rightarrow> bool" where
  "editing b s \<longleftrightarrow> length (cmd s) = 78 \<and> cmd_ind s \<le> cmd_len s \<and> cmd_len s \<le> 78 \<and> length (screen s) = 2000 \<and>
     b + 78 \<le> 2000 \<and> cursor s = int (b + cmd_ind s) \<and> (\<forall>i < cmd_len s. screen s ! (b + i) = cmd s ! i)"

text \<open>What stays the same while a line is edited.\<close>

definition same_world :: "shell \<Rightarrow> shell \<Rightarrow> bool" where
  "same_world s s' \<longleftrightarrow> path s' = path s \<and> path_len s' = path_len s \<and> process0_running s' = process0_running s \<and>
     process1_running s' = process1_running s \<and> cmd1 s' = cmd1 s \<and> cmd2 s' = cmd2 s \<and> cmd3 s' = cmd3 s \<and>
     file_name_return s' = file_name_return s \<and> sdisk s' = sdisk s \<and> ssys s' = ssys s"

definition edits :: "shell \<Rightarrow> shell \<Rightarrow> bool" where
  "edits s s' \<longleftrightarrow> (mirrors s \<longrightarrow> mirrors s') \<and> same_world s s'"

lemma edits_refl: "edits s s"
  by (simp add: edits_def same_world_def)

lemma edits_trans: "edits s t \<Longrightarrow> edits t u \<Longrightarrow> edits s u"
  by (simp add: edits_def same_world_def)

lemma draws_edits: "draws s s' \<Longrightarrow> edits s s'"
  unfolding edits_def same_world_def using draws_fields [of s s'] by (simp add: draws_mirrors)

lemma editing_put_cell:
  assumes "editing b s" "i \<le> cmd_len s" "i < 78" "t = put_cell (b + i) c s"
    and "s' = t\<lparr>cmd := (cmd s)[i := c], cmd_len := n, cmd_ind := p, cursor := int (b + p)\<rparr>"
    and "n \<le> Suc (cmd_len s)" "n \<le> 78" "p \<le> n" "n = Suc (cmd_len s) \<longrightarrow> i = cmd_len s"
  shows "editing b s'" "edits s s'"
proof -
  show "editing b s'"
  proof -
    have "j = i \<or> j < cmd_len s" if "j < n" for j using that assms(6,9) by linarith
    then show ?thesis using assms(1,3-5,7,8) by (auto simp: editing_def put_cell_def nth_list_update)
  qed
  have "edits s t"
    using put_cell_draws [of s "b + i" c] assms(1,3,4) by (auto intro: draws_edits simp: editing_def)
  then show "edits s s'" by (simp add: edits_def same_world_def mirrors_def assms(5))
qed

lemma type_char_refines:
  assumes "editing b s"
  shows "\<exists>s'. type_char c s = Inr s' \<and> editing b s' \<and> line_of s' = put_text c (line_of s) \<and> edits s s'"
proof -
  let ?i = "cmd_ind s" and ?n = "cmd_len s"
  have e: "?i \<le> ?n" "?n \<le> 78" "length (cmd s) = 78" "cursor s = int (b + ?i)" "b + 78 \<le> 2000"
    using assms by (auto simp: editing_def)
  have w: "sys_write_char (cursor s) c t = Inr (put_cell (b + ?i) c t)" if "?i < 78" for t
    using that e(4,5) by (simp add: sys_write_char_eq nat_add_distrib)
  consider (over) "?i < ?n" | (new) "?i = ?n" "?n < 78" | (full) "?i = ?n" "?n = 78" using e(1,2) by linarith
  then show ?thesis
  proof cases
    case over
    let ?s = "(put_cell (b + ?i) c s)\<lparr>cmd := (cmd s)[?i := c], cmd_len := ?n, cmd_ind := Suc ?i, cursor := int (b + Suc ?i)\<rparr>"
    have "type_char c s = Inr ?s"
      using over e w by (simp add: type_char_def Let_def put_cell_def)
    moreover have "line_of ?s = put_text c (line_of s)"
      using over e by (simp add: line_of_def put_text_def put_cell_def take_update_swap)
    ultimately show ?thesis
      using editing_put_cell [OF assms e(1) _ refl refl, where c = c and n = ?n and p = "Suc ?i"] over e by auto
  next
    case new
    let ?s = "(put_cell (b + ?i) c s)\<lparr>cmd := (cmd s)[?i := c], cmd_len := Suc ?n, cmd_ind := Suc ?i, cursor := int (b + Suc ?i)\<rparr>"
    have "type_char c s = Inr ?s"
      using new e w by (simp add: type_char_def Let_def put_cell_def)
    moreover have "take (Suc ?n) ((cmd s)[?n := c]) = take ?n (cmd s) @ [c]"
      using new e by (simp add: take_Suc_conv_app_nth)
    then have "line_of ?s = put_text c (line_of s)"
      using new e by (simp add: line_of_def put_text_def put_cell_def)
    ultimately show ?thesis
      using editing_put_cell [OF assms e(1) _ refl refl, where c = c and n = "Suc ?n" and p = "Suc ?i"] new e by auto
  next
    case full
    then have "type_char c s = Inr s" "put_text c (line_of s) = line_of s"
      using e by (simp_all add: type_char_def put_text_def line_of_def Let_def)
    then show ?thesis using assms edits_refl by simp
  qed
qed

lemma backspace_refines:
  assumes "editing b s"
  shows "\<exists>s'. backspace s = Inr s' \<and> editing b s' \<and> line_of s' = edit 0x0E (line_of s) \<and> edits s s'"
proof (cases "cmd_ind s = 0")
  case True
  then show ?thesis using assms edits_refl by (simp add: backspace_def edit_def line_of_def)
next
  case False
  then obtain i where i: "cmd_ind s = Suc i" by (cases "cmd_ind s") auto
  let ?n = "if Suc i = cmd_len s then i else cmd_len s"
  have e: "Suc i \<le> cmd_len s" "cmd_len s \<le> 78" "length (cmd s) = 78" "cursor s = int b + int i + 1" "b + 78 \<le> 2000"
      "length (screen s) = 2000"
    using assms i by (auto simp: editing_def)
  let ?s = "s\<lparr>cmd_len := ?n, cmd_ind := i, cursor := int b + int i, cmd := (cmd s)[i := 0x20], screen := (screen s)[b + i := 0x20],
      sio := sio (put_cell (b + i) 0 s)\<rparr>"
  have n: "nat (int b + int i) = b + i" by simp
  have "backspace s = Inr ?s"
  proof (cases "cmd_len s = Suc i")
    case False
    then show ?thesis using e by (simp add: backspace_def Let_def sys_write_char_eq put_cell_def i n)
  qed (use e in \<open>simp add: backspace_def Let_def sys_write_char_eq put_cell_def i n\<close>)
  moreover have "editing b ?s"
    using assms e by (auto simp: editing_def nth_list_update)
  moreover have "line_of ?s = edit 0x0E (line_of s)"
    using e by (cases "cmd_len s = Suc i") (simp_all add: line_of_def edit_def take_update_swap butlast_take list_update_beyond i)
  moreover have "mirrors ?s" if "mirrors s"
    using that e by (auto simp: mirrors_def put_cell_def nth_list_update looks_like_def)
  then have "edits s ?s" by (simp add: edits_def same_world_def)
  ultimately show ?thesis by blast
qed

text \<open>Moving the cursor; the step to the cell behind the last one scrolls, and the line with it.\<close>

lemma editing_set_cursor:
  assumes "editing b s" "p \<le> cmd_len s"
  shows "\<exists>b' s'. set_cursor (int (b + p)) (s\<lparr>cmd_ind := p\<rparr>) = Inr s' \<and> editing b' s' \<and> line_of s' = (fst (line_of s), p) \<and>
    edits s s'"
proof -
  let ?s = "s\<lparr>cmd_ind := p\<rparr>"
  have e: "cmd_len s \<le> 78" "b + 78 \<le> 2000" "length (screen s) = 2000" "length (cmd s) = 78"
      "\<And>i. i < cmd_len s \<Longrightarrow> screen s ! (b + i) = cmd s ! i"
    using assms by (auto simp: editing_def)
  show ?thesis
  proof (cases "b + p < 2000")
    case True
    then have "set_cursor (int (b + p)) ?s = Inr (?s\<lparr>cursor := int (b + p)\<rparr>)" by (subst set_cursor.simps) simp
    moreover have "editing b (?s\<lparr>cursor := int (b + p)\<rparr>)" using assms by (simp add: editing_def)
    ultimately show ?thesis by (auto simp: line_of_def mirrors_def edits_def same_world_def)
  next
    case False
    then have b: "b = 1922" "p = 78" using assms(2) e(1,2) by linarith+
    let ?t = "(scrolled ?s)\<lparr>cursor := 1920\<rparr>"
    have "set_cursor (int (b + p)) ?s = Inr ?t"
      using b e(3) by (subst set_cursor.simps) (simp add: scroll_eq set_cursor.simps)
    moreover have "editing 1842 ?t"
    proof -
      have "scrolled_bytes (screen s) ! (1842 + i) = cmd s ! i" if "i < 78" for i
        using that e assms(2) b by (simp add: nth_scrolled_bytes)
      then show ?thesis using e assms(2) b by (auto simp: editing_def scrolled_def)
    qed
    moreover have "mirrors ?t" by (auto simp: mirrors_def scrolled_def paint_def)
    then have "edits s ?t" by (simp add: edits_def same_world_def scrolled_def)
    moreover have "line_of ?t = (fst (line_of s), p)" by (simp add: line_of_def scrolled_def)
    ultimately show ?thesis by blast
  qed
qed

lemma foreach_type_refines:
  "editing b s \<Longrightarrow> \<exists>s'. foreach (\<lambda>_. type_char c) xs s = Inr s' \<and> editing b s' \<and>
    line_of s' = (put_text c ^^ length xs) (line_of s) \<and> edits s s'"
proof (induction xs arbitrary: s)
  case (Cons x xs)
  obtain t where t: "type_char c s = Inr t" "editing b t" "line_of t = put_text c (line_of s)" "edits s t"
    using type_char_refines [OF Cons.prems] by blast
  then show ?case using Cons.IH [OF t(2)] edits_trans [OF t(4)] by (auto simp: funpow_swap1)
qed (auto intro: edits_refl)

lemma sys_cursor_edit [simp]:
  "editing b (sys_cursor s) = editing b s" "line_of (sys_cursor s) = line_of s" "edits (sys_cursor s) s' = edits s s'"
  by (simp_all add: editing_def line_of_def mirrors_def sys_cursor_def edits_def same_world_def Let_def outb_def)

lemma arrow_refines:
  assumes "editing b s" "c = 1 \<or> c = 2"
  shows "\<exists>b' s'. handle_char ims e c s = Inr (False, s') \<and> editing b' s' \<and> line_of s' = edit c (line_of s) \<and> edits s s'"
proof -
  have len: "cmd_ind s \<le> cmd_len s" "cmd_len s \<le> 78" "length (cmd s) = 78" "cursor s = int (b + cmd_ind s)"
    using assms(1) by (auto simp: editing_def)
  consider (left) "c = 1" "cmd_ind s \<noteq> 0" | (right) "c = 2" "cmd_ind s \<noteq> cmd_len s"
    | (ends) "c = 1" "cmd_ind s = 0" | (ends') "c = 2" "cmd_ind s = cmd_len s" using assms(2) by blast
  then show ?thesis
  proof cases
    case left
    then have p: "cursor s - 1 = int (b + (cmd_ind s - 1))" "cmd_ind s - 1 \<le> cmd_len s" using len(1,4) by auto
    show ?thesis
      using left p(2) editing_set_cursor [OF assms(1), of "cmd_ind s - 1", folded p(1)]
      by (auto simp: handle_char_def edit_def line_of_def)
  next
    case right
    have p: "cursor s + 1 = int (b + Suc (cmd_ind s))" using len(4) by simp
    show ?thesis
      using right editing_set_cursor [OF assms(1), of "Suc (cmd_ind s)", folded p] len(1-3)
      by (auto simp: handle_char_def edit_def line_of_def)
  qed (use assms(1) len edits_refl in \<open>auto simp: handle_char_def edit_def line_of_def\<close>)
qed

lemma edit_refines:
  assumes "editing b s" "c \<noteq> 3" "c \<noteq> 0x0A"
  shows "\<exists>b' s'. handle_char ims e c s = Inr (False, s') \<and> editing b' s' \<and> line_of s' = edit c (line_of s) \<and> edits s s'"
proof -
  have len: "cmd_ind s \<le> cmd_len s" "cmd_len s \<le> 78" "length (cmd s) = 78" using assms(1) by (auto simp: editing_def)
  consider (bs) "c = 0x0E" | (arrow) "c = 1 \<or> c = 2" | (tab) "c = 0x09"
    | (other) "c \<noteq> 0x0E" "c \<noteq> 1" "c \<noteq> 2" "c \<noteq> 0x09" by blast
  then show ?thesis
  proof cases
    case bs
    then show ?thesis using backspace_refines [OF assms(1)] by (auto simp: handle_char_def)
  next
    case tab
    then show ?thesis
      using foreach_type_refines [OF assms(1), of "0x20" "[0..<4]"]
      by (auto simp: handle_char_def edit_def line_of_def split: prod.split)
  next
    case other
    show ?thesis
    proof (cases "cmd_len s < 78")
      case True
      then show ?thesis
        using other assms type_char_refines [OF assms(1), of c] len
        by (auto simp: handle_char_def edit_def line_of_def Let_def)
    qed (use other assms len edits_refl in \<open>auto simp: handle_char_def edit_def line_of_def Let_def\<close>)
  qed (rule arrow_refines [OF assms(1)])
qed

text \<open>A whole sequence of keys, up to the next command.\<close>

lemma edit_loop:
  assumes "editing b s" "3 \<notin> set cs" "0x0A \<notin> set cs"
  shows "\<exists>b' s'. editing b' s' \<and> line_of s' = fold edit cs (line_of s) \<and> edits s s' \<and>
    (\<forall>rest. shell_loop ims e (cs @ rest) s = shell_loop ims e rest s')"
  using assms
proof (induction cs arbitrary: b s)
  case (Cons c cs)
  obtain b1 s1 where s1: "handle_char ims e c (sys_cursor s) = Inr (False, s1)" "editing b1 s1"
      "line_of s1 = edit c (line_of s)" "edits s s1"
    using edit_refines [of b "sys_cursor s" c ims e] Cons.prems by auto
  obtain b2 s2 where s2: "editing b2 s2" "line_of s2 = fold edit cs (line_of s1)" "edits s1 s2"
      "\<forall>rest. shell_loop ims e (cs @ rest) s1 = shell_loop ims e rest s2"
    using Cons.IH [OF s1(2)] Cons.prems by auto
  then show ?case using s1 edits_trans [OF s1(4)] by auto
qed (auto intro: edits_refl)

section \<open>A typed command\<close>

definition plain :: "u8 \<Rightarrow> bool" where
  "plain c \<longleftrightarrow> c \<notin> {1, 2, 3, 0x09, 0x0A, 0x0E}"

lemma fold_edit_plain:
  "list_all plain t \<Longrightarrow> length u + length t \<le> 78 \<Longrightarrow> fold edit t (u, length u) = (u @ t, length (u @ t))"
proof (induction t arbitrary: u)
  case (Cons c t)
  have "edit c (u, length u) = (u @ [c], length (u @ [c]))"
    using Cons.prems by (simp add: edit_def put_text_def plain_def)
  then show ?case using Cons.IH [of "u @ [c]"] Cons.prems by simp
qed simp

lemma run_line:
  assumes "editing b s" "line_of s = ([], 0)" "list_all plain t" "length t \<le> 78" "words3 t = (w1, w2, w3)"
    and "length (cmd1 s) = 79" "length (cmd2 s) = 79" "length (cmd3 s) = 79"
  shows "\<exists>s1. on_screen s1 \<and> cursor s1 mod 80 = 0 \<and> edits (s\<lparr>cmd1 := padded w1, cmd2 := padded w2, cmd3 := padded w3\<rparr>) s1 \<and>
    cmd_len s1 = length t \<and> cmd1_len s1 = length w1 \<and> cmd2_len s1 = length w2 \<and> cmd3_len s1 = length w3 \<and> length (cmd s1) = 78 \<and>
    (\<forall>rest. shell_loop ims e (t @ 0x0A # rest) s = bind (run_command ims e s1) (\<lambda>s2.
      bind (prompt (s2\<lparr>cmd_len := 0, cmd_ind := 0\<rparr>)) (shell_loop ims e rest)))"
proof -
  have "3 \<notin> set t" "0x0A \<notin> set t" using assms(3) by (auto simp: list_all_iff plain_def)
  then obtain b1 s1 where s1: "editing b1 s1" "line_of s1 = fold edit t (line_of s)" "edits s s1"
      "\<And>rest. shell_loop ims e (t @ rest) s = shell_loop ims e rest s1"
    using edit_loop [OF assms(1)] by blast
  have line: "line_of s1 = (t, length t)" using s1(2) fold_edit_plain [of t "[]"] assms(2-4) by simp
  have ed: "length (screen s1) = 2000" "cursor s1 = int (b1 + cmd_ind s1)" "length (cmd s1) = 78" "cmd_len s1 \<le> 78"
    using s1(1) by (auto simp: editing_def)
  let ?s1 = "sys_cursor s1"
  have c: "length (screen ?s1) = 2000" "0 \<le> cursor ?s1" using ed by (simp_all add: sys_cursor_def Let_def)
  obtain s2 where s2: "next_line ?s1 = Inr s2" "draws ?s1 s2" "on_screen s2" "cursor s2 mod 80 = 0"
    using next_line_total [OF c] by (elim exE conjE)
  have f: "cmd s2 = cmd s1" "cmd_len s2 = cmd_len s1" "cmd1 s2 = cmd1 s1" "cmd2 s2 = cmd2 s1" "cmd3 s2 = cmd3 s1"
    using draws_fields [OF s2(2)] by (simp_all add: sys_cursor_def Let_def)
  have t: "take (cmd_len s2) (cmd s2) = t" "cmd_len s2 = length t" using line ed by (auto simp: line_of_def f)
  have len: "length (cmd s2) = 78" "cmd_len s2 \<le> 78" "length (cmd1 s2) = 79" "length (cmd2 s2) = 79" "length (cmd3 s2) = 79"
    using f ed(3) t(2) assms(4,6-8) s1(3) by (simp_all add: edits_def same_world_def)
  let ?s3 = "s2\<lparr>cmd1 := padded w1, cmd1_len := length w1, cmd2 := padded w2, cmd2_len := length w2,
    cmd3 := padded w3, cmd3_len := length w3\<rparr>"
  have parse: "parse_cmd s2 = ?s3"
    by (rule parse_cmd_eq [OF len]) (use t assms(5) in simp)
  have "edits s s2" using edits_trans [OF s1(3)] draws_edits [OF s2(2)] by simp
  then have "edits (s\<lparr>cmd1 := padded w1, cmd2 := padded w2, cmd3 := padded w3\<rparr>) ?s3"
    by (simp add: edits_def same_world_def mirrors_def)
  moreover have "handle_char ims e 0x0A ?s1 = bind (run_command ims e ?s3) (\<lambda>s. Inr (True, s\<lparr>cmd_len := 0, cmd_ind := 0\<rparr>))"
    using s2(1) parse by (simp add: handle_char_def process_cmd_def) (simp add: bind_def split: sum.split)
  then have "shell_loop ims e (0x0A # rest) s1 = bind (run_command ims e ?s3) (\<lambda>s2.
      bind (prompt (s2\<lparr>cmd_len := 0, cmd_ind := 0\<rparr>)) (shell_loop ims e rest))" for rest
    by (simp add: bind_def split: sum.split)
  then have "\<forall>rest. shell_loop ims e (t @ 0x0A # rest) s = bind (run_command ims e ?s3) (\<lambda>s2.
      bind (prompt (s2\<lparr>cmd_len := 0, cmd_ind := 0\<rparr>)) (shell_loop ims e rest))"
    using s1(4) by simp
  moreover have "on_screen ?s3" "cursor ?s3 mod 80 = 0" using s2(3,4) by (simp_all add: on_screen_def)
  ultimately show ?thesis using len t by (intro exI [of _ ?s3]) auto
qed

end
