(* ===== verification/Shell_Files.thy ===== *)
theory Shell_Files
  imports Shell_Line
begin

text \<open>
  The shell's commands on files. Looking a name up walks through the records of the current
  directory with the listing call, and takes the last one whose name agrees in the first seven
  bytes.
\<close>

section \<open>Looking up a name\<close>

definition name_of :: "bytes \<Rightarrow> bytes" where
  "name_of r = text_of (short_name r)"

definition matches :: "bytes \<Rightarrow> bytes list \<Rightarrow> nat \<Rightarrow> bool" where
  "matches name rs j \<longleftrightarrow> \<not> removed_record (rs ! j) \<and> take 7 (name_of (rs ! j)) = take 7 (text_of name)"

definition last_match :: "bytes \<Rightarrow> bytes list \<Rightarrow> nat \<Rightarrow> nat \<Rightarrow> c_int \<Rightarrow> c_int" where
  "last_match name rs i n found =
     (let js = filter (matches name rs) [i..<n] in if js = [] then found else of_nat (last js))"

lemma last_match_none:
  assumes "find (\<lambda>j. \<not> removed_record (rs ! j)) [i..<n] = None"
  shows "last_match name rs i n found = found"
proof -
  have "filter (matches name rs) [i..<n] = []"
    using assms by (auto simp: find_None_iff filter_empty_conv matches_def)
  then show ?thesis by (simp add: last_match_def)
qed

lemma last_match_some:
  assumes "find (\<lambda>j. \<not> removed_record (rs ! j)) [i..<n] = Some j"
  shows "last_match name rs i n found = last_match name rs (Suc j) n (if matches name rs j then of_nat j else found)"
    "i \<le> j" "j < n" "\<not> removed_record (rs ! j)"
proof -
  have j: "i \<le> j" "j < n" "\<not> removed_record (rs ! j)" "\<And>k. i \<le> k \<Longrightarrow> k < j \<Longrightarrow> removed_record (rs ! k)"
  proof -
    obtain k where k: "k < length [i..<n]" "\<not> removed_record (rs ! ([i..<n] ! k))" "j = [i..<n] ! k"
        "\<And>l. l < k \<Longrightarrow> removed_record (rs ! ([i..<n] ! l))"
      using assms by (auto simp: find_Some_iff)
    have kj: "j = i + k" "k < n - i" using k(1,3) by auto
    show "i \<le> j" "j < n" "\<not> removed_record (rs ! j)" using k(2,3) kj by auto
    show "removed_record (rs ! l)" if "i \<le> l" "l < j" for l
      using k(4) [of "l - i"] that kj by simp
  qed
  have "[i..<n] = [i..<j] @ j # [Suc j..<n]"
    using j(1,2) upt_add_eq_append [of i j "n - j"] upt_conv_Cons [of j n] by simp
  moreover have "filter (matches name rs) [i..<j] = []"
    using j(4) by (auto simp: filter_empty_conv matches_def)
  ultimately have "filter (matches name rs) [i..<n] =
      (if matches name rs j then [j] else []) @ filter (matches name rs) [Suc j..<n]" by simp
  then show "last_match name rs i n found = last_match name rs (Suc j) n (if matches name rs j then of_nat j else found)"
    by (auto simp: last_match_def Let_def)
  show "i \<le> j" "j < n" "\<not> removed_record (rs ! j)" by (fact j)+
qed

lemma length_name_of: "length r = 32 \<Longrightarrow> length (name_of r) \<le> 12"
proof -
  assume "length r = 32"
  then have "length (short_name r) \<le> 12"
    using length_short_name [of r] strip_spaces_le [of r 8] by (simp split: if_splits)
  then show ?thesis
    unfolding name_of_def text_of_def using length_takeWhile_le [of "\<lambda>c. c \<noteq> 0" "short_name r"] by linarith
qed

lemma copy_name:
  assumes "length r = 32" "length old = 51"
  obtains str where "copy_in (name_of r @ [0]) old = Inr str" "length str = 51" "text_of str = name_of r" "0 \<in> set str"
proof
  let ?str = "name_of r @ 0 # drop (Suc (length (name_of r))) old"
  have n: "length (name_of r) \<le> 12" using assms(1) by (rule length_name_of)
  show "copy_in (name_of r @ [0]) old = Inr ?str" using n assms(2) by (simp add: copy_in_def poke_def)
  show "length ?str = 51" using n assms(2) by simp
  show "text_of ?str = name_of r" by (simp add: text_of_def name_of_def takeWhile_terminated takeWhile_idem)
  show "0 \<in> set ?str" by simp
qed

lemma record_number:
  assumes "j < 2 ^ 31"
  shows "(of_nat j :: c_int) \<noteq> - 1" "unat (of_nat (Suc j) :: c_int) = Suc j"
proof -
  have "unat (of_nat j :: c_int) = j" using assms by (simp add: unat_of_nat)
  moreover have "unat (- 1 :: c_int) = 2 ^ 32 - 1" by (simp add: unsigned_minus_1_eq_mask mask_eq_exp_minus_1)
  ultimately show "(of_nat j :: c_int) \<noteq> - 1" using assms by auto
  show "unat (of_nat (Suc j) :: c_int) = Suc j" using assms by (simp add: unat_of_nat del: of_nat_Suc)
qed

text \<open>One turn of the search: at the end of the directory it returns what it has found, otherwise it looks at the next record.\<close>

lemma ind_loop_turn:
  assumes "current_dir (sdisk s) cs n" "named_records (sdisk s) cs n" "unat (file_ind (sdisk s)) \<le> n" "length (ename e) = 13"
    "length (file_name_return s) = 51" "0 \<in> set name"
  defines "d \<equiv> sdisk s" and "rs \<equiv> dir_list (sdisk s) cs"
  shows "\<exists>f str. fs_inv (infoFat d) f \<and> disk f = disk (fsys d) \<and> length str = 51 \<and> ind_loop e name found s =
    (case find (\<lambda>j. \<not> removed_record (rs ! j)) [unat (file_ind d)..<n] of
       None \<Rightarrow> Some (Inr (found, s\<lparr>sdisk := d\<lparr>fsys := f, file_ind := 0\<rparr>, file_name_return := str\<rparr>))
     | Some j \<Rightarrow> ind_loop e name (if matches name rs j then of_nat j else found)
         (s\<lparr>sdisk := d\<lparr>fsys := f, file_ind := of_nat (Suc j)\<rparr>, file_name_return := str\<rparr>))"
proof -
  let ?first = "find (\<lambda>j. \<not> removed_record (rs ! j)) [unat (file_ind d)..<n]"
  obtain f where f: "fs_inv (infoFat d) f" "disk f = disk (fsys d)" "list_files e d = Some (Inr (
      case ?first of
        Some j \<Rightarrow> ((of_nat j, takeWhile (\<lambda>c. c \<noteq> 0) (short_name (rs ! j)) @ [0]), d\<lparr>fsys := f, file_ind := of_nat (Suc j)\<rparr>)
      | None \<Rightarrow> ((- 1, []), d\<lparr>fsys := f, file_ind := 0\<rparr>)))"
    using list_files_spec [OF assms(1-4)] unfolding d_def rs_def by blast
  show ?thesis
  proof (cases ?first)
    case None
    then have "ind_loop e name found s = Some (Inr (found,
        s\<lparr>sdisk := d\<lparr>fsys := f, file_ind := 0\<rparr>, file_name_return := file_name_return s\<rparr>))"
      using f(3) by (subst ind_loop.simps) (simp add: copy_in_def poke_def d_def)
    then show ?thesis using f(1,2) None assms(5) by (intro exI [of _ f] exI [of _ "file_name_return s"]) simp
  next
    case (Some j)
    note j = last_match_some [OF Some]
    have len: "length (rs ! j) = 32" using dir_list_record(1) [OF assms(1)] j(3) by (simp add: rs_def)
    obtain str where str: "copy_in (name_of (rs ! j) @ [0]) (file_name_return s) = Inr str" "length str = 51"
        "text_of str = name_of (rs ! j)" "0 \<in> set str"
      using copy_name [OF len assms(5)] by blast
    have "strcmp str name = 0 \<longleftrightarrow> matches name rs j"
      using strcmp_eq [OF str(4) assms(6)] str(3) j(4) by (simp add: matches_def)
    moreover have "j < 2 ^ 31" using assms(1) j(3) by (simp add: current_dir_def)
    ultimately have "ind_loop e name found s = ind_loop e name (if matches name rs j then of_nat j else found)
        (s\<lparr>sdisk := d\<lparr>fsys := f, file_ind := of_nat (Suc j)\<rparr>, file_name_return := str\<rparr>)"
      using f(3) Some str(1) record_number(1) [of j] by (subst ind_loop.simps) (simp add: name_of_def text_of_def d_def)
    then show ?thesis using f(1,2) Some str(2) by auto
  qed
qed

lemma ind_loop_spec:
  assumes "current_dir (sdisk s) cs n" "named_records (sdisk s) cs n" "unat (file_ind (sdisk s)) \<le> n" "length (ename e) = 13"
    "length (file_name_return s) = 51" "0 \<in> set name"
  shows "\<exists>f str. ind_loop e name found s = Some (Inr (
      last_match name (dir_list (sdisk s) cs) (unat (file_ind (sdisk s))) n found,
      s\<lparr>sdisk := (sdisk s)\<lparr>fsys := f, file_ind := 0\<rparr>, file_name_return := str\<rparr>)) \<and>
    length str = 51 \<and> fs_inv (infoFat (sdisk s)) f \<and> disk f = disk (fsys (sdisk s))"
  using assms
proof (induction "n - unat (file_ind (sdisk s))" arbitrary: s found rule: less_induct)
  case less
  let ?d = "sdisk s" and ?i = "unat (file_ind (sdisk s))" and ?rs = "dir_list (sdisk s) cs"
  obtain f str where f: "fs_inv (infoFat ?d) f" "disk f = disk (fsys ?d)" "length str = 51" and turn: "ind_loop e name found s =
      (case find (\<lambda>j. \<not> removed_record (?rs ! j)) [?i..<n] of
         None \<Rightarrow> Some (Inr (found, s\<lparr>sdisk := ?d\<lparr>fsys := f, file_ind := 0\<rparr>, file_name_return := str\<rparr>))
       | Some j \<Rightarrow> ind_loop e name (if matches name ?rs j then of_nat j else found)
           (s\<lparr>sdisk := ?d\<lparr>fsys := f, file_ind := of_nat (Suc j)\<rparr>, file_name_return := str\<rparr>))"
    using ind_loop_turn [OF less.prems] by blast
  show ?case
  proof (cases "find (\<lambda>j. \<not> removed_record (?rs ! j)) [?i..<n]")
    case None
    then show ?thesis
      using f turn last_match_none [OF None, of name found] by (intro exI [of _ f] exI [of _ str]) simp
  next
    case (Some j)
    note j = last_match_some [OF Some]
    have "j < 2 ^ 31" using less.prems(1) j(3) by (simp add: current_dir_def)
    note j1 = record_number(2) [OF this]
    let ?s1 = "s\<lparr>sdisk := ?d\<lparr>fsys := f, file_ind := of_nat (Suc j)\<rparr>, file_name_return := str\<rparr>"
    let ?found = "if matches name ?rs j then of_nat j else found"
    note u = current_dir_update [OF f(1,2), of "of_nat (Suc j)" cs]
    have "current_dir (sdisk ?s1) cs n" using u(1) less.prems(1) by (auto simp: current_dir_def)
    moreover have "named_records (sdisk ?s1) cs n" using less.prems(2) u(2) by (simp add: named_records_def)
    moreover have "unat (file_ind (sdisk ?s1)) \<le> n" "n - unat (file_ind (sdisk ?s1)) < n - ?i" using j1 j(2,3) by simp_all
    ultimately obtain g str' where "ind_loop e name ?found ?s1 = Some (Inr (
        last_match name (dir_list (sdisk ?s1) cs) (unat (file_ind (sdisk ?s1))) n ?found,
        ?s1\<lparr>sdisk := (sdisk ?s1)\<lparr>fsys := g, file_ind := 0\<rparr>, file_name_return := str'\<rparr>))"
      "length str' = 51" "fs_inv (infoFat (sdisk ?s1)) g" "disk g = disk (fsys (sdisk ?s1))"
      using less.hyps [of ?s1 ?found] less.prems(4,6) f(3) by auto
    then show ?thesis using turn Some f(2) u(2) j(1) j1 by auto
  qed
qed

lemma lookup_spec:
  assumes "current_dir (sdisk s) cs n" "named_records (sdisk s) cs n" "file_ind (sdisk s) = 0" "length (ename e) = 13"
    "length (file_name_return s) = 51" "0 \<in> set name"
  shows "\<exists>f str. ind_of_file_in_current_directory e name s = Inr (last_match name (dir_list (sdisk s) cs) 0 n (- 1),
      s\<lparr>sdisk := (sdisk s)\<lparr>fsys := f, file_ind := 0\<rparr>, file_name_return := str\<rparr>) \<and>
    length str = 51 \<and> fs_inv (infoFat (sdisk s)) f \<and> disk f = disk (fsys (sdisk s))"
proof -
  have "unat (file_ind (sdisk s)) \<le> n" using assms(3) by simp
  from ind_loop_spec [OF assms(1,2) this assms(4-6), of "- 1"] obtain f str where
    "ind_loop e name (- 1) s = Some (Inr (last_match name (dir_list (sdisk s) cs) 0 n (- 1),
      s\<lparr>sdisk := (sdisk s)\<lparr>fsys := f, file_ind := 0\<rparr>, file_name_return := str\<rparr>))"
    "length str = 51" "fs_inv (infoFat (sdisk s)) f" "disk f = disk (fsys (sdisk s))"
    using assms(3) by auto
  then show ?thesis
    by (intro exI [of _ f] exI [of _ str]) (simp add: ind_of_file_in_current_directory_def)
qed

section \<open>Command words\<close>

lemma is_text_padded:
  assumes "0 \<notin> set w" "length w \<le> 78" "0 \<notin> set (ascii t)"
  shows "is_text (padded w) t \<longleftrightarrow> take 7 w = take 7 (ascii t)"
proof -
  have "text_of (ascii t @ [0]) = ascii t"
    using assms(3) by (simp add: text_of_def takeWhile_append)
  then show ?thesis using strcmp_eq [of "padded w" "ascii t @ [0]"] text_padded [OF assms(1,2)] by simp
qed

lemma tests_write:
  "\<not> is_text (padded (ascii ''write'')) ''ls''" "\<not> is_text (padded (ascii ''write'')) ''clean''"
  "\<not> is_text (padded (ascii ''write'')) ''help''" "\<not> is_text (padded (ascii ''write'')) ''mkdir''"
  "\<not> is_text (padded (ascii ''write'')) ''cd''" "\<not> is_text (padded (ascii ''write'')) ''rm''"
  "\<not> is_text (padded (ascii ''write'')) ''start''" "\<not> is_text (padded (ascii ''write'')) ''stop''"
  "is_text (padded (ascii ''write'')) ''write''" "\<not> is_text (padded (ascii ''write'')) ''read''"
  by (subst is_text_padded; simp add: ascii_def)+

lemma tests_read:
  "\<not> is_text (padded (ascii ''read'')) ''ls''" "\<not> is_text (padded (ascii ''read'')) ''clean''"
  "\<not> is_text (padded (ascii ''read'')) ''help''" "\<not> is_text (padded (ascii ''read'')) ''mkdir''"
  "\<not> is_text (padded (ascii ''read'')) ''cd''" "\<not> is_text (padded (ascii ''read'')) ''rm''"
  "\<not> is_text (padded (ascii ''read'')) ''start''" "\<not> is_text (padded (ascii ''read'')) ''stop''"
  "\<not> is_text (padded (ascii ''read'')) ''write''" "is_text (padded (ascii ''read'')) ''read''"
  by (subst is_text_padded; simp add: ascii_def)+

lemma run_write:
  assumes "cmd1 s = padded (ascii ''write'')" "cmd1_len s = 5"
  shows "run_command ims e s = cmd_write e s"
  using assms by (simp add: run_command_def Let_def tests_write)

lemma run_read:
  assumes "cmd1 s = padded (ascii ''read'')" "cmd1_len s = 4" "cmd3_len s = 0"
  shows "run_command ims e s = cmd_read e s"
  using assms by (simp add: run_command_def Let_def tests_read)

section \<open>Printing a line\<close>

definition printable :: "u8 \<Rightarrow> bool" where
  "printable c \<longleftrightarrow> c \<notin> {0, 0x09, 0x0A}"

lemma put_char_inside:
  assumes "length (screen s) = 2000" "0 \<le> cursor s" "cursor s < 1999"
  shows "put_char c s = Inr ((put_cell (nat (cursor s)) c s)\<lparr>cursor := cursor s + 1\<rparr>)"
  using assms by (subst put_char_def) (simp add: sys_write_char_eq set_cursor.simps put_cell_def)

lemma sys_write_text:
  "length (screen s) = 2000 \<Longrightarrow> 0 \<le> cursor s \<Longrightarrow> cursor s + int (length t) < 2000 \<Longrightarrow> list_all printable t \<Longrightarrow>
    \<exists>s'. sys_write (t @ 0 # r) s = Inr s' \<and> draws s s' \<and> cursor s' = cursor s + int (length t) \<and>
      screen s' = poke (nat (cursor s)) t (screen s)"
proof (induction t arbitrary: s)
  case Nil
  then show ?case using draws_refl [of s] by (simp add: poke_def)
next
  case (Cons c t)
  let ?k = "nat (cursor s)" and ?s = "(put_cell (nat (cursor s)) c s)\<lparr>cursor := cursor s + 1\<rparr>"
  have k: "?k < 2000" "nat (cursor s + 1) = Suc ?k" using Cons.prems(2,3) by auto
  have p: "draws s (put_cell ?k c s)" by (rule put_cell_draws [OF Cons.prems(1) k(1)])
  have d: "draws s ?s" by (rule draws_trans [OF p cursor_draws [OF draws_fields(18) [OF p]]])
  obtain s' where s': "sys_write (t @ 0 # r) ?s = Inr s'" "draws ?s s'" "cursor s' = cursor ?s + int (length t)"
      "screen s' = poke (nat (cursor ?s)) t (screen ?s)"
    using Cons.IH [of ?s] Cons.prems by (auto simp: put_cell_def)
  have "screen s' = poke ?k (c # t) (screen s)"
    using s'(4) k Cons.prems by (simp add: put_cell_def) (rule poke_step, auto)
  then show ?case
    using s' draws_trans [OF d s'(2)] Cons.prems put_char_inside [of s c] by (simp add: printable_def)
qed

lemma next_line_row:
  assumes "length (screen s) = 2000" "cursor s = int (80 * q + m)" "q \<le> 24" "m < 80"
  shows "\<exists>s'. next_line s = Inr s' \<and> draws s s' \<and> cursor s' = int (80 * min (Suc q) 24) \<and>
    screen s' = (if q < 24 then screen s else scrolled_bytes (screen s))"
proof -
  have "cursor s smod 80 = cursor s mod 80" using assms(2) by (simp add: smod_int_range smod_mod_positive)
  also have "\<dots> = int m" using assms(2,4) by simp
  finally have n: "next_line s = set_cursor (int (80 * Suc q)) s"
    using assms(2) by (simp add: next_line_def algebra_simps)
  show ?thesis
  proof (cases "q < 24")
    case True
    then have "set_cursor (int (80 * Suc q)) s = Inr (s\<lparr>cursor := int (80 * Suc q)\<rparr>)"
      by (subst set_cursor.simps) simp
    then show ?thesis using n True cursor_draws [OF assms(1)] by auto
  next
    case False
    then have q: "q = 24" using assms(3) by simp
    then have "set_cursor (int (80 * Suc q)) s = Inr ((scrolled s)\<lparr>cursor := 1920\<rparr>)"
      using assms(1) by (subst set_cursor.simps) (simp add: scroll_eq set_cursor.simps)
    moreover have "draws s ((scrolled s)\<lparr>cursor := 1920\<rparr>)"
      using draws_trans [OF scrolled_draws cursor_draws] assms(1) by simp
    ultimately show ?thesis using n q by (auto simp: scrolled_def)
  qed
qed

lemma peek_scrolled:
  "length b = 2000 \<Longrightarrow> n \<le> 80 \<Longrightarrow> peek n 1840 (scrolled_bytes b) = peek n 1920 b"
  by (intro nth_equalityI) (auto simp: peek_nth nth_scrolled_bytes)

text \<open>A text printed from the start of a line stands in the line above the cursor afterwards.\<close>

lemma print_line:
  assumes "length (screen s) = 2000" "cursor s = int (80 * q)" "q \<le> 24" "list_all printable t" "length t < 80"
  shows "\<exists>s' q'. bind (sys_write (t @ 0 # r) s) (say_line []) = Inr s' \<and> draws s s' \<and> q' < 24 \<and>
    cursor s' = int (80 * Suc q') \<and> peek (length t) (80 * q') (screen s') = t"
proof -
  have n: "nat (80 * int q) = 80 * q" by simp
  obtain s1 where s1: "sys_write (t @ 0 # r) s = Inr s1" "draws s s1" "cursor s1 = cursor s + int (length t)"
      "screen s1 = poke (80 * q) t (screen s)"
    using sys_write_text [OF assms(1) _ _ assms(4), of r] assms(2,3,5) by (auto simp: n)
  have c1: "cursor s1 = int (80 * q + length t)" using s1(3) assms(2) by simp
  obtain s2 where s2: "next_line s1 = Inr s2" "draws s1 s2" "cursor s2 = int (80 * min (Suc q) 24)"
      "screen s2 = (if q < 24 then screen s1 else scrolled_bytes (screen s1))"
    using next_line_row [OF draws_fields(18) [OF s1(2)] c1 assms(3,5)] by (elim exE conjE)
  have t: "peek (length t) (80 * q) (screen s1) = t" using s1(4) assms(1,3,5) by (simp add: peek_poke_same)
  have "bind (sys_write (t @ 0 # r) s) (say_line []) = Inr s2" using s1(1) s2(1) by (simp add: say_line_def ascii_def)
  moreover have "draws s s2" by (rule draws_trans [OF s1(2) s2(2)])
  moreover have "\<exists>q'. q' < 24 \<and> cursor s2 = int (80 * Suc q') \<and> peek (length t) (80 * q') (screen s2) = t"
  proof (cases "q < 24")
    case True
    then show ?thesis using s2(3,4) t by (intro exI [of _ q]) simp
  next
    case False
    then have "q = 24" using assms(3) by simp
    then show ?thesis
      using s2(3,4) t peek_scrolled [OF draws_fields(18) [OF s1(2)], of "length t"] assms(5)
      by (intro exI [of _ 23]) simp
  qed
  ultimately show ?thesis by blast
qed

lemma prompt_line:
  assumes "length (screen s) = 2000" "cursor s = int (80 * q)" "q \<le> 24" "path s = 0 # p" "length (cmd s) = 78"
    "cmd_len s = 0" "cmd_ind s = 0"
  shows "\<exists>s'. prompt s = Inr s' \<and> draws s s' \<and> editing (80 * q + 2) s' \<and> line_of s' = ([], 0) \<and>
    screen s' = poke (80 * q) [0x3E, 0x20] (screen s)"
proof -
  have t: "ascii ''> '' = [0x3E, 0x20]" by (simp add: ascii_def)
  have n: "nat (80 * int q) = 80 * q" by simp
  obtain s' where s': "sys_write ([0x3E, 0x20] @ 0 # []) s = Inr s'" "draws s s'" "cursor s' = cursor s + 2"
      "screen s' = poke (80 * q) [0x3E, 0x20] (screen s)"
    using sys_write_text [OF assms(1), of "[0x3E, 0x20]" "[]"] assms(2,3) by (auto simp: printable_def n)
  have "prompt s = Inr s'" using s'(1) assms(4) by (simp add: prompt_def say_def t)
  moreover have "editing (80 * q + 2) s'" "line_of s' = ([], 0)"
    using draws_fields [OF s'(2)] s'(3) assms(2,3,5-7) by (simp_all add: editing_def line_of_def)
  ultimately show ?thesis using s' by blast
qed

section \<open>Writing and reading a file\<close>

definition txt_name :: "bytes \<Rightarrow> bytes" where
  "txt_name base = base @ [0x2E, 0x54, 0x58, 0x54]"

text \<open>The base of a name that can be typed as one word and kept in a record.\<close>

definition typed_base :: "bytes \<Rightarrow> bool" where
  "typed_base base \<longleftrightarrow> name_ok base [0x54, 0x58, 0x54] \<and> 0x20 \<notin> set base \<and> 0xE5 \<notin> set base \<and> list_all plain base"

text \<open>A directory with \<open>n\<close> records in use, room for two more, and room on the volume for \<open>len\<close> bytes.\<close>

definition room_for_file :: "disk_state \<Rightarrow> nat list \<Rightarrow> nat \<Rightarrow> nat \<Rightarrow> bool" where
  "room_for_file d cs n len \<longleftrightarrow> current_dir d cs n \<and> named_records d cs n \<and> file_ind d = 0 \<and>
     Suc n < dir_capacity (infoFat d) (unat (currentCluster d) # cs) \<and> Suc n < 2 ^ 31 \<and>
     \<not> record_used (infoFat d) (vol (infoFat d) (fsys d)) (unat (currentCluster d) # cs) (Suc n) \<and>
     sectors_for len div unat (sectorPerCluster (infoFat d)) < card (free_clusters (infoFat d) (vol (infoFat d) (fsys d)))"

lemma typed_baseD:
  assumes "typed_base base"
  shows "name_ok base [0x54, 0x58, 0x54]" "length (txt_name base) \<le> 12" "0 \<notin> set (txt_name base)" "base \<noteq> []"
    "0x20 \<notin> set (txt_name base)" "hd base \<noteq> 0" "hd base \<noteq> 0x20" "hd base \<noteq> 0xE5"
  using assms by (cases base; auto simp: typed_base_def name_ok_def txt_name_def)+

lemma array_get_nat: "i < length b \<Longrightarrow> array_get b (int i) = Inr (b ! i)"
  by (simp add: array_get_def)

lemma txt_suffix_ok:
  assumes "length base \<le> 8"
  shows "txt_suffix (padded (txt_name base)) (length (txt_name base)) = Inr True"
proof -
  let ?b = "padded (txt_name base)"
  have g: "array_get ?b (int (length (txt_name base)) - int k) = Inr ([0x54, 0x58, 0x54, 0x2E] ! (k - 1))"
    if "k \<in> {1, 2, 3, 4}" for k
  proof -
    have "int (length (txt_name base)) - int k = int (length base + (4 - k))" using that by (auto simp: txt_name_def)
    moreover have "?b ! (length base + (4 - k)) = [0x54, 0x58, 0x54, 0x2E] ! (k - 1)"
      using that by (auto simp: padded_def txt_name_def nth_append)
    moreover have "length base + (4 - k) < length ?b" using assms that by (auto simp: padded_def txt_name_def)
    ultimately show ?thesis by (simp only: array_get_nat)
  qed
  show ?thesis using g [of 1] g [of 2] g [of 3] g [of 4] by (simp add: txt_suffix_def)
qed

lemma pointer_txt:
  assumes "length base \<le> 8" "i < length (name_chars base [0x54, 0x58, 0x54])"
  shows "array_pointer (padded (txt_name base)) i = name_chars base [0x54, 0x58, 0x54] ! i"
proof -
  have "padded (txt_name base) = name_chars base [0x54, 0x58, 0x54] @ replicate (74 - length base) 0"
    using assms(1) by (simp add: padded_def txt_name_def name_chars_def replicate_Suc [symmetric] Suc_diff_le del: replicate_Suc)
  then show ?thesis using assms(2) by (simp add: array_pointer_def nth_append)
qed

lemma pointer_text: "length c \<le> 78 \<Longrightarrow> map (array_pointer (padded c)) [0..<length c] = c"
  by (intro nth_equalityI) (auto simp: array_pointer_def padded_def nth_append)

abbreviation stored_name :: "bytes \<Rightarrow> bytes" where
  "stored_name base \<equiv> writeFileName blank_name (array_pointer (padded (txt_name base)))"

lemma stored_name_eq:
  assumes "typed_base base"
  shows "stored_name base = fat_name base [0x54, 0x58, 0x54] @ drop 11 blank_name" "stored_name base ! 0 = hd base"
proof -
  have n: "name_ok base [0x54, 0x58, 0x54]" "length base \<le> 8" "base \<noteq> []"
    using assms by (auto simp: typed_base_def name_ok_def)
  show "stored_name base = fat_name base [0x54, 0x58, 0x54] @ drop 11 blank_name"
    by (rule writeFileName_ok [OF n(1) pointer_txt [OF n(2)]]) (auto simp: blank_name_def)
  then show "stored_name base ! 0 = hd base" using n(3) by (simp add: fat_name_def fat_record_def nth_append hd_conv_nth)
qed

lemma stored_record_name:
  assumes "typed_base base" "length r = 32" "ename x = stored_name base"
  shows "name_of (fill_record r 0 x) = txt_name base" "fill_record r 0 x ! 0 = hd base"
proof -
  let ?r = "fill_record r 0 x" and ?old = "replicate 13 0 :: bytes"
  note b = typed_baseD [OF assms(1)]
  have l: "length (fat_name base [0x54, 0x58, 0x54]) = 11" by (rule length_fat_name [OF b(1)])
  have i: "?r ! i = fat_name base [0x54, 0x58, 0x54] ! i" if "i < 11" for i
    using that assms(2,3) stored_name_eq(1) [OF assms(1)] l by (simp add: fill_record_pokes nth_poke nth_append)
  show h: "?r ! 0 = hd base"
    using assms(2,3) stored_name_eq(2) [OF assms(1)] by (simp add: fill_record_pokes nth_poke)
  have "readFileName ?r ?old = name_chars base [0x54, 0x58, 0x54] @ drop (length (name_chars base [0x54, 0x58, 0x54])) ?old"
    by (rule readFileName_fat_name [OF b(1)]) (simp_all add: i)
  moreover have "readFileName ?r ?old = short_name ?r @ 0 # drop (Suc (length (short_name ?r))) ?old"
    by (rule readFileName_short) (use h b(6) assms(2) in \<open>simp_all add: fill_record_pokes\<close>)
  ultimately have "text_of (short_name ?r @ 0 # drop (Suc (length (short_name ?r))) ?old) =
      text_of (txt_name base @ 0 # drop (length (name_chars base [0x54, 0x58, 0x54])) ?old)"
    by (simp add: name_chars_def txt_name_def)
  then have "name_of ?r = takeWhile (\<lambda>c. c \<noteq> 0) (txt_name base)"
    by (simp only: text_of_def name_of_def takeWhile_terminated)
  also have "\<dots> = txt_name base" using b(3) by (simp add: takeWhile_eq_all_conv) metis
  finally show "name_of ?r = txt_name base" .
qed

lemma cmd_write_spec:
  assumes room: "room_for_file (sdisk s) cs n (length c)" and base: "typed_base base"
    and e: "length (ename e) = 13" "length (file_name_return s) = 51"
    and w: "cmd2 s = padded (txt_name base)" "cmd2_len s = length (txt_name base)" "cmd3 s = padded c" "cmd3_len s = length c"
      "length c \<le> 78"
    and new: "last_match (padded (txt_name base)) (dir_list (sdisk s) cs) 0 n (- 1) = - 1"
  shows "\<exists>f d fs str. cmd_write e s = Inr (s\<lparr>sdisk := (sdisk s)\<lparr>fsys := f, file_ind := 0\<rparr>, file_name_return := str\<rparr>) \<and>
    length str = 51 \<and> fs_inv (infoFat (sdisk s)) f \<and>
    file_stored (infoFat (sdisk s)) (unat (currentCluster (sdisk s)) # cs) n (file_entry (stored_name base) d (length c)) c d fs
      (vol (infoFat (sdisk s)) (fsys (sdisk s))) (vol (infoFat (sdisk s)) f)"
proof -
  let ?d = "sdisk s" and ?m = "infoFat (sdisk s)"
  have dir: "current_dir ?d cs n" "named_records ?d cs n" "file_ind ?d = 0" using room by (simp_all add: room_for_file_def)
  have z: "0 \<in> set (padded (txt_name base))" using text_padded typed_baseD(2,3) [OF base] by simp
  have istxt: "is_txt s = Inr True"
    using txt_suffix_ok [of base] typed_baseD(1) [OF base] w(1,2) by (simp add: is_txt_def name_ok_def txt_name_def)
  obtain f0 str where f0: "ind_of_file_in_current_directory e (cmd2 s) s = Inr (- 1,
      s\<lparr>sdisk := ?d\<lparr>fsys := f0, file_ind := 0\<rparr>, file_name_return := str\<rparr>)"
      "length str = 51" "fs_inv ?m f0" "disk f0 = disk (fsys ?d)"
    using lookup_spec [OF dir e z] new w(1) by auto
  let ?dl = "?d\<lparr>fsys := f0, file_ind := 0\<rparr>"
  have v: "vol ?m f0 = vol ?m (fsys ?d)" using f0(4) by (rule vol_disk)
  have "current_dir ?dl cs n" using current_dir_update(1) [OF f0(3,4), of 0 cs n] dir(1) by (auto simp: current_dir_def)
  from write_file_stored [OF this, of "length c" "array_pointer (cmd3 s)" "array_pointer (cmd2 s)"]
  obtain f d fs where f: "write_file (array_pointer (cmd3 s)) (of_nat (length c)) (array_pointer (cmd2 s)) ?dl = Inr (?dl\<lparr>fsys := f\<rparr>)"
      "fs_inv ?m f" "file_stored ?m (unat (currentCluster ?d) # cs) n (file_entry (writeFileName blank_name (array_pointer (cmd2 s))) d (length c))
        (map (array_pointer (cmd3 s)) [0..<length c]) d fs (vol ?m f0) (vol ?m f)"
    using room v w(5) by (auto simp: room_for_file_def)
  have "cmd_write e s = Inr (s\<lparr>sdisk := ?d\<lparr>fsys := f, file_ind := 0\<rparr>, file_name_return := str\<rparr>)"
    using istxt f0(1) f(1) w(4) by (simp add: cmd_write_def sys_write_file_def)
  moreover have "file_stored ?m (unat (currentCluster ?d) # cs) n (file_entry (stored_name base) d (length c)) c d fs
      (vol ?m (fsys ?d)) (vol ?m f)"
    using f(3) v w(1,3) pointer_text [OF w(5)] by simp
  ultimately show ?thesis using f0(2) f(2) by blast
qed

lemma last_match_here:
  assumes "matches name rs n"
  shows "last_match name rs 0 (Suc n) found = of_nat n"
  using assms by (simp add: last_match_def)

text \<open>A file that has been stored is found under its name.\<close>

lemma lookup_stored:
  assumes room: "room_for_file d0 cs n len" and base: "typed_base base"
    and st: "file_stored (infoFat d0) (unat (currentCluster d0) # cs) n (file_entry (stored_name base) d len) c d fs
      (vol (infoFat d0) (fsys d0)) (vol (infoFat d0) f)" "fs_inv (infoFat d0) f"
    and e: "length (ename e) = 13" "length (file_name_return s) = 51"
    and s: "sdisk s = d0\<lparr>fsys := f, file_ind := 0\<rparr>" "cmd2 s = padded (txt_name base)"
  shows "\<exists>f0 str. ind_of_file_in_current_directory e (cmd2 s) s = Inr (of_nat n,
      s\<lparr>sdisk := d0\<lparr>fsys := f0, file_ind := 0\<rparr>, file_name_return := str\<rparr>) \<and>
    fs_inv (infoFat d0) f0 \<and> disk f0 = disk f \<and> length str = 51"
proof -
  let ?d1 = "d0\<lparr>fsys := f\<rparr>" and ?e = "file_entry (stored_name base) d len"
  have dir: "current_dir d0 cs n" "named_records d0 cs n" "file_ind d0 = 0"
    using room by (simp_all add: room_for_file_def)
  have "ename ?e ! 0 \<noteq> 0" using stored_name_eq(2) [OF base] typed_baseD(6) [OF base] by simp
  note d1 = stored_dir [OF dir(1) _ _ _ st this]
  have dir1: "current_dir ?d1 cs (Suc n)" "dir_list ?d1 cs = (dir_list d0 cs)[n := fill_record (dir_list d0 cs ! n) 0 ?e]"
    using d1 room by (simp_all add: room_for_file_def)
  have n: "n < length (dir_list d0 cs)" "length (dir_list d0 cs ! n) = 32"
    using dir(1) dir_list_record(1) [OF dir(1), of n] by (simp_all add: current_dir_def)
  have rn: "name_of (dir_list ?d1 cs ! n) = txt_name base" "dir_list ?d1 cs ! n ! 0 = hd base"
    using stored_record_name [OF base n(2), of ?e] dir1(2) n(1) by simp_all
  have named: "named_records ?d1 cs (Suc n)"
    using dir(2) dir1(2) rn(2) typed_baseD(7) [OF base] by (auto simp: named_records_def less_Suc_eq)
  have match: "matches (padded (txt_name base)) (dir_list ?d1 cs) n"
    using rn typed_baseD(8) [OF base] text_padded typed_baseD(2,3) [OF base] by (simp add: matches_def removed_record_def)
  have s1: "sdisk s = ?d1" using s(1) dir(3) by simp
  have "0 \<in> set (padded (txt_name base))" using text_padded typed_baseD(2,3) [OF base] by simp
  then show ?thesis
    using lookup_spec [of s cs "Suc n" e "cmd2 s"] dir1(1) named dir(3) e last_match_here [OF match] s(2) unfolding s1 by auto
qed

lemma cmd_read_spec:
  assumes room: "room_for_file d0 cs n (length c)" and base: "typed_base base" and c: "list_all printable c" "length c \<le> 78"
    and st: "file_stored (infoFat d0) (unat (currentCluster d0) # cs) n (file_entry (stored_name base) d (length c)) c d fs
      (vol (infoFat d0) (fsys d0)) (vol (infoFat d0) f)" "fs_inv (infoFat d0) f"
    and e: "length (ename e) = 13" "length (file_name_return s) = 51"
    and s: "sdisk s = d0\<lparr>fsys := f, file_ind := 0\<rparr>" "cmd2 s = padded (txt_name base)" "cmd2_len s = length (txt_name base)"
      "cmd3 s = padded []" "length (screen s) = 2000" "cursor s = int (80 * q)" "q \<le> 24"
  shows "\<exists>s' q' g str. cmd_read e s = Inr s' \<and> q' < 24 \<and> cursor s' = int (80 * Suc q') \<and>
    peek (length c) (80 * q') (screen s') = c \<and> fs_inv (infoFat d0) g \<and> vol (infoFat d0) g = vol (infoFat d0) f \<and>
    draws (s\<lparr>sdisk := d0\<lparr>fsys := g, file_ind := 0\<rparr>, file_name_return := str, cmd3 := padded c\<rparr>) s' \<and> length str = 51"
proof -
  let ?m = "infoFat d0"
  have dir: "current_dir d0 cs n" using room by (simp add: room_for_file_def)
  obtain f0 str where f0: "ind_of_file_in_current_directory e (cmd2 s) s = Inr (of_nat n,
      s\<lparr>sdisk := d0\<lparr>fsys := f0, file_ind := 0\<rparr>, file_name_return := str\<rparr>)"
      "fs_inv ?m f0" "disk f0 = disk f" "length str = 51"
    using lookup_stored [OF room base st e s(1,2)] by blast
  have v: "vol ?m f0 = vol ?m f" using f0(3) by (rule vol_disk)
  obtain g where g: "read_file e (of_nat n) (d0\<lparr>fsys := f0, file_ind := 0\<rparr>) = Inr (c, d0\<lparr>fsys := g, file_ind := 0\<rparr>)"
      "fs_inv ?m g" "vol ?m g = vol ?m f0"
    using read_file_stored [OF dir _ st(1) [folded v] f0(2)] c(2) by auto
  let ?s1 = "s\<lparr>sdisk := d0\<lparr>fsys := g, file_ind := 0\<rparr>, file_name_return := str, cmd3 := padded c\<rparr>"
  have "copy_in c (padded []) = Inr (padded c)" using c(2) by (simp add: copy_in_def padded_def poke_def)
  then have rd: "sys_read_file e (of_nat n) (s\<lparr>sdisk := d0\<lparr>fsys := f0, file_ind := 0\<rparr>, file_name_return := str\<rparr>) = Inr ?s1"
    using g(1) s(4) by (simp add: sys_read_file_def)
  have "is_txt s = Inr True"
    using txt_suffix_ok [of base] typed_baseD(1) [OF base] s(2,3) by (simp add: is_txt_def name_ok_def txt_name_def)
  moreover have "n < 2 ^ 31" using dir by (simp add: current_dir_def)
  ultimately have cr: "cmd_read e s = bind (sys_write (padded c) ?s1) (say_line [])"
    using f0(1) rd record_number(1) by (simp add: cmd_read_def)
  have "padded c = c @ 0 # replicate (78 - length c) 0"
    using c(2) by (simp add: padded_def Suc_diff_le flip: replicate_Suc)
  then obtain s' q' where "cmd_read e s = Inr s'" "draws ?s1 s'" "q' < 24" "cursor s' = int (80 * Suc q')"
      "peek (length c) (80 * q') (screen s') = c"
    using print_line [of ?s1 q c "replicate (78 - length c) 0"] c s(5-7) cr by auto
  then show ?thesis using g(2,3) v f0(4) by auto
qed

end
