(* ===== verification/Shell_Invariant.thy ===== *)
theory Shell_Invariant
  imports Shell_Files
begin

text \<open>
  An invariant of the shell that every command keeps: the arrays have their sizes, the counters stay
  in their ranges, the path is a string, and the display shows what the shell's copy of the screen
  holds. \<open>keeps\<close> is the contract of an operation; its rules follow the composition of the operations.
\<close>

section \<open>The invariant\<close>

definition shell_inv :: "shell \<Rightarrow> bool" where
  "shell_inv s \<longleftrightarrow> length (screen s) = 2000 \<and> mirrors s \<and> length (cmd s) = 78 \<and> cmd_ind s \<le> cmd_len s \<and> cmd_len s \<le> 78 \<and>
     length (path s) = 51 \<and> path_len s \<le> 50 \<and> path s ! path_len s = 0 \<and>
     length (cmd1 s) = 79 \<and> length (cmd2 s) = 79 \<and> length (cmd3 s) = 79 \<and> length (file_name_return s) = 51"

definition keeps :: "(shell \<Rightarrow> shell result) \<Rightarrow> bool" where
  "keeps f \<longleftrightarrow> (\<forall>s s'. shell_inv s \<longrightarrow> f s = Inr s' \<longrightarrow> shell_inv s')"

named_theorems keeps_rules \<open>operations that keep the invariant\<close>

lemma keepsI: "(\<And>s s'. shell_inv s \<Longrightarrow> f s = Inr s' \<Longrightarrow> shell_inv s') \<Longrightarrow> keeps f"
  by (simp add: keeps_def)

lemma keepsD: "keeps f \<Longrightarrow> shell_inv s \<Longrightarrow> f s = Inr s' \<Longrightarrow> shell_inv s'"
  by (simp add: keeps_def)

lemma keeps_return: "(\<And>s. shell_inv s \<Longrightarrow> shell_inv (g s)) \<Longrightarrow> keeps (\<lambda>s. Inr (g s))"
  by (auto intro: keepsI)

lemma keeps_bind: "keeps f \<Longrightarrow> keeps g \<Longrightarrow> keeps (\<lambda>s. bind (f s) g)"
  by (rule keepsI) (auto simp: bind_eq_Inr_iff dest: keepsD)

lemma keeps_test: "(\<And>t. keeps (g t)) \<Longrightarrow> keeps (\<lambda>s. bind (h s) (\<lambda>t. g t s))"
  by (rule keepsI) (auto simp: bind_eq_Inr_iff dest: keepsD)

lemma keeps_pair:
  "(\<And>s a s'. shell_inv s \<Longrightarrow> f s = Inr (a, s') \<Longrightarrow> shell_inv s') \<Longrightarrow> (\<And>a. keeps (g a)) \<Longrightarrow>
    keeps (\<lambda>s. bind (f s) (\<lambda>(a, s). g a s))"
  by (rule keepsI) (fastforce simp: bind_eq_Inr_iff dest: keepsD)

lemma keeps_if: "keeps f \<Longrightarrow> keeps g \<Longrightarrow> keeps (\<lambda>s. if b s then f s else g s)"
  by (rule keepsI) (auto split: if_splits dest: keepsD)

lemma keeps_at: "(\<And>x. keeps (f x)) \<Longrightarrow> keeps (\<lambda>s. f (g s) s)"
  by (rule keepsI) (auto dest: keepsD)

lemma keeps_error: "keeps (\<lambda>s. Inl x)"
  by (rule keepsI) simp

lemma keeps_foreach: "(\<And>x. keeps (f x)) \<Longrightarrow> keeps (foreach f xs)"
  by (rule keepsI) (rule foreach_keeps [of shell_inv f], auto dest: keepsD)

section \<open>Output\<close>

lemma draws_inv: "draws s s' \<Longrightarrow> shell_inv s \<Longrightarrow> shell_inv s'"
  using draws_fields [of s s'] draws_mirrors [of s s'] by (simp add: shell_inv_def)

lemma inv_screen: "shell_inv s \<Longrightarrow> length (screen s) = 2000"
  by (simp add: shell_inv_def)

lemma keeps_write_char [keeps_rules]: "keeps (sys_write_char p c)"
  by (rule keepsI) (auto simp: sys_write_char_eq split: if_splits intro: draws_inv [OF put_cell_draws] inv_screen)

lemma keeps_set_cursor [keeps_rules]: "keeps (set_cursor p)"
proof (rule keepsI)
  fix s s' assume s: "shell_inv s" "set_cursor p s = Inr s'"
  then have "draws s s'" using set_cursor_total [of s p] by (auto simp: shell_inv_def)
  then show "shell_inv s'" using s(1) by (rule draws_inv)
qed

lemma keeps_scroll [keeps_rules]: "keeps scroll"
  by (rule keepsI) (auto simp: scroll_eq inv_screen intro: draws_inv [OF scrolled_draws])

lemma keeps_next_line [keeps_rules]: "keeps next_line"
  unfolding next_line_def by (rule keeps_at [OF keeps_set_cursor])

lemma keeps_put_char [keeps_rules]: "keeps (put_char c)"
  unfolding put_char_def
  by (rule keeps_bind [OF keeps_at [of "\<lambda>p. sys_write_char p c", OF keeps_write_char] keeps_at [OF keeps_set_cursor]])

lemma keeps_sys_write [keeps_rules]: "keeps (sys_write b)"
proof (rule keepsI)
  show "shell_inv s \<Longrightarrow> sys_write b s = Inr s' \<Longrightarrow> shell_inv s'" for s s'
  proof (induction b arbitrary: s)
    case (Cons c b)
    note k = keepsD [OF keeps_next_line Cons.prems(1)] keepsD [OF keeps_put_char Cons.prems(1)]
      keepsD [OF keeps_foreach [OF keeps_put_char] Cons.prems(1)]
    show ?case
      using Cons.prems Cons.IH k by (fastforce simp: bind_eq_Inr_iff split: if_splits)
  qed simp
qed

lemma keeps_say [keeps_rules]: "keeps (say t)" "keeps (say_line t)"
  unfolding say_def say_line_def by (rule keeps_sys_write)+

lemma keeps_clear [keeps_rules]: "keeps clear_screen" "keeps (clear_column c)"
  unfolding clear_screen_def clear_column_def clear_line_def by (intro keeps_foreach keeps_write_char)+

lemma keeps_say_about [keeps_rules]: "keeps (say_about t)"
  unfolding say_about_def by (intro keeps_bind keeps_at [OF keeps_sys_write] keeps_say)

section \<open>Files\<close>

lemma inv_disk: "shell_inv s \<Longrightarrow> shell_inv (s\<lparr>sdisk := d\<rparr>)"
  by (simp add: shell_inv_def mirrors_def)

lemma inv_system: "shell_inv s \<Longrightarrow> shell_inv (s\<lparr>ssys := y\<rparr>)"
  by (simp add: shell_inv_def mirrors_def)

lemma inv_name: "shell_inv s \<Longrightarrow> copy_in b (file_name_return s) = Inr str \<Longrightarrow> shell_inv (s\<lparr>sdisk := d, file_name_return := str\<rparr>)"
  by (auto simp: shell_inv_def mirrors_def copy_in_def split: if_splits)

lemma ind_loop_inv:
  "ind_loop e name found s = Some r \<Longrightarrow> shell_inv s \<Longrightarrow> r = Inr (ind, s') \<Longrightarrow> shell_inv s'"
proof (induction arbitrary: ind s' rule: ind_loop.raw_induct [rotated, consumes 1, case_names step])
  case (step loop e name found s r)
  show ?case
    using step(2-4) step(1) inv_name [OF step(3)]
    by (fastforce simp: Let_def split: option.splits sum.splits prod.splits if_splits)
qed

lemma lookup_inv: "shell_inv s \<Longrightarrow> ind_of_file_in_current_directory e name s = Inr (ind, s') \<Longrightarrow> shell_inv s'"
  using ind_loop_inv [of e name "- 1" s] by (auto simp: ind_of_file_in_current_directory_def of_loop_eq_Inr_iff)

lemma ls_loop_inv: "ls_loop e s = Some r \<Longrightarrow> shell_inv s \<Longrightarrow> r = Inr s' \<Longrightarrow> shell_inv s'"
proof (induction arbitrary: s' rule: ls_loop.raw_induct [rotated, consumes 1, case_names step])
  case (step loop e s r)
  have "keeps (\<lambda>s. bind (say ''  '' s) (\<lambda>s. sys_write (file_name_return s) s))"
    by (intro keeps_bind keeps_say keeps_at [OF keeps_sys_write])
  note k = keepsD [OF this inv_name [OF step(3)]]
  show ?case
    using step(2-4) step(1) k inv_name [OF step(3)]
    by (fastforce simp: Let_def split: option.splits sum.splits prod.splits if_splits)
qed

lemma keeps_ls [keeps_rules]: "keeps (sys_ls e)"
  unfolding sys_ls_def
  by (intro keeps_bind keeps_say) (auto intro!: keepsI simp: of_loop_eq_Inr_iff dest: ls_loop_inv)

lemma keeps_disk [keeps_rules]: "keeps sys_mkdir" "keeps (sys_cd e ind)" "keeps (sys_rm ind)" "keeps sys_write_file"
  unfolding sys_mkdir_def sys_cd_def sys_rm_def sys_write_file_def
  by (rule keeps_test, rule keeps_return, erule inv_disk)+

lemma keeps_read [keeps_rules]: "keeps (sys_read_file e ind)"
  by (rule keepsI) (auto simp: sys_read_file_def copy_in_def bind_eq_Inr_iff shell_inv_def mirrors_def split: if_splits)

lemma keeps_requests [keeps_rules]: "keeps (shell_start ims i)" "keeps (shell_stop i)"
  unfolding shell_start_def shell_stop_def by (rule keeps_test, rule keeps_return, erule inv_system)+

section \<open>The path\<close>

lemma path_up_le: "path_up p n \<le> n"
  by (induction p n rule: path_up.induct) (subst path_up.simps, auto intro: le_trans)

lemma keeps_leave_path: "keeps leave_path"
proof (rule keepsI)
  fix s s' assume "shell_inv s" "leave_path s = Inr s'"
  then show "shell_inv s'"
    using path_up_le [of "path s" "path_len s"]
    by (auto simp: leave_path_def array_set_def shell_inv_def mirrors_def bind_eq_Inr_iff Let_def split: if_splits)
qed

lemma push_frame: "foreach (\<lambda>i s. push_path (cmd2 s ! i) s) xs s = Inr s' \<Longrightarrow>
  \<exists>p n. s' = s\<lparr>path := p, path_len := n\<rparr> \<and> length p = length (path s)"
proof (induction xs arbitrary: s)
  case Nil
  then show ?case by (intro exI [of _ "path s"] exI [of _ "path_len s"]) simp
next
  case (Cons i xs)
  then obtain t where t: "push_path (cmd2 s ! i) s = Inr t" "foreach (\<lambda>i s. push_path (cmd2 s ! i) s) xs t = Inr s'"
    by (auto simp: bind_eq_Inr_iff)
  then obtain q m where "t = s\<lparr>path := q, path_len := m\<rparr>" "length q = length (path s)"
    by (auto simp: push_path_def array_set_def bind_eq_Inr_iff split: if_splits)
  then show ?case using Cons.IH [OF t(2)] by auto
qed

lemma keeps_enter_path: "keeps enter_path"
proof (rule keepsI)
  fix s s' assume s: "shell_inv s" "enter_path s = Inr s'"
  then obtain t u p where t: "push_path 0x5C s = Inr t" "foreach (\<lambda>i s. push_path (cmd2 s ! i) s) [0..<cmd2_len t] t = Inr u"
      "array_set (path u) (path_len u) 0 = Inr p" "s' = u\<lparr>path := p\<rparr>"
    by (auto simp: enter_path_def bind_eq_Inr_iff)
  obtain q n where u: "u = t\<lparr>path := q, path_len := n\<rparr>" "length q = length (path t)" using push_frame [OF t(2)] by blast
  have "s' = s\<lparr>path := p, path_len := n\<rparr>" "length p = 51" "n < 51" "p ! n = 0"
    using t u s(1) by (auto simp: push_path_def array_set_def bind_eq_Inr_iff shell_inv_def split: if_splits)
  then show "shell_inv s'" using s(1) by (simp add: shell_inv_def mirrors_def)
qed

section \<open>Commands\<close>

lemmas keeps_compose = keeps_test keeps_if keeps_rules keeps_pair [OF lookup_inv]

lemma keeps_self: "keeps Inr"
  by (rule keepsI) simp

lemma keeps_mkdir: "keeps (cmd_mkdir e)"
  unfolding cmd_mkdir_def by (intro keeps_compose)

lemma keeps_cd: "keeps (cmd_cd e)"
  unfolding cmd_cd_def
  by (intro keeps_compose keeps_bind keeps_leave_path keeps_enter_path keeps_self)

lemma keeps_rm: "keeps (cmd_rm e)"
  unfolding cmd_rm_def by (intro keeps_compose)

lemma keeps_write: "keeps (cmd_write e)"
  unfolding cmd_write_def by (intro keeps_compose keeps_bind keeps_self)

lemma keeps_cmd_read: "keeps (cmd_read e)"
  unfolding cmd_read_def by (intro keeps_compose keeps_bind keeps_at [OF keeps_sys_write])

lemma inv_flags: "shell_inv s \<Longrightarrow> shell_inv (s\<lparr>process0_running := b\<rparr>)" "shell_inv s \<Longrightarrow> shell_inv (s\<lparr>process1_running := b\<rparr>)"
  by (simp_all add: shell_inv_def mirrors_def)

lemma keeps_after: "keeps f \<Longrightarrow> (\<And>s. shell_inv s \<Longrightarrow> shell_inv (g s)) \<Longrightarrow> keeps (\<lambda>s. f (g s))"
  by (rule keepsI) (auto dest: keepsD)

lemma keeps_start: "keeps (cmd_start0 ims)" "keeps (cmd_start1 ims)"
  unfolding cmd_start0_def cmd_start1_def
  by (rule keeps_if, rule keeps_rules, rule keeps_after, rule keeps_rules, erule inv_flags)+

lemma keeps_stop: "keeps cmd_stop0" "keeps cmd_stop1"
  unfolding cmd_stop0_def cmd_stop1_def
  by (rule keeps_if, rule keeps_rules, rule keeps_bind, rule keeps_after, rule keeps_rules, erule inv_flags, rule keeps_rules)+

lemma keeps_run_command: "keeps (run_command ims e)"
  unfolding run_command_def Let_def
  by (intro keeps_if keeps_self keeps_rules keeps_bind keeps_mkdir keeps_cd keeps_rm keeps_start keeps_stop keeps_write keeps_cmd_read)

lemma parse_inv: "shell_inv s \<Longrightarrow> shell_inv (parse_cmd s)"
proof -
  assume s: "shell_inv s"
  obtain w1 w2 w3 where w: "words3 (take (cmd_len s) (cmd s)) = (w1, w2, w3)" by (cases "words3 (take (cmd_len s) (cmd s))")
  have "length w1 \<le> 78" "length w2 \<le> 78" "length w3 \<le> 78"
    using words3_length [OF w] s by (auto simp: shell_inv_def)
  then show ?thesis
    using parse_cmd_eq [of s w1 w2 w3] w s by (simp add: shell_inv_def mirrors_def padded_def)
qed

lemma keeps_process_cmd: "keeps (process_cmd ims e)"
  unfolding process_cmd_def
  by (rule keeps_bind, rule keeps_after [OF keeps_run_command parse_inv], assumption, rule keeps_return)
    (simp add: shell_inv_def mirrors_def)

section \<open>Keys\<close>

lemma inv_put_cell: "shell_inv s \<Longrightarrow> k < 2000 \<Longrightarrow> shell_inv (put_cell k c s)"
  using draws_inv [OF put_cell_draws] inv_screen by blast

lemma keeps_type_char: "keeps (type_char c)"
proof (rule keepsI)
  fix s s' assume s: "shell_inv s" "type_char c s = Inr s'"
  define t where "t = (if cmd_ind s < cmd_len s
    then s\<lparr>cmd := (cmd s)[cmd_ind s := c], cmd_ind := cmd_ind s + 1, cursor := cursor s + 1\<rparr>
    else s\<lparr>cmd_ind := cmd_ind s + 1, cmd := (cmd s)[cmd_len s := c], cmd_len := cmd_len s + 1, cursor := cursor s + 1\<rparr>)"
  show "shell_inv s'"
  proof (cases "cmd_ind s < cmd_len s \<or> cmd_len s < 78")
    case True
    then have "sys_write_char (cursor s) c t = Inr s'"
      using s(2) by (auto simp: type_char_def t_def Let_def split: if_splits)
    moreover have "shell_inv t" using True s(1) by (auto simp: t_def shell_inv_def mirrors_def)
    ultimately show ?thesis using keepsD [OF keeps_write_char] by blast
  qed (use s in \<open>simp add: type_char_def Let_def\<close>)
qed

lemma keeps_backspace: "keeps backspace"
proof (rule keepsI)
  fix s s' assume s: "shell_inv s" "backspace s = Inr s'"
  define t where "t = s\<lparr>cmd_len := (if cmd_ind s = cmd_len s then cmd_len s - 1 else cmd_len s), cmd_ind := cmd_ind s - 1,
    cursor := cursor s - 1\<rparr>"
  show "shell_inv s'"
  proof (cases "cmd_ind s = 0")
    case False
    have c: "cursor t = cursor s - 1" by (simp add: t_def)
    have "(let s = if cmd_ind s = cmd_len s then s\<lparr>cmd_len := cmd_len s - 1\<rparr> else s in s\<lparr>cmd_ind := cmd_ind s - 1, cursor := cursor s - 1\<rparr>) = t"
      by (simp add: t_def Let_def)
    then obtain u where u: "sys_write_char (cursor t) 0 t = Inr u"
        "s' = u\<lparr>cmd := (cmd u)[cmd_ind u := 0x20], screen := (screen u)[nat (cursor u) := 0x20]\<rparr>"
      using s(2) False by (auto simp: backspace_def Let_def bind_eq_Inr_iff)
    have t: "shell_inv t" using s(1) False by (auto simp: t_def shell_inv_def mirrors_def)
    have "0 \<le> cursor t" "cursor t < 2000" "u = put_cell (nat (cursor t)) 0 t"
      using u(1) by (auto simp: sys_write_char_eq split: if_splits)
    then show ?thesis
      using t u(2) by (auto simp: shell_inv_def mirrors_def put_cell_def nth_list_update looks_like_def)
  qed (use s in \<open>simp add: backspace_def\<close>)
qed

lemma keeps_prompt: "keeps prompt"
  unfolding prompt_def by (intro keeps_bind keeps_at [OF keeps_sys_write] keeps_say)

lemma inv_sys_cursor: "shell_inv s \<Longrightarrow> shell_inv (sys_cursor s)"
  by (simp add: shell_inv_def sys_cursor_def Let_def mirrors_def outb_def)

lemma inv_line: "shell_inv s \<Longrightarrow> i \<le> cmd_len s \<Longrightarrow> shell_inv (s\<lparr>cmd_ind := i\<rparr>)"
  by (simp add: shell_inv_def mirrors_def)

lemma handle_char_inv:
  assumes "shell_inv s" "handle_char ims e c s = Inr (brk, s')"
  shows "shell_inv s'"
proof -
  have len: "cmd_ind s \<le> cmd_len s" using assms(1) by (simp add: shell_inv_def)
  have up: "keeps (\<lambda>s. bind (scroll s) (\<lambda>s. set_cursor (cursor s - 80) s))"
    by (intro keeps_bind keeps_rules keeps_at [OF keeps_set_cursor])
  have enter: "keeps (\<lambda>s. bind (next_line s) (process_cmd ims e))"
    by (intro keeps_bind keeps_rules keeps_process_cmd)
  have left: "set_cursor p (s\<lparr>cmd_ind := cmd_ind s - Suc 0\<rparr>) = Inr s' \<Longrightarrow> shell_inv s'" for p
    by (rule keepsD [OF keeps_set_cursor inv_line [OF assms(1)]]) (use len in auto)
  have right: "cmd_len s \<noteq> cmd_ind s \<Longrightarrow> set_cursor p (s\<lparr>cmd_ind := Suc (cmd_ind s)\<rparr>) = Inr s' \<Longrightarrow> shell_inv s'" for p
    by (rule keepsD [OF keeps_set_cursor inv_line [OF assms(1)]]) (use len in auto)
  note k = keepsD [OF keeps_backspace assms(1)] keepsD [OF up assms(1)] keepsD [OF enter assms(1)]
    keepsD [OF keeps_foreach [OF keeps_type_char] assms(1)] keepsD [OF keeps_type_char assms(1)]
    left right
  consider "c = 0x0E" | "c = 1" | "c = 2" | "c = 3" | "c = 0x09" | "c = 0x0A"
    | "c \<notin> {0x0E, 1, 2, 3, 0x09, 0x0A}" by blast
  then show ?thesis
    using assms len k by cases (auto simp: handle_char_def bind_eq_Inr_iff Let_def split: if_splits)
qed

lemma shell_loop_inv: "shell_inv s \<Longrightarrow> shell_loop ims e cs s = Inr s' \<Longrightarrow> shell_inv s'"
proof (induction cs arbitrary: s)
  case (Cons c cs)
  then obtain brk t u where u: "handle_char ims e c (sys_cursor s) = Inr (brk, t)"
      "(if brk then prompt t else Inr t) = Inr u" "shell_loop ims e cs u = Inr s'"
    by (auto simp: bind_eq_Inr_iff)
  have "shell_inv t" by (rule handle_char_inv [OF inv_sys_cursor [OF Cons.prems(1)] u(1)])
  then have "shell_inv u" using u(2) keepsD [OF keeps_prompt] by (cases brk) auto
  then show ?case using u(3) by (rule Cons.IH)
qed (auto intro: inv_sys_cursor)

end
