(* ===== verification/Shell_Correct.thy ===== *)
theory Shell_Correct
  imports Shell_Invariant
begin

text \<open>
  The properties of the shell: the editor, the parser and the comparison of words against their
  references, and whole command lines typed at the prompt.
\<close>

section \<open>Command lines\<close>

lemma takeWhile_word: "0x20 \<notin> set w \<Longrightarrow> takeWhile (\<lambda>c. c \<noteq> 0x20) (w @ 0x20 # r) = w \<and> dropWhile (\<lambda>c. c \<noteq> 0x20) (w @ 0x20 # r) = 0x20 # r"
  for w :: bytes
  by (induction w) auto

lemma takeWhile_last: "0x20 \<notin> set w \<Longrightarrow> takeWhile (\<lambda>c. c \<noteq> 0x20) w = w \<and> dropWhile (\<lambda>c. c \<noteq> 0x20) w = []"
  for w :: bytes
  by (induction w) auto

lemma dropWhile_word: "w = [] \<or> hd w \<noteq> 0x20 \<Longrightarrow> dropWhile (\<lambda>c. c = 0x20) (w @ r) = (if w = [] then dropWhile (\<lambda>c. c = 0x20) r else w @ r)"
  for w :: bytes
  by (cases w) auto

lemma words3_two:
  assumes "u \<noteq> []" "0x20 \<notin> set u" "w \<noteq> []" "0x20 \<notin> set w"
  shows "words3 (u @ 0x20 # w) = (u, w, [])"
proof -
  have "hd u \<noteq> 0x20" "hd w \<noteq> 0x20" using assms by (metis hd_in_set)+
  then show ?thesis
    using assms takeWhile_word [OF assms(2), of w] takeWhile_last [OF assms(4)] dropWhile_word [of u "0x20 # w"] dropWhile_word [of w "[]"]
    by (simp add: words3_def Let_def del: takeWhile_eq_all_conv dropWhile_eq_Nil_conv)
qed

lemma words3_three:
  assumes "u \<noteq> []" "0x20 \<notin> set u" "w \<noteq> []" "0x20 \<notin> set w" "c = [] \<or> hd c \<noteq> 0x20"
  shows "words3 (u @ 0x20 # w @ 0x20 # c) = (u, w, c)"
proof -
  have "hd u \<noteq> 0x20" "hd w \<noteq> 0x20" using assms by (metis hd_in_set)+
  then show ?thesis
    using assms takeWhile_word [OF assms(2), of "w @ 0x20 # c"] takeWhile_word [OF assms(4), of c]
      dropWhile_word [of u "0x20 # w @ 0x20 # c"] dropWhile_word [of w "0x20 # c"] dropWhile_word [of c "[]"]
    by (simp add: words3_def Let_def split: if_splits)
qed

lemma on_screen_row:
  assumes "on_screen s" "cursor s mod 80 = 0"
  obtains q where "q \<le> 24" "cursor s = int (80 * q)"
proof
  have c: "0 \<le> cursor s" "cursor s < 2000" using assms(1) by (simp_all add: on_screen_def)
  show "nat (cursor s div 80) \<le> 24" using c by linarith
  have "cursor s = 80 * (cursor s div 80)" using mult_div_mod_eq [of 80 "cursor s"] unfolding assms(2) by simp
  moreover have "80 * (cursor s div 80) = int (80 * nat (cursor s div 80))" using c(1) by simp
  ultimately show "cursor s = int (80 * nat (cursor s div 80))" by (rule trans)
qed

text \<open>The shell at the prompt, in the root directory: an empty line and an empty path.\<close>

definition at_prompt :: "nat \<Rightarrow> shell \<Rightarrow> bool" where
  "at_prompt b s \<longleftrightarrow> editing b s \<and> line_of s = ([], 0) \<and> mirrors s \<and> path s ! 0 = 0 \<and> length (path s) = 51 \<and>
     length (cmd1 s) = 79 \<and> length (cmd2 s) = 79 \<and> length (cmd3 s) = 79 \<and> length (file_name_return s) = 51"

text \<open>A command that leaves the path alone and ends in column 0 is followed by a prompt.\<close>

lemma prompt_after:
  assumes "length (screen s) = 2000" "cursor s = int (80 * q)" "q \<le> 24" "mirrors s" "path s ! 0 = 0" "length (path s) = 51"
    "length (cmd s) = 78" "length (cmd1 s) = 79" "length (cmd2 s) = 79" "length (cmd3 s) = 79" "length (file_name_return s) = 51"
  shows "\<exists>s'. prompt (s\<lparr>cmd_len := 0, cmd_ind := 0\<rparr>) = Inr s' \<and> at_prompt (80 * q + 2) s' \<and> draws (s\<lparr>cmd_len := 0, cmd_ind := 0\<rparr>) s' \<and>
    screen s' = poke (80 * q) [0x3E, 0x20] (screen s)"
proof -
  let ?s = "s\<lparr>cmd_len := 0, cmd_ind := 0\<rparr>"
  obtain p where p: "path s = 0 # p" using assms(5,6) by (cases "path s") auto
  obtain s' where s': "prompt ?s = Inr s'" "draws ?s s'" "editing (80 * q + 2) s'" "line_of s' = ([], 0)"
      "screen s' = poke (80 * q) [0x3E, 0x20] (screen s)"
    using prompt_line [of ?s q p] assms(1-3,7) p by auto
  have "mirrors s'" using draws_mirrors [OF s'(2)] assms(4) by (simp add: mirrors_def)
  then have "at_prompt (80 * q + 2) s'"
    using s'(3,4) draws_fields [OF s'(2)] assms(5,6,8-11) by (simp add: at_prompt_def)
  then show ?thesis using s' by blast
qed

lemma length_padded: "length w \<le> 78 \<Longrightarrow> length (padded w) = 79"
  by (simp add: padded_def)

text \<open>The shell about to run a command whose words are \<open>w1\<close>, \<open>w2\<close> and \<open>w3\<close>, at the start of line \<open>q\<close>.\<close>

definition ready :: "nat \<Rightarrow> bytes \<Rightarrow> bytes \<Rightarrow> bytes \<Rightarrow> shell \<Rightarrow> shell \<Rightarrow> bool" where
  "ready q w1 w2 w3 s s' \<longleftrightarrow> q \<le> 24 \<and> cursor s' = int (80 * q) \<and> length (screen s') = 2000 \<and> length (cmd s') = 78 \<and> mirrors s' \<and>
     cmd1 s' = padded w1 \<and> cmd1_len s' = length w1 \<and> cmd2 s' = padded w2 \<and> cmd2_len s' = length w2 \<and>
     cmd3 s' = padded w3 \<and> cmd3_len s' = length w3 \<and> length (file_name_return s') = 51 \<and> path s' ! 0 = 0 \<and> length (path s') = 51 \<and>
     process0_running s' = process0_running s \<and> process1_running s' = process1_running s \<and> sdisk s' = sdisk s \<and> ssys s' = ssys s"

lemma run_typed:
  assumes "at_prompt b s" "list_all plain t" "length t \<le> 78" "words3 t = (w1, w2, w3)"
  shows "\<exists>s1 q. ready q w1 w2 w3 s s1 \<and>
    (\<forall>rest. shell_loop ims e (t @ 0x0A # rest) s = bind (run_command ims e s1) (\<lambda>s2.
      bind (prompt (s2\<lparr>cmd_len := 0, cmd_ind := 0\<rparr>)) (shell_loop ims e rest)))"
proof -
  have p: "editing b s" "line_of s = ([], 0)" "length (cmd1 s) = 79" "length (cmd2 s) = 79" "length (cmd3 s) = 79"
    using assms(1) by (simp_all add: at_prompt_def)
  obtain s1 where s1: "on_screen s1" "cursor s1 mod 80 = 0" "edits (s\<lparr>cmd1 := padded w1, cmd2 := padded w2, cmd3 := padded w3\<rparr>) s1"
      "length (cmd s1) = 78" "cmd1_len s1 = length w1" "cmd2_len s1 = length w2" "cmd3_len s1 = length w3"
      "\<forall>rest. shell_loop ims e (t @ 0x0A # rest) s = bind (run_command ims e s1) (\<lambda>s2.
        bind (prompt (s2\<lparr>cmd_len := 0, cmd_ind := 0\<rparr>)) (shell_loop ims e rest))"
    using run_line [OF p(1,2) assms(2-4) p(3-5), of ims e] by (elim exE conjE) (rule that)
  obtain q where "q \<le> 24" "cursor s1 = int (80 * q)" using on_screen_row [OF s1(1,2)] by blast
  then have "ready q w1 w2 w3 s s1"
    using s1(1,3-7) assms(1) by (simp add: ready_def at_prompt_def edits_def same_world_def on_screen_def mirrors_def)
  then show ?thesis using s1(8) by blast
qed

text \<open>A command that leaves these alone is followed by a prompt.\<close>

lemma prompt_ready:
  assumes "ready q w1 w2 w3 s r1" "length w1 \<le> 78" "length w2 \<le> 78" "length w3 \<le> 78" "length c \<le> 78"
    and "draws (r1\<lparr>sdisk := d, file_name_return := str, cmd3 := padded c\<rparr>) r2" "length str = 51" "cursor r2 = int (80 * k)" "k \<le> 24"
  shows "\<exists>s'. prompt (r2\<lparr>cmd_len := 0, cmd_ind := 0\<rparr>) = Inr s' \<and> at_prompt (80 * k + 2) s' \<and> sdisk s' = d \<and>
    screen s' = poke (80 * k) [0x3E, 0x20] (screen r2)"
proof -
  have "mirrors r2" using draws_mirrors [OF assms(6)] assms(1) by (simp add: ready_def mirrors_def)
  then obtain s' where s': "prompt (r2\<lparr>cmd_len := 0, cmd_ind := 0\<rparr>) = Inr s'" "at_prompt (80 * k + 2) s'"
      "draws (r2\<lparr>cmd_len := 0, cmd_ind := 0\<rparr>) s'" "screen s' = poke (80 * k) [0x3E, 0x20] (screen r2)"
    using prompt_after [of r2 k] draws_fields [OF assms(6)] assms by (auto simp: ready_def length_padded)
  have "sdisk s' = d" using draws_fields(15) [OF s'(3)] draws_fields(15) [OF assms(6)] by simp
  then show ?thesis using s' by blast
qed

section \<open>Writing and reading a file\<close>

lemma text_file_words:
  assumes "typed_base base" "list_all (\<lambda>x. plain x \<and> x \<noteq> 0) c" "length (txt_name base) + length c \<le> 71"
  shows "txt_name base \<noteq> []" "list_all plain (txt_name base)" "list_all printable c" "list_all plain c" "length c \<le> 78"
  using assms by (auto simp: txt_name_def typed_base_def plain_def list_all_iff printable_def)

lemma write_line:
  assumes "at_prompt b s" "length (ename e) = 13"
    and "room_for_file (sdisk s) cs n (length c)" "\<And>j. j < n \<Longrightarrow> \<not> matches (padded (txt_name base)) (dir_list (sdisk s) cs) j"
    and "typed_base base" "list_all (\<lambda>x. plain x \<and> x \<noteq> 0) c" "c = [] \<or> hd c \<noteq> 0x20" "length (txt_name base) + length c \<le> 71"
  shows "\<exists>t q f d fs. (\<forall>rest. shell_loop ims e ((ascii ''write'' @ 0x20 # txt_name base @ 0x20 # c) @ 0x0A # rest) s =
      shell_loop ims e rest t) \<and> at_prompt (80 * q + 2) t \<and> sdisk t = (sdisk s)\<lparr>fsys := f, file_ind := 0\<rparr> \<and>
    fs_inv (infoFat (sdisk s)) f \<and>
    file_stored (infoFat (sdisk s)) (unat (currentCluster (sdisk s)) # cs) n (file_entry (stored_name base) d (length c)) c d fs
      (vol (infoFat (sdisk s)) (fsys (sdisk s))) (vol (infoFat (sdisk s)) f)"
proof -
  let ?w = "txt_name base" and ?d = "sdisk s"
  let ?line = "ascii ''write'' @ 0x20 # ?w @ 0x20 # c"
  note base = typed_baseD [OF assms(5)] and w = text_file_words [OF assms(5,6,8)]
  have words: "words3 ?line = (ascii ''write'', ?w, c)"
    using words3_three [of "ascii ''write''" ?w c] w(1) base(5) assms(7) by (simp add: ascii_def)
  have line: "list_all plain ?line" "length ?line \<le> 78" using w(2,4) assms(8) base(2) by (simp_all add: ascii_def plain_def)
  obtain s1 q where s1: "ready q (ascii ''write'') ?w c s s1"
      "\<And>rest. shell_loop ims e (?line @ 0x0A # rest) s = bind (run_command ims e s1) (\<lambda>s2.
        bind (prompt (s2\<lparr>cmd_len := 0, cmd_ind := 0\<rparr>)) (shell_loop ims e rest))"
    using run_typed [OF assms(1) line words, of ims e] by blast
  have new: "last_match (padded ?w) (dir_list ?d cs) 0 n (- 1) = - 1"
    using assms(4) by (simp add: last_match_def filter_empty_conv)
  obtain f d fs str where s2: "cmd_write e s1 = Inr (s1\<lparr>sdisk := ?d\<lparr>fsys := f, file_ind := 0\<rparr>, file_name_return := str\<rparr>)"
      "length str = 51" "fs_inv (infoFat ?d) f"
      "file_stored (infoFat ?d) (unat (currentCluster ?d) # cs) n (file_entry (stored_name base) d (length c)) c d fs
        (vol (infoFat ?d) (fsys ?d)) (vol (infoFat ?d) f)"
    using cmd_write_spec [of s1 cs n c base e] assms(2,3,5) w(5) new s1(1) by (auto simp: ready_def)
  let ?s2 = "s1\<lparr>sdisk := ?d\<lparr>fsys := f, file_ind := 0\<rparr>, file_name_return := str, cmd3 := padded c\<rparr>"
  have r2: "run_command ims e s1 = Inr ?s2" "draws ?s2 ?s2"
    using run_write [of s1 ims e] s2(1) s1(1) by (simp_all add: ready_def ascii_def draws_refl)
  obtain s3 where s3: "prompt (?s2\<lparr>cmd_len := 0, cmd_ind := 0\<rparr>) = Inr s3" "at_prompt (80 * q + 2) s3"
      "sdisk s3 = ?d\<lparr>fsys := f, file_ind := 0\<rparr>"
    using prompt_ready [OF s1(1) _ _ w(5,5) r2(2) s2(2)] s1(1) base(2) by (auto simp: ready_def ascii_def)
  have "shell_loop ims e (?line @ 0x0A # rest) s = shell_loop ims e rest s3" for rest
    using s1(2) [of rest] r2(1) s3(1) by simp
  then show ?thesis using s3(2,3) s2(3,4) by blast
qed

lemma read_line:
  assumes "at_prompt b s" "sdisk s = d0\<lparr>fsys := f, file_ind := 0\<rparr>" "length (ename e) = 13" "room_for_file d0 cs n (length c)"
    and "typed_base base" "list_all (\<lambda>x. plain x \<and> x \<noteq> 0) c" "length (txt_name base) + length c \<le> 71" "fs_inv (infoFat d0) f"
    and "file_stored (infoFat d0) (unat (currentCluster d0) # cs) n (file_entry (stored_name base) d (length c)) c d fs
      (vol (infoFat d0) (fsys d0)) (vol (infoFat d0) f)"
  shows "\<exists>s' k. shell_loop ims e ((ascii ''read'' @ 0x20 # txt_name base) @ [0x0A]) s = Inr s' \<and>
    k < 24 \<and> peek (length c) (80 * k) (screen s') = c \<and> cursor s' = int (80 * Suc k + 2) \<and> mirrors s'"
proof -
  let ?w = "txt_name base"
  let ?line = "ascii ''read'' @ 0x20 # ?w"
  note base = typed_baseD [OF assms(5)] and w = text_file_words [OF assms(5-7)]
  have words: "words3 ?line = (ascii ''read'', ?w, [])"
    using words3_two [of "ascii ''read''" ?w] w(1) base(5) by (simp add: ascii_def)
  have line: "list_all plain ?line" "length ?line \<le> 78" using w(2) base(2) by (simp_all add: ascii_def plain_def)
  obtain s4 q4 where s4: "ready q4 (ascii ''read'') ?w [] s s4"
      "\<And>rest. shell_loop ims e (?line @ 0x0A # rest) s = bind (run_command ims e s4) (\<lambda>s5.
        bind (prompt (s5\<lparr>cmd_len := 0, cmd_ind := 0\<rparr>)) (shell_loop ims e rest))"
    using run_typed [OF assms(1) line words, of ims e] by blast
  obtain s5 k g str' where s5: "cmd_read e s4 = Inr s5" "k < 24" "cursor s5 = int (80 * Suc k)" "peek (length c) (80 * k) (screen s5) = c"
      "draws (s4\<lparr>sdisk := d0\<lparr>fsys := g, file_ind := 0\<rparr>, file_name_return := str', cmd3 := padded c\<rparr>) s5" "length str' = 51"
    using cmd_read_spec [OF assms(4,5) w(3,5) assms(9,8,3), of s4 q4] s4(1) assms(2) by (auto simp: ready_def)
  have r5: "run_command ims e s4 = Inr s5" using run_read [of s4 ims e] s5(1) s4(1) by (simp add: ready_def ascii_def)
  obtain s6 where s6: "prompt (s5\<lparr>cmd_len := 0, cmd_ind := 0\<rparr>) = Inr s6" "at_prompt (80 * Suc k + 2) s6"
      "screen s6 = poke (80 * Suc k) [0x3E, 0x20] (screen s5)"
    using prompt_ready [OF s4(1) _ _ _ w(5) s5(5,6,3)] s5(2) base(2) by (auto simp: ascii_def)
  have "peek (length c) (80 * k) (screen (sys_cursor s6)) = c"
    using s5(2,4) s6(3) assms(7) draws_fields(18) [OF s5(5)] by (simp add: sys_cursor_def Let_def peek_poke_other txt_name_def)
  moreover have "shell_loop ims e (?line @ [0x0A]) s = Inr (sys_cursor s6)" using s4(2) [of "[]"] r5 s6(1) by simp
  ultimately show ?thesis
    using s5(2) s6(2) by (intro exI [of _ "sys_cursor s6"] exI [of _ k])
      (simp add: at_prompt_def editing_def line_of_def sys_cursor_def Let_def mirrors_def outb_def)
qed

section \<open>Starting and stopping programs\<close>

text \<open>The shell's two flags say which of the processes 2 and 3 run.\<close>

definition flags_match :: "shell \<Rightarrow> bool" where
  "flags_match s \<longleftrightarrow>
     pstate (procs (ssys s) ! 2) = (if process0_running s then P_RUNNABLE else P_FREE) \<and>
     pstate (procs (ssys s) ! 3) = (if process1_running s then P_RUNNABLE else P_FREE)"

definition shell_system :: "layout \<Rightarrow> shell \<Rightarrow> bool" where
  "shell_system L s \<longleftrightarrow> system_ok L (ssys s) \<and> flags_match s \<and> on_screen s"

lemma shell_system_draws:
  assumes "shell_system L s" "draws s s'" "on_screen s'"
  shows "shell_system L s'"
  using assms draws_fields [OF assms(2)] by (simp add: shell_system_def flags_match_def)

lemma say_total:
  assumes "shell_system L s" "0 \<notin> set (ascii t)"
  shows "\<exists>s'. say_line t s = Inr s' \<and> shell_system L s'"
  using sys_write_total [of s "ascii t @ [0x0A, 0]"] shell_system_draws [OF assms(1)] assms(1)
  by (auto simp: say_line_def shell_system_def)

lemma clear_column_total:
  assumes "shell_system L s" "0 \<le> c" "c < 80"
  shows "\<exists>s'. clear_column c s = Inr s' \<and> shell_system L s'"
  unfolding clear_column_def
proof (rule foreach_total)
  fix i s assume i: "i \<in> set [0..24 :: int]" and s: "shell_system L s"
  then have p: "0 \<le> 80 * i + c" "80 * i + c < 2000" using assms(2,3) by auto
  let ?s = "put_cell (nat (80 * i + c)) 0x20 s"
  have "draws s ?s" using p s by (intro put_cell_draws) (auto simp: shell_system_def on_screen_def)
  moreover have "on_screen ?s" using s by (simp add: on_screen_def put_cell_def shell_system_def)
  ultimately show "\<exists>s'. sys_write_char (80 * i + c) 0x20 s = Inr s' \<and> shell_system L s'"
    using p shell_system_draws [OF s] by (simp add: sys_write_char_eq)
qed (rule assms(1))

text \<open>Process \<open>i\<close> is about to run the \<open>n\<close> bytes that stood at address \<open>a\<close>, from the first one.\<close>

definition starts_program :: "nat \<Rightarrow> u64 \<Rightarrow> nat \<Rightarrow> system \<Rightarrow> system \<Rightarrow> bool" where
  "starts_program i a n y y' \<longleftrightarrow>
     mem_bytes (memory (vmem y')) (of_nat (proc_base i)) n = mem_bytes (memory (vmem y)) a n \<and>
     reg_rip (reg (procs y' ! i)) = of_nat (proc_base i) \<and> runnable (procs y') i"

lemma shell_start_total:
  assumes "layout_ok L" "images_ok L ims len" "system_ok L (ssys s)" "i = 2 \<or> i = 3" "pstate (procs (ssys s) ! unat i) = P_FREE"
  shows "\<exists>y. shell_start ims i s = Inr (s\<lparr>ssys := y\<rparr>) \<and> system_ok L y \<and>
    (\<forall>j. pstate (procs y ! j) = (if j = unat i then P_RUNNABLE else pstate (procs (ssys s) ! j))) \<and>
    starts_program (unat i) (image_begin (ims ! unat i)) (len (unat i)) (ssys s) y"
proof -
  let ?i = "unat i"
  have i: "?i < 4" using assms(4) by auto
  then have im: "image_ok L (ims ! ?i) (len ?i)" "?i < 8" using assms(2) by (simp_all add: images_ok_def)
  have l: "?i < length (procs (ssys s))" using assms(3) im(2) by (simp add: system_ok_def procs_ok_def)
  obtain y where y: "load_process ims ?i ?i (ssys s) = Inr y" "system_ok L y" "loaded L ?i (ims ! ?i) (len ?i) (vmem (ssys s)) (vmem y)"
      "procs y = (procs (ssys s))[?i := (procs (ssys s) ! ?i)
        \<lparr>reg := (reg (procs (ssys s) ! ?i))\<lparr>reg_rip := of_nat (proc_base ?i), reg_rsp := of_nat (proc_base ?i + 0x40000 - 8)\<rparr>,
         pstate := P_RUNNABLE\<rparr>]"
    using load_process_spec [OF assms(1,3) im(2,1)] by blast
  then have "pstate (procs y ! j) = (if j = ?i then P_RUNNABLE else pstate (procs (ssys s) ! j))" for j
    using l by simp
  moreover have "starts_program ?i (image_begin (ims ! ?i)) (len ?i) (ssys s) y"
    using y(3,4) l by (simp add: starts_program_def loaded_def runnable_def)
  moreover have "shell_start ims i s = Inr (s\<lparr>ssys := y\<rparr>)"
    using y(1) assms(4,5) by (auto simp: shell_start_def sys_start_eq Let_def)
  ultimately show ?thesis using y(2) by blast
qed

lemma shell_stop_total:
  assumes "system_ok L (ssys s)" "i = 2 \<or> i = 3" "pstate (procs (ssys s) ! unat i) = P_RUNNABLE"
  shows "\<exists>y. shell_stop i s = Inr (s\<lparr>ssys := y\<rparr>) \<and> system_ok L y \<and>
    (\<forall>j. pstate (procs y ! j) = (if j = unat i then P_FREE else pstate (procs (ssys s) ! j)))"
proof -
  have l: "unat i < length (procs (ssys s))" using assms(1,2) by (auto simp: system_ok_def procs_ok_def)
  obtain y where y: "sys_stop (zero_registers\<lparr>reg_rdi := i\<rparr>) (ssys s) = Inr y"
      "y = (ssys s)\<lparr>procs := (procs (ssys s))[unat i := (procs (ssys s) ! unat i)\<lparr>pstate := P_FREE\<rparr>]\<rparr>"
    using assms(2,3) by (auto simp: sys_stop_def kassert_def Let_def)
  then show ?thesis using sys_stop_ok [OF assms(1) y(1)] l by (auto simp: shell_stop_def nth_list_update)
qed

text \<open>Each command with its request, in step with the table.\<close>

lemma cmd_start0_total:
  assumes "layout_ok L" "images_ok L ims len" "shell_system L s"
  shows "\<exists>s'. cmd_start0 ims s = Inr s' \<and> shell_system L s' \<and>
    (\<not> process0_running s \<longrightarrow> starts_program 2 (image_begin (ims ! 2)) (len 2) (ssys s) (ssys s'))"
proof (cases "process0_running s")
  case False
  then show ?thesis using shell_start_total [OF assms(1,2), of "s\<lparr>process0_running := True\<rparr>" 2] assms(3)
    by (auto simp: cmd_start0_def shell_system_def flags_match_def on_screen_def)
qed (use say_total [OF assms(3), of "''Process 0 is already running''"] in \<open>simp add: cmd_start0_def ascii_def\<close>)

lemma cmd_start1_total:
  assumes "layout_ok L" "images_ok L ims len" "shell_system L s"
  shows "\<exists>s'. cmd_start1 ims s = Inr s' \<and> shell_system L s' \<and>
    (\<not> process1_running s \<longrightarrow> starts_program 3 (image_begin (ims ! 3)) (len 3) (ssys s) (ssys s'))"
proof (cases "process1_running s")
  case False
  then show ?thesis using shell_start_total [OF assms(1,2), of "s\<lparr>process1_running := True\<rparr>" 3] assms(3)
    by (auto simp: cmd_start1_def shell_system_def flags_match_def on_screen_def)
qed (use say_total [OF assms(3), of "''Process 1 is already running''"] in \<open>simp add: cmd_start1_def ascii_def\<close>)

lemma cmd_stop0_total:
  assumes "shell_system L s"
  shows "\<exists>s'. cmd_stop0 s = Inr s' \<and> shell_system L s'"
proof (cases "process0_running s")
  case True
  then obtain s' where "shell_stop 2 (s\<lparr>process0_running := False\<rparr>) = Inr s'" "shell_system L s'"
    using shell_stop_total [of L "s\<lparr>process0_running := False\<rparr>" 2] assms
    by (auto simp: shell_system_def flags_match_def on_screen_def)
  then show ?thesis using clear_column_total [of L s' 76] True by (simp add: cmd_stop0_def)
qed (use say_total [OF assms, of "''Process 0 is not running''"] in \<open>simp add: cmd_stop0_def ascii_def\<close>)

lemma cmd_stop1_total:
  assumes "shell_system L s"
  shows "\<exists>s'. cmd_stop1 s = Inr s' \<and> shell_system L s'"
proof (cases "process1_running s")
  case True
  then obtain s' where "shell_stop 3 (s\<lparr>process1_running := False\<rparr>) = Inr s'" "shell_system L s'"
    using shell_stop_total [of L "s\<lparr>process1_running := False\<rparr>" 3] assms
    by (auto simp: shell_system_def flags_match_def on_screen_def)
  then show ?thesis using clear_column_total [of L s' 78] True by (simp add: cmd_stop1_def)
qed (use say_total [OF assms, of "''Process 1 is not running''"] in \<open>simp add: cmd_stop1_def ascii_def\<close>)

section \<open>Accesses outside the arrays\<close>

lemma push_loop:
  "length (path s) = 51 \<Longrightarrow> path_len s \<le> 51 \<Longrightarrow>
    case foreach (\<lambda>i s. push_path (cmd2 s ! i) s) xs s of
      Inr s' \<Rightarrow> path_len s' = path_len s + length xs \<and> length (path s') = 51
    | Inl x \<Rightarrow> x = OutOfBounds \<and> 51 < path_len s + length xs"
proof (induction xs arbitrary: s)
  case (Cons i xs)
  show ?case
  proof (cases "path_len s < 51")
    case True
    let ?s = "s\<lparr>path := (path s)[path_len s := cmd2 s ! i], path_len := path_len s + 1\<rparr>"
    have "push_path (cmd2 s ! i) s = Inr ?s" using True Cons.prems by (simp add: push_path_def array_set_def)
    then show ?thesis using Cons.IH [of ?s] Cons.prems True by (simp split: sum.splits)
  qed (use Cons.prems in \<open>simp add: push_path_def array_set_def\<close>)
qed simp

lemma enter_path_overrun:
  assumes "length (path s) = 51" "path_len s \<le> 50" "50 < path_len s + Suc (cmd2_len s)"
  shows "enter_path s = Inl OutOfBounds"
proof -
  let ?s = "s\<lparr>path := (path s)[path_len s := 0x5C], path_len := path_len s + 1\<rparr>"
  have "push_path 0x5C s = Inr ?s" using assms by (simp add: push_path_def array_set_def)
  moreover have "case foreach (\<lambda>i s. push_path (cmd2 s ! i) s) [0..<cmd2_len s] ?s of
      Inr s' \<Rightarrow> path_len s' = path_len s + 1 + cmd2_len s \<and> length (path s') = 51 | Inl x \<Rightarrow> x = OutOfBounds"
    using push_loop [of ?s "[0..<cmd2_len s]"] assms by (simp split: sum.splits)
  ultimately show ?thesis using assms(3) by (auto simp: enter_path_def array_set_def split: sum.splits)
qed

lemma up_arrow:
  assumes "length (screen s) = 2000" "80 \<le> cursor s" "cursor s < 2000"
  shows "handle_char ims e 3 s = Inr (False, (scrolled s)\<lparr>cursor := cursor s - 80\<rparr>)"
  using assms by (simp add: handle_char_def scroll_eq set_cursor.simps scrolled_def)

section \<open>An example\<close>

text \<open>A shell at the prompt on an empty screen, with the empty volume of the file system.\<close>

definition example_shell :: shell where
  "example_shell = \<lparr>cmd = replicate 78 0, cmd_len = 0, screen = replicate 2000 0, path = replicate 51 0, path_len = 0,
     cmd_ind = 0, cursor = 2, process0_running = False, process1_running = True, cmd1 = replicate 79 0, cmd1_len = 0,
     cmd2 = replicate 79 0, cmd2_len = 0, cmd3 = replicate 79 0, cmd3_len = 0, file_name_return = replicate 51 0,
     sio = \<lparr>vga = (\<lambda>p. glyph 0), ports = []\<rparr>, sdisk = example_disk s0, ssys = example_running\<rparr>"

definition example_binaries :: binaries where
  "example_binaries = \<lparr>p_idle_bin_start = 0x40000, p_idle_bin_end = 0x42000, p_shell_bin_start = 0x40000, p_shell_bin_end = 0x42000,
     p_dummy1_bin_start = 0x40000, p_dummy1_bin_end = 0x42000, p_dummy2_bin_start = 0x40000, p_dummy2_bin_end = 0x42000\<rparr>"

lemma example_binaries:
  "images_ok example_layout (embedded_programs example_binaries) (\<lambda>_. 0x2000)" "p_dummy1_bin_start example_binaries = 0x40000"
proof -
  have "embedded_programs example_binaries = replicate 4 example_image"
    by (simp add: embedded_programs_def example_binaries_def example_image_def numeral_eq_Suc)
  then show "images_ok example_layout (embedded_programs example_binaries) (\<lambda>_. 0x2000)"
    "p_dummy1_bin_start example_binaries = 0x40000"
    using example_images by (simp_all add: example_binaries_def)
qed

lemma example_at_prompt: "at_prompt 2 example_shell"
  by (auto simp: at_prompt_def editing_def line_of_def mirrors_def example_shell_def)

lemma example_room: "len \<le> 512 \<Longrightarrow> room_for_file (example_disk s0) [] 0 len"
proof -
  assume "len \<le> 512"
  then have "sectors_for len \<le> 1" by (simp add: sectors_for_def)
  moreover have "\<not> record_used m0 (vol m0 s0) [unat (2 :: u32)] (Suc 0)" using unused_s0 [of "Suc 0"] by simp
  ultimately show ?thesis
    using dir_s0 card_free_s0 by (simp add: room_for_file_def named_records_def example_disk_def capacity_s0)
qed


section \<open>Properties\<close>

text \<open>C5:
  What is typed at the prompt as \<open>write NAME.TXT text\<close>, and then \<open>read NAME.TXT\<close>, goes through the line
  editor, the parser, the look-up in the directory and the FAT32 volume, and comes back: both commands
  return, and the text stands on the display in the line above the new prompt.\<close>

theorem shell_write_then_read:
  assumes "at_prompt b s" "length (ename e) = 13"
    and "room_for_file (sdisk s) cs n (length c)" "\<And>j. j < n \<Longrightarrow> \<not> matches (padded (txt_name base)) (dir_list (sdisk s) cs) j"
    and "typed_base base" "list_all (\<lambda>x. plain x \<and> x \<noteq> 0) c" "c = [] \<or> hd c \<noteq> 0x20"
      "length (txt_name base) + length c \<le> 71"
  shows "\<exists>s' q. shell_loop ims e (ascii ''write'' @ 0x20 # txt_name base @ 0x20 # c @ 0x0A #
      ascii ''read'' @ 0x20 # txt_name base @ [0x0A]) s = Inr s' \<and>
    q < 24 \<and> peek (length c) (80 * q) (screen s') = c \<and> cursor s' = int (80 * Suc q + 2) \<and> mirrors s'"
proof -
  let ?read = "ascii ''read'' @ 0x20 # txt_name base"
  obtain t q f d fs where t: "\<And>rest. shell_loop ims e ((ascii ''write'' @ 0x20 # txt_name base @ 0x20 # c) @ 0x0A # rest) s = shell_loop ims e rest t"
      "at_prompt (80 * q + 2) t" "sdisk t = (sdisk s)\<lparr>fsys := f, file_ind := 0\<rparr>" "fs_inv (infoFat (sdisk s)) f"
      "file_stored (infoFat (sdisk s)) (unat (currentCluster (sdisk s)) # cs) n (file_entry (stored_name base) d (length c)) c d fs
        (vol (infoFat (sdisk s)) (fsys (sdisk s))) (vol (infoFat (sdisk s)) f)"
    using write_line [OF assms, of ims] by blast
  obtain s' k where s': "shell_loop ims e (?read @ [0x0A]) t = Inr s'" "k < 24" "peek (length c) (80 * k) (screen s') = c"
      "cursor s' = int (80 * Suc k + 2)" "mirrors s'"
    using read_line [OF t(2,3) assms(2,3,5,6,8) t(4,5), of ims] by blast
  have "shell_loop ims e (ascii ''write'' @ 0x20 # txt_name base @ 0x20 # c @ 0x0A # ?read @ [0x0A]) s = Inr s'"
    using t(1) [of "?read @ [0x0A]"] s'(1) by simp
  then show ?thesis using s'(2-5) by auto
qed

theorem shell_write_then_read_witness:
  "\<exists>s' q. shell_loop [] blank_entry (ascii ''write'' @ 0x20 # txt_name [0x41] @ 0x20 # [0x68, 0x69] @ 0x0A #
      ascii ''read'' @ 0x20 # txt_name [0x41] @ [0x0A]) example_shell = Inr s' \<and>
    q < 24 \<and> peek (Suc (Suc 0)) (80 * q) (screen s') = [0x68, 0x69]"
proof -
  have d: "sdisk example_shell = example_disk s0" by (simp add: example_shell_def)
  have "typed_base [0x41]" by (simp add: typed_base_def name_ok_def plain_def)
  then show ?thesis
    using shell_write_then_read [OF example_at_prompt, of blank_entry "[]" 0 "[0x68, 0x69]" "[0x41]" "[]"] example_room [of "Suc (Suc 0)"]
    unfolding d by (auto simp: blank_entry_def plain_def txt_name_def)
qed

text \<open>C19:
  Editing a line: keys other than the up arrow and Enter never fail; the line in \<open>cmd\<close> and the position in it
  change as in the abstract line, which backspace, the arrows, the tabulator and characters edit; the display
  goes on to show the text of the line from its first cell, with the cursor at the position; and nothing
  else of the shell changes.\<close>

theorem line_editing:
  assumes "editing b s" "3 \<notin> set cs" "0x0A \<notin> set cs"
  shows "\<exists>b' s'. shell_loop ims e cs s = Inr s' \<and> editing b' s' \<and> line_of s' = fold edit cs (line_of s) \<and> edits s s'"
proof -
  obtain b' s' where s': "editing b' s'" "line_of s' = fold edit cs (line_of s)" "edits s s'"
      "shell_loop ims e cs s = shell_loop ims e [] s'"
    using edit_loop [OF assms, of ims e] by (metis append_Nil2)
  have "edits s' (sys_cursor s')" using edits_refl [of "sys_cursor s'"] by simp
  then show ?thesis using s' edits_trans [OF s'(3)] by auto
qed

theorem line_editing_witness:
  "\<exists>s'. shell_loop [] blank_entry [0x61, 0x62, 1, 0x0E, 0x63] example_shell = Inr s' \<and> line_of s' = ([0x63, 0x62], 1)"
proof -
  have e: "editing 2 example_shell" "line_of example_shell = ([], 0)" using example_at_prompt by (simp_all add: at_prompt_def)
  obtain s' where s': "shell_loop [] blank_entry [0x61, 0x62, 1, 0x0E, 0x63] example_shell = Inr s'"
      "line_of s' = fold edit [0x61, 0x62, 1, 0x0E, 0x63] (line_of example_shell)"
    using line_editing [OF e(1), of "[0x61, 0x62, 1, 0x0E, 0x63]" "[]" blank_entry] by auto
  then show ?thesis using e(2) by (simp add: edit_def put_text_def)
qed

text \<open>C21:
  The parser is equivalent to its reference: the line is split into a first word, a second word and the rest
  after the spaces that follow, each at the start of its array with zeros behind it.\<close>

theorem parse_cmd_words:
  assumes "length (cmd s) = 78" "cmd_len s \<le> 78" "length (cmd1 s) = 79" "length (cmd2 s) = 79" "length (cmd3 s) = 79"
  shows "parse_cmd s = (case words3 (take (cmd_len s) (cmd s)) of (w1, w2, w3) \<Rightarrow>
    s\<lparr>cmd1 := padded w1, cmd1_len := length w1, cmd2 := padded w2, cmd2_len := length w2,
      cmd3 := padded w3, cmd3_len := length w3\<rparr>)"
  using parse_cmd_eq [OF assms] by (auto split: prod.split)

theorem parse_cmd_words_witness:
  "let s = example_shell\<lparr>cmd := [0x20, 0x61, 0x20, 0x20, 0x62, 0x20, 0x63, 0x20] @ replicate 70 0, cmd_len := 8\<rparr> in
   cmd1_len (parse_cmd s) = 1 \<and> cmd2 (parse_cmd s) = 0x62 # replicate 78 0 \<and> cmd3 (parse_cmd s) = [0x63, 0x20] @ replicate 77 0"
  using parse_cmd_words [of "example_shell\<lparr>cmd := [0x20, 0x61, 0x20, 0x20, 0x62, 0x20, 0x63, 0x20] @ replicate 70 0, cmd_len := 8\<rparr>"]
  by (simp add: example_shell_def words3_def padded_def)



text \<open>Words are compared up to their seventh byte only: two strings count as equal if and only if their first
  seven characters agree.\<close>

theorem strcmp_seven:
  assumes "0 \<in> set a" "0 \<in> set b"
  shows "strcmp a b = 0 \<longleftrightarrow> take 7 (text_of a) = take 7 (text_of b)"
  using assms by (rule strcmp_eq)

theorem strcmp_seven_witness:
  "strcmp (ascii ''FILENAME.TXT'' @ [0]) (ascii ''FILENAM2.TXT'' @ [0]) = 0"
  using strcmp_seven [of "ascii ''FILENAME.TXT'' @ [0]" "ascii ''FILENAM2.TXT'' @ [0]"]
  by (simp add: ascii_def text_of_def)

text \<open>C32:
  The shell's flags follow the process table: in step with it, each of the commands \<open>start\<close> and \<open>stop\<close> returns,
  so the kernel's assertions on these requests are never hit, and flags and table are in step again. A program that is
  started is the one of the command, loaded from its binary in the kernel and run from its first byte.\<close>

theorem shell_requests:
  assumes "layout_ok L" "images_ok L (embedded_programs b) len" "shell_system L s"
  shows "(\<exists>s'. cmd_start0 (embedded_programs b) s = Inr s' \<and> shell_system L s' \<and>
       (\<not> process0_running s \<longrightarrow> starts_program 2 (p_dummy1_bin_start b) (len 2) (ssys s) (ssys s'))) \<and>
     (\<exists>s'. cmd_start1 (embedded_programs b) s = Inr s' \<and> shell_system L s' \<and>
       (\<not> process1_running s \<longrightarrow> starts_program 3 (p_dummy2_bin_start b) (len 3) (ssys s) (ssys s'))) \<and>
     (\<exists>s'. cmd_stop0 s = Inr s' \<and> shell_system L s') \<and> (\<exists>s'. cmd_stop1 s = Inr s' \<and> shell_system L s')"
proof -
  have "embedded_programs b ! 2 = \<lparr>image_begin = p_dummy1_bin_start b, image_end = p_dummy1_bin_end b\<rparr>"
    "embedded_programs b ! 3 = \<lparr>image_begin = p_dummy2_bin_start b, image_end = p_dummy2_bin_end b\<rparr>"
    by (simp_all add: embedded_programs_def)
  then show ?thesis
    using cmd_start0_total [OF assms] cmd_start1_total [OF assms] cmd_stop0_total [OF assms(3)] cmd_stop1_total [OF assms(3)] by simp
qed

theorem shell_requests_witness:
  "\<exists>s'. cmd_start0 (embedded_programs example_binaries) example_shell = Inr s' \<and> shell_system example_layout s' \<and>
     starts_program 2 0x40000 0x2000 example_running (ssys s')"
proof -
  have "pstate (procs example_running ! 2) = P_FREE" "pstate (procs example_running ! 3) = P_RUNNABLE"
    by (simp_all add: example_running_def fresh_proc_def del: upt_Suc)
  then have "flags_match example_shell" by (simp add: flags_match_def example_shell_def)
  moreover have "system_ok example_layout (ssys example_shell)" using system_ok_running by (simp add: example_shell_def)
  ultimately have "shell_system example_layout example_shell"
    by (simp add: shell_system_def on_screen_def example_shell_def)
  moreover have "\<not> process0_running example_shell" "ssys example_shell = example_running" by (simp_all add: example_shell_def)
  ultimately show ?thesis
    using shell_requests [OF layout_ok_example example_binaries(1), of example_shell] by (simp add: example_binaries(2))
qed

text \<open>The up arrow scrolls the line off the screen while the cursor's place in the line stays: where the cursor
  stands on the first cell of the second row, behind the end of a line that began in the first row, the
  up arrow followed by backspace writes in front of the array \<open>screen\<close>.\<close>

theorem shell_key_overrun:
  assumes "editing b s" "cursor s = 80" "cmd_ind s \<noteq> 0"
  shows "shell_loop ims e [3, 0x0E] s = Inl OutOfBounds"
proof -
  let ?s = "sys_cursor s" and ?t = "(scrolled (sys_cursor s))\<lparr>cursor := cursor (sys_cursor s) - 80\<rparr>"
  have f: "cursor ?s = 80" "length (screen ?s) = 2000" "cmd_ind ?s = cmd_ind s"
    using assms(1,2) by (simp_all add: sys_cursor_def Let_def editing_def)
  then have "handle_char ims e 3 ?s = Inr (False, ?t)" by (intro up_arrow) simp_all
  moreover have "backspace (sys_cursor ?t) = Inl OutOfBounds"
    using f(1,3) assms(3) by (simp add: backspace_def sys_cursor_def Let_def sys_write_char_eq scrolled_def)
  then have "handle_char ims e 0x0E (sys_cursor ?t) = Inl OutOfBounds" by (simp add: handle_char_def)
  ultimately show ?thesis by simp
qed

theorem shell_key_overrun_witness:
  "shell_loop [] blank_entry [3, 0x0E] (example_shell\<lparr>cmd_len := 78, cmd_ind := 78, cursor := 80\<rparr>) = Inl OutOfBounds"
proof -
  have "screen example_shell ! (2 + i) = cmd example_shell ! i" if "i < 78" for i
    using that by (simp add: example_shell_def)
  then have "editing 2 (example_shell\<lparr>cmd_len := 78, cmd_ind := 78, cursor := 80\<rparr>)"
    by (simp add: editing_def) (simp add: example_shell_def)
  then show ?thesis by (rule shell_key_overrun) simp_all
qed

text \<open>A directory of \<open>n\<close> records in which the word of the command names one, that is neither the directory itself nor its parent.\<close>

definition names_directory :: "FAT32_entry \<Rightarrow> nat list \<Rightarrow> nat \<Rightarrow> bytes \<Rightarrow> shell \<Rightarrow> bool" where
  "names_directory e cs n w s \<longleftrightarrow> current_dir (sdisk s) cs n \<and> named_records (sdisk s) cs n \<and> file_ind (sdisk s) = 0 \<and>
     length (ename e) = 13 \<and> length (file_name_return s) = 51 \<and> cmd2 s = padded w \<and> cmd2_len s = length w \<and>
     w \<noteq> [] \<and> length w \<le> 78 \<and> 0 \<notin> set w \<and> last w \<noteq> 0x54 \<and> w \<noteq> [0x2E] \<and> w \<noteq> [0x2E, 0x2E] \<and>
     last_match (padded w) (dir_list (sdisk s) cs) 0 n (- 1) \<noteq> - 1"

text \<open>A file of the directory with its contents, and the shell that names it in a command.\<close>

definition names_file :: "FAT32_entry \<Rightarrow> disk_state \<Rightarrow> nat list \<Rightarrow> nat \<Rightarrow> bytes \<Rightarrow> bytes \<Rightarrow> shell \<Rightarrow> bool" where
  "names_file e d0 cs n base c s \<longleftrightarrow> room_for_file d0 cs n (length c) \<and> typed_base base \<and> length c < 0x10000 \<and>
     length (ename e) = 13 \<and> length (file_name_return s) = 51 \<and> cmd2 s = padded (txt_name base) \<and>
     cmd2_len s = length (txt_name base) \<and>
     (\<exists>f d fs. fs_inv (infoFat d0) f \<and> sdisk s = d0\<lparr>fsys := f, file_ind := 0\<rparr> \<and>
        file_stored (infoFat d0) (unat (currentCluster d0) # cs) n (file_entry (stored_name base) d (length c)) c d fs
          (vol (infoFat d0) (fsys d0)) (vol (infoFat d0) f))"

lemma short_txt:
  assumes "w \<in> {[0x54], [0x58, 0x54], [0x54, 0x58, 0x54]}" "cmd2 s = padded w" "cmd2_len s = length w" "4 \<le> cmd_len s"
  shows "looks_like_txt s = Inl OutOfBounds"
  using assms by (auto simp: looks_like_txt_def txt_suffix_def array_get_def padded_def)

lemma short_take: "length xs < n \<Longrightarrow> take n w = xs \<Longrightarrow> w = xs"
  by (cases "n \<le> length w") auto

lemma no_txt:
  assumes "w \<noteq> []" "last w \<noteq> 0x54" "length w \<le> 78" "cmd2 s = padded w" "cmd2_len s = length w"
  shows "looks_like_txt s = Inr False"
proof -
  have "padded w ! (length w - 1) = last w" using assms(1) by (simp add: padded_def nth_append last_conv_nth)
  moreover have "array_get (padded w) (int (length w - 1)) = Inr (padded w ! (length w - 1))"
    using assms(1,3) by (intro array_get_nat) (simp add: padded_def less_imp_diff_less)
  moreover have "int (length w) - 1 = int (length w - 1)" using assms(1) by (cases w) simp_all
  ultimately have "array_get (cmd2 s) (int (cmd2_len s) - 1) = Inr (last w)" by (simp only: assms(4,5))
  then show ?thesis using assms(2) by (simp add: looks_like_txt_def txt_suffix_def del: of_nat_diff)
qed

lemma cmd_cd_overrun:
  assumes "names_directory e cs n w s" "length (path s) = 51" "path_len s \<le> 50" "50 < path_len s + Suc (length w)"
  shows "cmd_cd e s = Inl OutOfBounds"
proof -
  have w: "cmd2 s = padded w" "cmd2_len s = length w" "length w \<le> 78" "0 \<notin> set w" "w \<noteq> []" "last w \<noteq> 0x54"
    using assms(1) by (simp_all add: names_directory_def)
  have z: "0 \<in> set (cmd2 s)" using w(1) text_padded [OF w(4,3)] by simp
  obtain f str where f: "ind_of_file_in_current_directory e (cmd2 s) s =
      Inr (last_match (cmd2 s) (dir_list (sdisk s) cs) 0 n (- 1),
        s\<lparr>sdisk := (sdisk s)\<lparr>fsys := f, file_ind := 0\<rparr>, file_name_return := str\<rparr>)"
    using lookup_spec [of s cs n e "cmd2 s"] assms(1) z unfolding names_directory_def by blast
  have short: "take 7 w = [0x2E] \<longrightarrow> w = [0x2E]" "take 7 w = [0x2E, 0x2E] \<longrightarrow> w = [0x2E, 0x2E]"
    using short_take [of "[0x2E]" 7 w] short_take [of "[0x2E, 0x2E]" 7 w] by simp_all
  have nt: "\<not> is_text (cmd2 s) ''.''" "\<not> is_text (cmd2 s) ''..''"
    using assms(1) short w(1) is_text_padded [OF w(4,3), of "''.''"] is_text_padded [OF w(4,3), of "''..''"]
    by (auto simp: names_directory_def ascii_def)
  have "enter_path (s\<lparr>sdisk := (sdisk s)\<lparr>fsys := f, file_ind := 0\<rparr>, file_name_return := str\<rparr>) = Inl OutOfBounds"
    using assms(2-4) w(2) by (intro enter_path_overrun) simp_all
  then show ?thesis
    using no_txt [OF w(5,6,3,1,2)] f assms(1) nt w(1) by (simp add: cmd_cd_def names_directory_def)
qed

lemma cmd_read_overrun:
  assumes "names_file e d0 cs n base c s" "length (cmd3 s) = 79" "79 < length c"
  shows "cmd_read e s = Inl OutOfBounds"
proof -
  let ?m = "infoFat d0"
  have room: "room_for_file d0 cs n (length c)" and base: "typed_base base" and c: "length c < 0x10000"
    and e: "length (ename e) = 13" "length (file_name_return s) = 51"
    and w: "cmd2 s = padded (txt_name base)" "cmd2_len s = length (txt_name base)"
    using assms(1) by (simp_all add: names_file_def)
  obtain f d fs where f: "fs_inv ?m f" "sdisk s = d0\<lparr>fsys := f, file_ind := 0\<rparr>"
    and st: "file_stored ?m (unat (currentCluster d0) # cs) n (file_entry (stored_name base) d (length c)) c d fs
      (vol ?m (fsys d0)) (vol ?m f)"
    using assms(1) unfolding names_file_def by blast
  have dir: "current_dir d0 cs n" using room by (simp add: room_for_file_def)
  obtain f0 str where f0: "ind_of_file_in_current_directory e (cmd2 s) s = Inr (of_nat n,
      s\<lparr>sdisk := d0\<lparr>fsys := f0, file_ind := 0\<rparr>, file_name_return := str\<rparr>)" "fs_inv ?m f0" "disk f0 = disk f"
    using lookup_stored [OF room base st f(1) e f(2) w(1)] by blast
  have v: "vol ?m f0 = vol ?m f" using f0(3) by (rule vol_disk)
  obtain g where "read_file e (of_nat n) (d0\<lparr>fsys := f0, file_ind := 0\<rparr>) = Inr (c, d0\<lparr>fsys := g, file_ind := 0\<rparr>)"
    using read_file_stored [OF dir c st [folded v] f0(2)] by blast
  then have rd: "sys_read_file e (of_nat n) (s\<lparr>sdisk := d0\<lparr>fsys := f0, file_ind := 0\<rparr>, file_name_return := str\<rparr>) = Inl OutOfBounds"
    using assms(2,3) by (simp add: sys_read_file_def copy_in_def)
  have "is_txt s = Inr True"
    using txt_suffix_ok [of base] typed_baseD(1) [OF base] w by (simp add: is_txt_def name_ok_def txt_name_def)
  moreover have "n < 2 ^ 31" using dir by (simp add: current_dir_def)
  ultimately show ?thesis using f0(1) rd record_number(1) [of n] by (simp add: cmd_read_def)
qed

text \<open>C38:
  Commands on which the shell leaves its arrays. \<open>mkdir\<close> and \<open>cd\<close> with the word T, XT or TXT read in front of the
  word. \<open>read\<close> of a file of the current directory that is longer than 79 bytes writes past the end of its third word.
  \<open>cd\<close> into a directory whose name does not fit behind the path writes past the end of the path.\<close>

theorem shell_buffer_overruns:
  "(w \<in> {[0x54], [0x58, 0x54], [0x54, 0x58, 0x54]} \<and> cmd2 s = padded w \<and> cmd2_len s = length w \<and> 4 \<le> cmd_len s \<longrightarrow>
      cmd_mkdir e s = Inl OutOfBounds \<and> cmd_cd e s = Inl OutOfBounds) \<and>
   (names_file e d0 cs n base c s \<and> length (cmd3 s) = 79 \<and> 79 < length c \<longrightarrow> cmd_read e s = Inl OutOfBounds) \<and>
   (names_directory e cs n w s \<and> length (path s) = 51 \<and> path_len s \<le> 50 \<and> 50 < path_len s + Suc (length w) \<longrightarrow>
      cmd_cd e s = Inl OutOfBounds)"
  using short_txt [of w s] cmd_cd_overrun [of e cs n w s] cmd_read_overrun [of e d0 cs n base c s]
  by (auto simp: cmd_mkdir_def cmd_cd_def)

lemma example_names_file:
  "\<exists>d. names_file blank_entry (example_disk s0) [] 0 [0x41] (replicate 100 0x41)
    (example_shell\<lparr>sdisk := d, cmd2 := padded (txt_name [0x41]), cmd2_len := 5\<rparr>)"
proof -
  have room: "room_for_file (example_disk s0) [] 0 (length (replicate 100 (0x41 :: u8)))" by (rule example_room) simp
  have b: "typed_base [0x41]" by (simp add: typed_base_def name_ok_def plain_def)
  have "sectors_for 100 div unat (sectorPerCluster (infoFat (example_disk s0)))
      < card (free_clusters (infoFat (example_disk s0)) (vol (infoFat (example_disk s0)) (fsys (example_disk s0))))"
    using room by (simp add: room_for_file_def)
  from write_file_stored [OF dir_s0 _ this, of "\<lambda>_. 0x41" "array_pointer (padded (txt_name [0x41]))"]
  obtain f d fs where f: "fs_inv (infoFat (example_disk s0)) f"
    "file_stored (infoFat (example_disk s0)) (unat (currentCluster (example_disk s0)) # []) 0
      (file_entry (stored_name [0x41]) d 100) (map (\<lambda>_. 0x41) [0..<100]) d fs
      (vol (infoFat (example_disk s0)) (fsys (example_disk s0))) (vol (infoFat (example_disk s0)) f)"
    by auto
  have c: "map (\<lambda>_. 0x41) [0..<100] = replicate 100 (0x41 :: u8)" by (simp add: map_replicate_const)
  have "names_file blank_entry (example_disk s0) [] 0 [0x41] (replicate 100 0x41)
    (example_shell\<lparr>sdisk := (example_disk s0)\<lparr>fsys := f, file_ind := 0\<rparr>, cmd2 := padded (txt_name [0x41]), cmd2_len := 5\<rparr>)"
    unfolding names_file_def using room b f(1) f(2) [unfolded c]
    by (auto simp: example_shell_def blank_entry_def txt_name_def)
  then show ?thesis by blast
qed

lemma example_names_directory:
  "names_directory blank_entry [] 1 [0x41] (example_shell\<lparr>sdisk := example_disk s2, path_len := 49, cmd2 := padded [0x41], cmd2_len := 1\<rparr>)"
proof -
  have r: "dir_list (example_disk s2) [] ! 0 = 0x41 # peek 31 1 root2" by (rule dir_s2(2))
  let ?p = "peek 31 1 root2"
  have z: "?p ! k = 0" if "k < 9" for k using that by (simp add: peek_nth root2_def nth_poke)
  have "strip_spaces (0x41 # ?p) 8 = 8" using z [of 6] by (intro strip_spaces_eq) simp_all
  moreover have "?p ! 7 = 0" by (rule z) simp
  moreover have "take 8 (0x41 # p) = 0x41 # 0 # take 6 (tl p)" if "p ! 0 = 0" "length p = 31" for p :: bytes
    using that by (cases p) auto
  then have "take 8 (0x41 # ?p) = 0x41 # 0 # take 6 (tl ?p)" using z [of 0] by simp
  ultimately have "name_of (0x41 # ?p) = [0x41]" by (simp add: name_of_def text_of_def short_name_def)
  then have "matches (padded [0x41]) (dir_list (example_disk s2) []) 0"
    using r text_padded [of "[0x41]"] by (simp add: matches_def removed_record_def)
  then show ?thesis
    using dir_s2(1) r last_match_here [of "padded [0x41]" "dir_list (example_disk s2) []" 0 "- 1"]
    by (simp add: names_directory_def named_records_def example_shell_def blank_entry_def example_disk_def)
qed

theorem shell_buffer_overruns_witness:
  "cmd_mkdir blank_entry (example_shell\<lparr>cmd_len := 8, cmd2 := padded [0x58, 0x54], cmd2_len := 2\<rparr>) = Inl OutOfBounds \<and>
   (\<exists>d. cmd_read blank_entry (example_shell\<lparr>sdisk := d, cmd2 := padded (txt_name [0x41]), cmd2_len := 5\<rparr>) = Inl OutOfBounds) \<and>
   cmd_cd blank_entry (example_shell\<lparr>sdisk := example_disk s2, path_len := 49, cmd2 := padded [0x41], cmd2_len := 1\<rparr>)
     = Inl OutOfBounds"
proof (intro conjI)
  show "cmd_mkdir blank_entry (example_shell\<lparr>cmd_len := 8, cmd2 := padded [0x58, 0x54], cmd2_len := 2\<rparr>) = Inl OutOfBounds"
    using shell_buffer_overruns [of "[0x58, 0x54]" "example_shell\<lparr>cmd_len := 8, cmd2 := padded [0x58, 0x54], cmd2_len := 2\<rparr>"
      blank_entry] by simp
  show "\<exists>d. cmd_read blank_entry (example_shell\<lparr>sdisk := d, cmd2 := padded (txt_name [0x41]), cmd2_len := 5\<rparr>) = Inl OutOfBounds"
    using example_names_file shell_buffer_overruns [of _ _ blank_entry "example_disk s0" "[]" 0 "[0x41]" "replicate 100 0x41"]
    by (fastforce simp: example_shell_def)
  show "cmd_cd blank_entry (example_shell\<lparr>sdisk := example_disk s2, path_len := 49, cmd2 := padded [0x41], cmd2_len := 1\<rparr>)
     = Inl OutOfBounds"
    using example_names_directory shell_buffer_overruns [of "[0x41]" _ blank_entry _ "[]" 1] by (simp add: example_shell_def)
qed

end
