(* ===== verification/Shell_Calls.thy ===== *)
theory Shell_Calls
  imports Shell_Correct
begin

text \<open>
  The system calls of the shell through the trap: what the model of the shell does at a call, with the kernel function
  applied to its own copies of the screen, the ports and the disk, is what the dispatcher of the kernel does with the
  registers that the assembly of the call loads, and the dispatcher then comes back to the shell.
\<close>

section \<open>Calls that read the caller's memory\<close>

lemma write_base_cong:
  "(\<And>i. i < 8 \<Longrightarrow> f i = g i) \<Longrightarrow> write_base f index b = write_base g index b"
proof (induction f index b rule: write_base.induct)
  case (1 f index b)
  show ?case using 1 by (cases "index < 8") (subst (1 2) write_base.simps, simp)+
qed

lemma write_base_le: "write_base f index b = (c, Some n) \<Longrightarrow> index \<le> 8 \<Longrightarrow> n \<le> 8"
  by (induction f index b rule: write_base.induct) (subst (asm) (2) write_base.simps, simp split: if_splits)

text \<open>A name is read up to its twelfth byte, a file up to its size.\<close>

lemma writeFileName_cong:
  assumes "\<And>i. i < 12 \<Longrightarrow> f i = g i"
  shows "writeFileName b f = writeFileName b g"
proof -
  let ?b = "fold (\<lambda>i f. f[i := 0x20]) [0..<11] b"
  have eq: "write_base f 0 ?b = write_base g 0 ?b" using assms by (intro write_base_cong) simp
  have "f (n + i + 1) = g (n + i + 1)" if "write_base g 0 ?b = (c, Some n)" "i < 3" for c n i
    using write_base_le [OF that(1)] that(2) assms [of "n + i + 1"] by simp
  then show ?thesis unfolding writeFileName_def Let_def eq
    by (auto split: prod.splits option.splits intro!: fold_cong)
qed

lemma make_directory_cong: "(\<And>i. i < 12 \<Longrightarrow> f i = g i) \<Longrightarrow> make_directory f d = make_directory g d"
  using writeFileName_cong [of f g blank_name] by (simp add: make_directory_def mkdir_def)

lemma writeFile_loop_short:
  assumes "\<And>i. i < n \<Longrightarrow> f i = g i" "n < 512"
  shows "writeFile_loop m c x (of_nat n) f 0 s = writeFile_loop m c x (of_nat n) g 0 s"
proof -
  have n: "sint (of_nat n :: c_int) = int n"
    using assms(2) by (simp add: signed_of_nat signed_take_bit_int_eq_self)
  have end1: "writeFile_loop m c x 0 h k s = Inr ((), s)" for h c x k s
    by (simp add: writeFile_loop.simps)
  have copy: "fold (\<lambda>i b. b[i := f (0 + i)]) [0..<n] b = fold (\<lambda>i b. b[i := g (0 + i)]) [0..<n] b" for b
    using assms(1) by (intro fold_cong) auto
  show ?thesis using assms(2) copy
    by (subst (1 2) writeFile_loop.simps)
      (simp add: n end1 Let_def, intro impI arg_cong [where f = "bind _"] ext, simp add: end1 split_beta)
qed

lemma write_file_cong:
  assumes "\<And>i. i < n \<Longrightarrow> f i = f' i" "n < 512" "\<And>i. i < 12 \<Longrightarrow> g i = g' i"
  shows "write_file f (of_nat n) g d = write_file f' (of_nat n) g' d"
  using writeFileName_cong [OF assms(3)] writeFile_loop_short [OF assms(1,2)]
  by (simp add: write_file_def writeFile_def)

text \<open>The low part of a sign-extended register is the value.\<close>

lemma low_part [simp]:
  "ucast (scast (x :: u8) :: u64) = x" "ucast (scast (y :: u32) :: u64) = y"
  "ucast (word_of_int p :: u64) = (word_of_int p :: u32)"
  by (rule bit_word_eqI; auto simp: bit_simps min_def le_less_Suc_eq numeral_eq_Suc dest: le_antisym)+

text \<open>An update that keeps what a map looks at.\<close>

lemma map_update_same [simp]: "f q = f (xs ! i) \<Longrightarrow> map f (xs[i := q]) = map f xs"
  using list_update_id [of "map f xs" i] by (cases "i < length xs") (simp_all add: map_update list_update_beyond)

section \<open>Arrays in memory\<close>

definition array_at :: "(u64 \<Rightarrow> u8) \<Rightarrow> u64 \<Rightarrow> bytes \<Rightarrow> bool" where
  "array_at m a b \<longleftrightarrow> (\<forall>i<length b. m (a + of_nat i) = b ! i)"

definition apart :: "u64 \<Rightarrow> nat \<Rightarrow> u64 \<Rightarrow> nat \<Rightarrow> bool" where
  "apart a n b k \<longleftrightarrow> (\<forall>x. in_region x a n \<longrightarrow> \<not> in_region x b k)"

lemma array_at_nth: "array_at m a b \<Longrightarrow> i < length b \<Longrightarrow> m (a + of_nat i) = b ! i"
  by (simp add: array_at_def)

lemma array_at_cong: "(\<And>x. in_region x a (length b) \<Longrightarrow> m' x = m x) \<Longrightarrow> length b \<le> 2 ^ 64 \<Longrightarrow> array_at m' a b = array_at m a b"
  by (simp add: array_at_def)

lemma user_bytes_array: "array_at (memory (vmem (msys k))) a b \<Longrightarrow> i < length b \<Longrightarrow> user_bytes k a i = array_pointer b i"
  by (simp add: user_bytes_def array_pointer_def array_at_nth)

text \<open>What a handler copies to the start of an array is what \<open>copy_in\<close> puts there, and other arrays keep their bytes.\<close>

lemma array_at_copied:
  assumes "array_at (memory (vmem (msys k))) a b" "copy_in bs b = Inr b'" "length b \<le> 2 ^ 32"
  shows "array_at (memory (vmem (msys (put_bytes a bs k)))) a b'"
proof -
  have b': "length bs \<le> length b" "b' = poke 0 bs b" using assms(2) by (auto simp: copy_in_def split: if_splits)
  have "unat (of_nat i :: u64) = i" if "i < length b" for i
    using that assms(3) by (simp add: unat_of_nat take_bit_nat_eq_self)
  then show ?thesis
    using assms(1) b' by (auto simp: array_at_def put_bytes_def in_region_def nth_poke)
qed

lemma array_at_other:
  assumes "array_at (memory (vmem (msys k))) a b" "apart c n a (length b)" "length bs \<le> n" "length b \<le> 2 ^ 32"
  shows "array_at (memory (vmem (msys (put_bytes c bs k)))) a b"
proof -
  have "\<not> in_region x c (length bs)" if "in_region x a (length b)" for x
    using assms(2,3) that by (auto simp: apart_def in_region_def)
  then show ?thesis using assms(1,4)
    by (subst array_at_cong [where m = "memory (vmem (msys k))"]) (auto simp: put_bytes_def)
qed

section \<open>The shell and the kernel\<close>

text \<open>The three arrays do not overlap and lie in the part of memory that the shell is loaded to.\<close>

record addresses =
  cmd2_at :: u64
  cmd3_at :: u64
  name_at :: u64

definition in_slot :: "nat \<Rightarrow> u64 \<Rightarrow> nat \<Rightarrow> bool" where
  "in_slot i a n \<longleftrightarrow> proc_base i \<le> unat a \<and> unat a + n \<le> proc_base i + 0x40000"

definition placed :: "addresses \<Rightarrow> bool" where
  "placed A \<longleftrightarrow> apart (cmd3_at A) 79 (cmd2_at A) 79 \<and> apart (cmd3_at A) 79 (name_at A) 51 \<and>
     apart (name_at A) 51 (cmd2_at A) 79 \<and> apart (name_at A) 51 (cmd3_at A) 79 \<and>
     in_slot 1 (cmd2_at A) 79 \<and> in_slot 1 (cmd3_at A) 79 \<and> in_slot 1 (name_at A) 51"

text \<open>What lies in a slot lies in the memory of the programs, so that the kernel accepts a pointer to it.\<close>

lemma in_slot_user: "in_slot i a n \<Longrightarrow> i < 8 \<Longrightarrow> k \<le> n \<Longrightarrow> user_memory a k"
  by (auto simp: in_slot_def user_memory_def proc_base_def)

lemma placed_user:
  assumes "placed A"
  shows "k \<le> 79 \<Longrightarrow> user_memory (cmd2_at A) k" "k \<le> 79 \<Longrightarrow> user_memory (cmd3_at A) k" "k \<le> 51 \<Longrightarrow> user_memory (name_at A) k"
  using assms in_slot_user [of 1] by (auto simp: placed_def)

text \<open>
  The kernel runs the shell, process 1, and the shell's copies are the kernel's: the screen and the ports, the disk, the arrays
  that system calls read and write, and the states of the processes.
\<close>

definition kernel_runs_shell :: "addresses \<Rightarrow> shell \<Rightarrow> kernel \<Rightarrow> bool" where
  "kernel_runs_shell A s k \<longleftrightarrow>
     sio s = mio k \<and> sdisk s = kdisk k \<and> map pstate (procs (ssys s)) = map pstate (procs (msys k)) \<and>
     length (cmd2 s) = 79 \<and> array_at (memory (vmem (msys k))) (cmd2_at A) (cmd2 s) \<and>
     length (cmd3 s) = 79 \<and> array_at (memory (vmem (msys k))) (cmd3_at A) (cmd3 s) \<and> cmd3_len s \<le> 78 \<and>
     length (file_name_return s) = 51 \<and> array_at (memory (vmem (msys k))) (name_at A) (file_name_return s) \<and>
     reschedule k = 0 \<and> current (msys k) = 1 \<and> 1 < length (procs (msys k)) \<and> pstate (procs (msys k) ! 1) = P_RUNNABLE"

text \<open>The calls that come back at once; \<open>Unmask\<close> is the first instruction of \<open>process_main\<close>.\<close>

datatype call = Unmask | Write_Char int u8 | Cursor | List_Files | Mkdir | Cd c_int | Rm c_int | Start u64 | Stop u64
  | Read_File c_int | Write_File

text \<open>The registers that the assembly of a call loads, and the model of the call.\<close>

fun trap :: "addresses \<Rightarrow> shell \<Rightarrow> call \<Rightarrow> registers_t \<Rightarrow> registers_t" where
  "trap A s Unmask r = r\<lparr>reg_intno := 0x87\<rparr>"
| "trap A s (Write_Char pos c) r = r\<lparr>reg_intno := 0x81, reg_rdi := scast c, reg_rsi := word_of_int pos\<rparr>"
| "trap A s Cursor r = r\<lparr>reg_intno := 0x82, reg_rdi := word_of_int (cursor s)\<rparr>"
| "trap A s List_Files r = r\<lparr>reg_intno := 0x83, reg_rdi := name_at A\<rparr>"
| "trap A s Mkdir r = r\<lparr>reg_intno := 0x84, reg_rdi := cmd2_at A\<rparr>"
| "trap A s (Cd ind) r = r\<lparr>reg_intno := 0x85, reg_rdi := scast ind\<rparr>"
| "trap A s (Rm ind) r = r\<lparr>reg_intno := 0x86, reg_rdi := scast ind\<rparr>"
| "trap A s (Start prog) r = r\<lparr>reg_intno := 0x89, reg_rdi := prog\<rparr>"
| "trap A s (Stop prog) r = r\<lparr>reg_intno := 0x8A, reg_rdi := prog\<rparr>"
| "trap A s (Read_File ind) r = r\<lparr>reg_intno := 0x8B, reg_rdi := scast ind, reg_rsi := cmd3_at A\<rparr>"
| "trap A s Write_File r = r\<lparr>reg_intno := 0x8C, reg_rdi := cmd3_at A, reg_rsi := of_nat (cmd3_len s), reg_rdx := cmd2_at A\<rparr>"

fun perform :: "ramimage list \<Rightarrow> FAT32_entry \<Rightarrow> call \<Rightarrow> shell \<Rightarrow> (u64 option \<times> shell) result" where
  "perform ramimages e Unmask s = Inr (None, s\<lparr>sio := outb 0xA1 0xFF (outb 0x21 0xFC (sio s))\<rparr>)"
| "perform ramimages e (Write_Char pos c) s = bind (sys_write_char pos c s) (\<lambda>s. Inr (None, s))"
| "perform ramimages e Cursor s = Inr (None, sys_cursor s)"
| "perform ramimages e List_Files s =
     bind (of_loop (list_files e (sdisk s))) (\<lambda>((ind, name), d).
     bind (copy_in name (file_name_return s)) (\<lambda>str.
     Inr (Some (scast ind), s\<lparr>sdisk := d, file_name_return := str\<rparr>)))"
| "perform ramimages e Mkdir s = bind (sys_mkdir s) (\<lambda>s. Inr (None, s))"
| "perform ramimages e (Cd ind) s = bind (sys_cd e ind s) (\<lambda>s. Inr (None, s))"
| "perform ramimages e (Rm ind) s = bind (sys_rm ind s) (\<lambda>s. Inr (None, s))"
| "perform ramimages e (Start prog) s = bind (shell_start ramimages prog s) (\<lambda>s. Inr (None, s))"
| "perform ramimages e (Stop prog) s = bind (shell_stop prog s) (\<lambda>s. Inr (None, s))"
| "perform ramimages e (Read_File ind) s = bind (sys_read_file e ind s) (\<lambda>s. Inr (None, s))"
| "perform ramimages e Write_File s = bind (sys_write_file s) (\<lambda>s. Inr (None, s))"

text \<open>The registers that a call returns with: the result in \<open>rax\<close>, when there is one.\<close>

definition returned :: "u64 option \<Rightarrow> registers_t \<Rightarrow> registers_t" where
  "returned v r = (case v of None \<Rightarrow> r | Some x \<Rightarrow> r\<lparr>reg_rax := x\<rparr>)"

text \<open>A handler that does not reschedule comes back to the process that is running.\<close>

lemma leave_kernel_stays:
  assumes "kernel_runs_shell A s k"
  shows "kernel_runs_shell A s (leave_kernel k)" and "cpu (msys (leave_kernel k)) = reg (procs (msys k) ! 1)"
  using assms by (simp_all add: leave_kernel_def kernel_runs_shell_def run_def change_pagetable_eq Let_def)

lemma enter_kernel_runs:
  assumes "kernel_runs_shell A s k"
  shows "kernel_runs_shell A s (enter_kernel L r k)" and "reg (procs (msys (enter_kernel L r k)) ! 1) = r"
  using assms by (simp_all add: enter_kernel_def kernel_runs_shell_def change_pagetable_eq Let_def)

text \<open>The arrays after a name or a file has been copied out, and the result put into \<open>rax\<close>.\<close>

lemma copy_in_length: "copy_in xs b = Inr b' \<Longrightarrow> length b' = length b"
  by (auto simp: copy_in_def split: if_splits)

lemma arrays_listed:
  fixes d :: disk_state
  assumes "kernel_runs_shell A s k" "placed A" "copy_in name (file_name_return s) = Inr str"
  defines "m \<equiv> memory (vmem (msys (put_bytes (name_at A) name (k\<lparr>kdisk := d\<rparr>))))"
  shows "array_at m (name_at A) str" "array_at m (cmd2_at A) (cmd2 s)" "array_at m (cmd3_at A) (cmd3 s)"
proof -
  have "length name \<le> 51" using assms(1,3) by (auto simp: kernel_runs_shell_def copy_in_def split: if_splits)
  then show "array_at m (name_at A) str" "array_at m (cmd2_at A) (cmd2 s)" "array_at m (cmd3_at A) (cmd3 s)"
    using assms(1-3) unfolding m_def
    by (auto intro!: array_at_copied array_at_other [where n = 51] simp: kernel_runs_shell_def placed_def)
qed

lemma arrays_read:
  fixes d :: disk_state
  assumes "kernel_runs_shell A s k" "placed A" "copy_in content (cmd3 s) = Inr b"
  defines "m \<equiv> memory (vmem (msys (put_bytes (cmd3_at A) content (k\<lparr>kdisk := d\<rparr>))))"
  shows "array_at m (cmd3_at A) b" "array_at m (cmd2_at A) (cmd2 s)" "array_at m (name_at A) (file_name_return s)"
proof -
  have "length content \<le> 79" using assms(1,3) by (auto simp: kernel_runs_shell_def copy_in_def split: if_splits)
  then show "array_at m (cmd3_at A) b" "array_at m (cmd2_at A) (cmd2 s)" "array_at m (name_at A) (file_name_return s)"
    using assms(1-3) unfolding m_def
    by (auto intro!: array_at_copied array_at_other [where n = 79] simp: kernel_runs_shell_def placed_def)
qed

lemma set_rax_runs: "kernel_runs_shell A s (set_rax x k) = kernel_runs_shell A s k"
proof -
  have "pstate (procs (msys (set_rax x k)) ! i) = pstate (procs (msys k) ! i)" for i
    by (cases "current (msys k) < length (procs (msys k))") (auto simp: set_rax_def Let_def nth_list_update list_update_beyond)
  then show ?thesis by (simp add: kernel_runs_shell_def) (simp add: set_rax_def Let_def)
qed

section \<open>Starting and stopping\<close>

lemma runs_pstate:
  assumes "kernel_runs_shell A s k"
  shows "length (procs (ssys s)) = length (procs (msys k))"
    and "i < length (procs (msys k)) \<Longrightarrow> pstate (procs (ssys s) ! i) = pstate (procs (msys k) ! i)"
proof -
  have m: "map pstate (procs (ssys s)) = map pstate (procs (msys k))" using assms by (simp add: kernel_runs_shell_def)
  then show l: "length (procs (ssys s)) = length (procs (msys k))" by (metis length_map)
  show "pstate (procs (ssys s) ! i) = pstate (procs (msys k) ! i)" if "i < length (procs (msys k))"
    using m l that by (metis nth_map)
qed

text \<open>Loading a program into another slot leaves the arrays of the shell as they are.\<close>

lemma array_at_loaded:
  assumes "layout_ok L" "loaded L i prog n v v'" "in_slot j a (length b)" "i \<noteq> j" "j < 8" "array_at (memory v) a b"
  shows "array_at (memory v') a b"
  unfolding array_at_def
proof (intro allI impI)
  fix x assume x: "x < length b"
  have s: "proc_base j \<le> unat a + x" "unat a + x < proc_base j + 0x40000" using assms(3) x by (simp_all add: in_slot_def)
  have "unat a + x < 2 ^ 64" using s(2) assms(5) by (simp add: proc_base_def)
  then have u: "unat (a + of_nat x) = unat a + x" by (simp add: unat_word_ariths unat_of_nat)
  have "\<not> in_region (a + of_nat x) (kernel_pagetables L) 0x5000"
    using tables_region [OF assms(1), of "a + of_nat x"] s(1) u by (auto simp: proc_base_def)
  moreover have "unat (a + of_nat x) < proc_base i \<or> proc_base i + 0x40000 \<le> unat (a + of_nat x)"
    using s assms(4) unfolding u by (auto simp: proc_base_def)
  ultimately have "memory v' (a + of_nat x) = memory v (a + of_nat x)" using assms(2) unfolding loaded_def by blast
  then show "memory v' (a + of_nat x) = b ! x" using assms(6) x by (simp add: array_at_def)
qed

text \<open>A request in the kernel does to the table what the shell's copy of the request does to the shell's table.\<close>

lemma start_performs:
  assumes "layout_ok L" "images_ok L ramimages len" "machine_ok L k" "kernel_runs_shell A s k" "placed A"
    and "shell_start ramimages prog s = Inr s'" "reg_rdi r = prog"
  shows "\<exists>y. sys_start ramimages r (msys k) = Inr y \<and> kernel_runs_shell A s' (k\<lparr>msys := y\<rparr>) \<and>
    current y = current (msys k) \<and> procs y ! current y = procs (msys k) ! current (msys k)"
proof -
  let ?i = "unat prog"
  obtain z where z: "prog = 2 \<or> prog = 3" "pstate (procs (ssys s) ! ?i) = P_FREE" "load_process ramimages ?i ?i (ssys s) = Inr z"
      "s' = s\<lparr>ssys := z\<rparr>"
    using assms(6) by (auto simp: shell_start_def sys_start_eq Let_def bind_eq_Inr_iff split: if_splits)
  have sys: "system_ok L (msys k)" "length (procs (msys k)) = 8"
    using machine_systemD [OF assms(3)] by (simp_all add: system_ok_def procs_ok_def)
  have i: "?i < 4" "?i \<noteq> 1" using z(1) by auto
  then have im: "?i < 8" "image_ok L (ramimages ! ?i) (len ?i)" using assms(2) by (simp_all add: images_ok_def)
  have st: "pstate (procs (msys k) ! ?i) = P_FREE" "length (procs (ssys s)) = 8"
    using runs_pstate [OF assms(4)] z(2) sys(2) im(1) by simp_all
  obtain y where y: "load_process ramimages ?i ?i (msys k) = Inr y" "loaded L ?i (ramimages ! ?i) (len ?i) (vmem (msys k)) (vmem y)"
      "current y = current (msys k)" "procs y = (procs (msys k))[?i := (procs (msys k) ! ?i)
        \<lparr>reg := (reg (procs (msys k) ! ?i))\<lparr>reg_rip := of_nat (proc_base ?i), reg_rsp := of_nat (proc_base ?i + 0x40000 - 8)\<rparr>,
         pstate := P_RUNNABLE\<rparr>]"
    using load_process_spec [OF assms(1) sys(1) im] by blast
  have "map pstate (procs z) = (map pstate (procs (ssys s)))[?i := P_RUNNABLE]"
    using z(3) by (auto simp: load_process_def Let_def bind_eq_Inr_iff map_update)
  then have "map pstate (procs z) = map pstate (procs y)" using assms(4) by (simp add: y(4) map_update kernel_runs_shell_def)
  moreover have other: "?i \<noteq> current (msys k)" using st(1) assms(4) by (auto simp: kernel_runs_shell_def)
  ultimately have "kernel_runs_shell A s' (k\<lparr>msys := y\<rparr>)"
    using array_at_loaded [OF assms(1) y(2) _ i(2)] assms(4,5)
    by (simp add: kernel_runs_shell_def placed_def z(4) y(3,4))
  moreover have "sys_start ramimages r (msys k) = Inr y"
    using z(1) st(1) y(1) assms(7) by (auto simp: sys_start_eq Let_def)
  ultimately show ?thesis using y(3,4) other by auto
qed

lemma stop_performs:
  assumes "machine_ok L k" "kernel_runs_shell A s k" "shell_stop prog s = Inr s'" "reg_rdi r = prog"
  shows "\<exists>y. sys_stop r (msys k) = Inr y \<and> kernel_runs_shell A s' (k\<lparr>msys := y\<rparr>) \<and>
    current y = current (msys k) \<and> procs y ! current y = procs (msys k) ! current (msys k)"
proof -
  let ?i = "unat prog"
  have len: "length (procs (msys k)) = 8" using machine_systemD [OF assms(1)] by (simp add: system_ok_def procs_ok_def)
  obtain z where z: "prog = 2 \<or> prog = 3" "pstate (procs (ssys s) ! ?i) = P_RUNNABLE"
      "s' = s\<lparr>ssys := (ssys s)\<lparr>procs := (procs (ssys s))[?i := (procs (ssys s) ! ?i)\<lparr>pstate := P_FREE\<rparr>]\<rparr>\<rparr>"
    using assms(3) by (auto simp: shell_stop_def sys_stop_def kassert_def Let_def bind_eq_Inr_iff split: if_splits)
  have i: "?i < 8" "?i \<noteq> current (msys k)" using z(1) assms(2) by (auto simp: kernel_runs_shell_def)
  let ?y = "(msys k)\<lparr>procs := (procs (msys k))[?i := (procs (msys k) ! ?i)\<lparr>pstate := P_FREE\<rparr>]\<rparr>"
  have "pstate (procs (msys k) ! ?i) = P_RUNNABLE" using runs_pstate [OF assms(2)] z(2) len i(1) by simp
  then have "sys_stop r (msys k) = Inr ?y" using z(1) assms(4) by (auto simp: sys_stop_def kassert_def Let_def)
  moreover have "kernel_runs_shell A s' (k\<lparr>msys := ?y\<rparr>)"
    using assms(2) i(2) by (simp add: kernel_runs_shell_def z(3) map_update)
  ultimately show ?thesis using i(2) by auto
qed

section \<open>The dispatcher\<close>

text \<open>The calls that copy to the shell's arrays.\<close>

lemma list_performs:
  assumes "kernel_runs_shell A s k" "placed A" "perform ramimages e List_Files s = Inr (v, s')"
    and "reg (procs (msys k) ! 1) = trap A s List_Files r"
  shows "\<exists>k'. dispatch ramimages c e (trap A s List_Files r) k = Inr (False, k') \<and> kernel_runs_shell A s' k' \<and>
    reg (procs (msys k') ! 1) = returned v (trap A s List_Files r)"
proof -
  obtain ind name d str where f: "list_files e (sdisk s) = Some (Inr ((ind, name), d))" "copy_in name (file_name_return s) = Inr str"
      "s' = s\<lparr>sdisk := d, file_name_return := str\<rparr>" "v = Some (scast ind)"
    using assms(3) by (auto simp: bind_eq_Inr_iff of_loop_eq_Inr_iff)
  let ?k = "put_bytes (name_at A) name (k\<lparr>kdisk := d\<rparr>)"
  have "kernel_runs_shell A s' ?k"
    using arrays_listed [OF assms(1,2) f(2), of d] assms(1) copy_in_length [OF f(2)]
    by (simp add: kernel_runs_shell_def f(3)) (simp add: put_bytes_def)
  then have "kernel_runs_shell A s' (set_rax (scast ind) ?k)" by (simp add: set_rax_runs)
  moreover have "length name \<le> 51" using f(2) assms(1) by (auto simp: copy_in_def kernel_runs_shell_def split: if_splits)
  then have "copy_out (name_at A) name (k\<lparr>kdisk := d\<rparr>) = Inr ?k" using placed_user(3) [OF assms(2)] by (simp add: copy_out_eq)
  then have "dispatch ramimages c e (trap A s List_Files r) k = Inr (False, set_rax (scast ind) ?k)"
    using f(1) assms(1) by (simp add: dispatch_def sys_list_files_handler_def kernel_runs_shell_def of_loop_def)
  moreover have "reg (procs (msys (set_rax (scast ind) ?k)) ! 1) = returned v (trap A s List_Files r)"
    using assms(1,4) by (simp add: set_rax_def Let_def returned_def f(4) kernel_runs_shell_def)
  ultimately show ?thesis by blast
qed

lemma read_performs:
  assumes "kernel_runs_shell A s k" "placed A" "sys_read_file e ind s = Inr s'"
  shows "\<exists>k'. dispatch ramimages c e (trap A s (Read_File ind) r) k = Inr (False, k') \<and> kernel_runs_shell A s' k' \<and>
    procs (msys k') = procs (msys k)"
proof -
  obtain content d b where f: "read_file e ind (sdisk s) = Inr (content, d)" "copy_in content (cmd3 s) = Inr b"
      "s' = s\<lparr>sdisk := d, cmd3 := b\<rparr>"
    using assms(3) by (auto simp: sys_read_file_def bind_eq_Inr_iff)
  let ?k = "put_bytes (cmd3_at A) content (k\<lparr>kdisk := d\<rparr>)"
  have "kernel_runs_shell A s' ?k"
    using arrays_read [OF assms(1,2) f(2), of d] assms(1) copy_in_length [OF f(2)]
    by (simp add: kernel_runs_shell_def f(3)) (simp add: put_bytes_def)
  moreover have "length content \<le> 79" using f(2) assms(1) by (auto simp: copy_in_def kernel_runs_shell_def split: if_splits)
  then have "copy_out (cmd3_at A) content (k\<lparr>kdisk := d\<rparr>) = Inr ?k" using placed_user(2) [OF assms(2)] by (simp add: copy_out_eq)
  then have "dispatch ramimages c e (trap A s (Read_File ind) r) k = Inr (False, ?k)"
    using f(1) assms(1) by (simp add: dispatch_def kernel_runs_shell_def)
  ultimately show ?thesis by auto
qed

text \<open>The calls whose arguments are arrays: the kernel reads through the pointers what the shell has in them.\<close>

lemma pointers_agree:
  assumes "kernel_runs_shell A s k"
  shows "make_directory (user_bytes k (cmd2_at A)) d = make_directory (array_pointer (cmd2 s)) d"
    and "write_file (user_bytes k (cmd3_at A)) (of_nat (cmd3_len s)) (user_bytes k (cmd2_at A)) d =
      write_file (array_pointer (cmd3 s)) (of_nat (cmd3_len s)) (array_pointer (cmd2 s)) d"
    and "ucast (of_nat (cmd3_len s) :: u64) = (of_nat (cmd3_len s) :: c_int)"
    and "nat (sint (of_nat (cmd3_len s) :: c_int)) \<le> 79"
proof -
  show "make_directory (user_bytes k (cmd2_at A)) d = make_directory (array_pointer (cmd2 s)) d"
    using assms by (intro make_directory_cong user_bytes_array) (simp_all add: kernel_runs_shell_def)
  show "write_file (user_bytes k (cmd3_at A)) (of_nat (cmd3_len s)) (user_bytes k (cmd2_at A)) d =
      write_file (array_pointer (cmd3 s)) (of_nat (cmd3_len s)) (array_pointer (cmd2 s)) d"
    using assms by (intro write_file_cong user_bytes_array) (simp_all add: kernel_runs_shell_def)
  show "ucast (of_nat (cmd3_len s) :: u64) = (of_nat (cmd3_len s) :: c_int)"
    using low_part(3) [of "int (cmd3_len s)"] by simp
  have "cmd3_len s \<le> 78" using assms by (simp add: kernel_runs_shell_def)
  then show "nat (sint (of_nat (cmd3_len s) :: c_int)) \<le> 79" by (simp add: signed_of_nat signed_take_bit_int_eq_self)
qed

lemma check_user_placed:
  assumes "placed A"
  shows "check_user (cmd2_at A) 12 = Inr ()" "n \<le> 79 \<Longrightarrow> check_user (cmd3_at A) n = Inr ()"
  using placed_user(1,2) [OF assms] by simp_all

text \<open>Every handler does what the model of its call does.\<close>

lemmas handler_defs = dispatch_def sys_write_char_handler_def sys_cursor_handler_def sys_mkdir_handler_def sys_cd_handler_def
  sys_rm_handler_def sys_write_char_def sys_cursor_def sys_mkdir_def sys_cd_def sys_rm_def sys_write_file_def

lemma dispatch_performs:
  assumes "layout_ok L" "images_ok L ramimages len" "machine_ok L k"
    and k: "kernel_runs_shell A s k" and A: "placed A" and p: "perform ramimages e cl s = Inr (v, s')"
    and r: "reg (procs (msys k) ! 1) = trap A s cl r"
  shows "\<exists>k'. dispatch ramimages c e (trap A s cl r) k = Inr (False, k') \<and> kernel_runs_shell A s' k' \<and>
    reg (procs (msys k') ! 1) = returned v (trap A s cl r)"
proof (cases cl)
  case List_Files
  then show ?thesis using list_performs [OF k A] p r by simp
next
  case (Read_File ind)
  then show ?thesis using read_performs [OF k A, of e ind s' ramimages c r] p r by (auto simp: bind_eq_Inr_iff returned_def)
next
  case (Start prog)
  then have "shell_start ramimages prog s = Inr s'" "v = None" using p by (auto simp: bind_eq_Inr_iff)
  then show ?thesis using start_performs [OF assms(1-3) k A, of prog s' "trap A s cl r"] k r Start
    by (auto simp: dispatch_def returned_def kernel_runs_shell_def)
next
  case (Stop prog)
  then have "shell_stop prog s = Inr s'" "v = None" using p by (auto simp: bind_eq_Inr_iff)
  then show ?thesis using stop_performs [OF assms(3) k, of prog s' "trap A s cl r"] k r Stop
    by (auto simp: dispatch_def returned_def kernel_runs_shell_def)
qed (use k p r pointers_agree(1,2) [OF k, of "kdisk k"] pointers_agree(3,4) [OF k] check_user_placed [OF A] in
  \<open>auto simp: handler_defs kernel_runs_shell_def returned_def bind_eq_Inr_iff Let_def split: if_splits\<close>)

section \<open>Example\<close>

definition places :: addresses where
  "places = \<lparr>cmd2_at = 0x150000, cmd3_at = 0x150100, name_at = 0x150200\<rparr>"

definition calling_shell :: shell where
  "calling_shell = example_shell\<lparr>sio := mio example_kernel\<rparr>"

lemma places_placed: "placed places"
  by (auto simp: placed_def places_def apart_def in_region_bounds in_slot_def proc_base_def)

lemma example_memory_empty:
  assumes "in_slot 1 a n"
  shows "array_at (memory (vmem (msys example_kernel))) a (replicate n 0)"
  unfolding array_at_def
proof (intro allI impI)
  fix i assume i: "i < length (replicate n (0 :: u8))"
  then have "unat (a + of_nat i) = unat a + i" using assms by (simp add: in_slot_def proc_base_def unat_word_ariths unat_of_nat)
  then have "\<not> in_region (a + of_nat i) (kernel_pagetables example_layout) 0x5000"
    using tables_region [OF layout_ok_example, of "a + of_nat i"] assms by (auto simp: in_slot_def proc_base_def)
  from init_tables_outside [OF this, of example_vm]
  show "memory (vmem (msys example_kernel)) (a + of_nat i) = replicate n 0 ! i"
    using i by (simp add: example_kernel_def example_running_def example_system_def) (simp add: example_vm_def)
qed

lemma calling_runs: "kernel_runs_shell places calling_shell example_kernel"
proof -
  have p: "in_slot 1 (cmd2_at places) 79" "in_slot 1 (cmd3_at places) 79" "in_slot 1 (name_at places) 51"
    using places_placed by (simp_all add: placed_def)
  have "procs (ssys calling_shell) = procs (msys example_kernel)" "sdisk calling_shell = kdisk example_kernel"
    by (simp_all add: calling_shell_def example_shell_def example_kernel_def)
  moreover have "1 < length (procs (msys example_kernel))" "pstate (procs (msys example_kernel) ! 1) = P_RUNNABLE"
    by (simp_all add: example_kernel_def example_running_def del: upt_Suc)
  ultimately show ?thesis
    using p [THEN example_memory_empty] example_procs
    by (simp add: kernel_runs_shell_def) (simp add: calling_shell_def example_shell_def)
qed

section \<open>Properties\<close>

text \<open>C7:
  A system call of the shell goes through the trap and comes back: with the registers that the assembly of the call
  loads, the dispatcher does to the screen, the ports, the disk, the arrays of the shell and the states of the processes
  what the model of the call does, resumes the shell, and changes no register but \<open>rax\<close> of the call that has a result.
  The calls are all but the one for a character, which can put the shell to sleep.\<close>

theorem shell_calls_return:
  assumes "layout_ok L" "images_ok L ramimages len" "machine_ok L k"
    and "kernel_runs_shell A s k" "placed A" "perform ramimages e cl s = Inr (v, s')"
  shows "\<exists>k'. exception L ramimages c e (trap A s cl r) k = Inr k' \<and> kernel_runs_shell A s' k' \<and>
    cpu (msys k') = returned v (trap A s cl r)"
proof -
  let ?k = "enter_kernel L (trap A s cl r) k"
  note enter = enter_kernel_ok [OF assms(3), of "trap A s cl r"] enter_kernel_runs [OF assms(4), of L "trap A s cl r"]
  from dispatch_performs [OF assms(1,2) enter(1,2) assms(5,6) enter(3), of c] obtain k'
    where k': "dispatch ramimages c e (trap A s cl r) ?k = Inr (False, k')" "kernel_runs_shell A s' k'"
      "reg (procs (msys k') ! 1) = returned v (trap A s cl r)"
    by blast
  have "exception L ramimages c e (trap A s cl r) k = Inr (leave_kernel k')" by (simp add: exception_def k'(1))
  then show ?thesis using leave_kernel_stays [OF k'(2)] k'(3) by simp
qed

theorem shell_calls_return_witness:
  "\<exists>k'. exception example_layout (replicate 4 example_image) 0 (file_entry [] 0 0) (trap places calling_shell (Start 2) zero_registers)
      example_kernel = Inr k' \<and> current (msys k') = 1 \<and> pstate (procs (msys k') ! 2) = P_RUNNABLE"
proof -
  have "pstate (procs (ssys calling_shell) ! unat (2 :: u64)) = P_FREE" "system_ok example_layout (ssys calling_shell)"
    using system_ok_running
    by (simp_all add: calling_shell_def example_shell_def example_running_def fresh_proc_def del: upt_Suc)
  from shell_start_total [OF layout_ok_example example_images this(2) _ this(1)] obtain y
    where y: "shell_start (replicate 4 example_image) 2 calling_shell = Inr (calling_shell\<lparr>ssys := y\<rparr>)"
      "pstate (procs y ! 2) = P_RUNNABLE" "system_ok example_layout y"
    by auto
  have "perform (replicate 4 example_image) (file_entry [] 0 0) (Start 2) calling_shell = Inr (None, calling_shell\<lparr>ssys := y\<rparr>)"
    by (simp add: y(1))
  from shell_calls_return [OF layout_ok_example example_images example_kernel_ok calling_runs places_placed this, of 0 zero_registers]
  obtain k' where k': "exception example_layout (replicate 4 example_image) 0 (file_entry [] 0 0)
        (trap places calling_shell (Start 2) zero_registers) example_kernel = Inr k'"
      "kernel_runs_shell places (calling_shell\<lparr>ssys := y\<rparr>) k'"
    by blast
  have "length (procs y) = 8" using y(3) by (simp add: system_ok_def procs_ok_def)
  then have "pstate (procs (msys k') ! 2) = P_RUNNABLE" using runs_pstate [OF k'(2)] y(2) by simp
  moreover have "current (msys k') = 1" using k'(2) by (simp add: kernel_runs_shell_def)
  ultimately show ?thesis using k'(1) by blast
qed

text \<open>C18:
  The shell's call for a character. When the buffer holds characters, the trap returns to the caller with the oldest one, which is gone from the
  buffer. When it is empty, the process is blocked and another process (or the idle one) runs; the next key press that
  stands for a character makes it runnable again, with that character as the result of its call and the registers it
  had otherwise saved, and leaves the buffer empty.\<close>

theorem getchar_delivers:
  assumes "machine_ok L s" "1 \<le> current (msys s)" "runnable (procs (msys s)) (current (msys s))" "reschedule s = 0"
    and "reg_intno r = 0x80" "reg_intno r' = 33" "key_char c' (mkb s) \<noteq> 0"
  shows "case kb_contents (mkb s) of
     ch # rest \<Rightarrow>
       \<exists>s1. exception L ramimages c e r s = Inr s1 \<and> current (msys s1) = current (msys s) \<and>
         cpu (msys s1) = r\<lparr>reg_rax := scast ch\<rparr> \<and> sys_getchar (cpu (msys s1)) = ch \<and> kb_contents (mkb s1) = rest
   | [] \<Rightarrow>
       \<exists>s1 s2. exception L ramimages c e r s = Inr s1 \<and> current (msys s1) \<noteq> current (msys s) \<and>
         pstate (procs (msys s1) ! current (msys s)) = P_BLOCKED \<and>
         exception L ramimages c' e r' s1 = Inr s2 \<and> runnable (procs (msys s2)) (current (msys s)) \<and>
         reg (procs (msys s2) ! current (msys s)) = r\<lparr>reg_rax := scast (key_char c' (mkb s))\<rparr> \<and>
         sys_getchar (reg (procs (msys s2) ! current (msys s))) = key_char c' (mkb s) \<and> kb_contents (mkb s2) = []"
proof (cases "kb_contents (mkb s)")
  case Nil
  let ?p = "current (msys s)"
  obtain s1 where s1: "exception L ramimages c e r s = Inr s1" "machine_ok L s1" "current (msys s1) \<noteq> ?p"
      "procs (msys s1) ! ?p = (procs (msys s) ! ?p)\<lparr>reg := r, pstate := P_BLOCKED\<rparr>"
      "mkb s1 = (mkb s)\<lparr>keyboard_waiting := Some ?p\<rparr>"
    using getchar_trap [OF assms(1,2) Nil assms(5)] by blast
  have "kb_contents (mkb s1) = []" "key_char c' (mkb s1) = key_char c' (mkb s)" "?p < 8"
    using s1(5) Nil machine_systemD [OF assms(1)] by (simp_all add: key_char_def system_ok_def)
  then obtain s2 where s2: "exception L ramimages c' e r' s1 = Inr s2" "kb_contents (mkb s2) = []"
      "procs (msys s2) ! ?p = (procs (msys s1) ! ?p)\<lparr>reg := (reg (procs (msys s1) ! ?p))\<lparr>reg_rax := scast (key_char c' (mkb s))\<rparr>,
        pstate := P_RUNNABLE\<rparr>"
    using key_trap [OF s1(2,3), of r' c' ramimages e] s1(5) assms(6,7) by auto
  have "runnable (procs (msys s2)) ?p" unfolding runnable_def s2(3) by simp
  then show ?thesis using s1 s2 Nil by (auto simp: sys_getchar_def)
qed (use getchar_ready [OF assms(1,3,4) _ assms(5), of ramimages c e] in \<open>auto simp: sys_getchar_def\<close>)

theorem getchar_delivers_witness:
  "\<exists>s1 s2. exception example_layout [] 0 blank_entry (trap_regs 0x80) example_kernel = Inr s1 \<and>
     current (msys s1) \<noteq> 1 \<and> exception example_layout [] 0x10 blank_entry (trap_regs 33) s1 = Inr s2 \<and>
     sys_getchar (reg (procs (msys s2) ! 1)) = 0x61"
proof -
  have "key_char 0x10 (mkb example_kernel) = 0x61" using key_a(1) example_procs(2) by (simp add: key_char_def keyboard_init_def)
  moreover have "runnable (procs (msys example_kernel)) (current (msys example_kernel))"
    using calling_runs by (simp add: kernel_runs_shell_def runnable_def)
  ultimately show ?thesis
    using getchar_delivers [OF example_kernel_ok, of "trap_regs 0x80" "trap_regs 33" "0x10" "[]" 0 blank_entry]
      example_procs(1,2,4) keyboard_init_ok(2) by auto
qed

end
