(* ===== verification/Boot_Loader.thy ===== *)
theory Boot_Loader
  imports Disk_Driver Process_Load
begin

text \<open>
  The boot loader, bootloader/boot.c: it reads the first page of the kernel's ELF file from the disk, waits for ever when that
  is not an ELF file, reads every segment that the program headers list and goes to the entry point. Memory is the flat byte
  memory of the kernel's model, and the ports are those of the device that the disk driver is proved against. A loop on
  the hardware or on addresses is a partial function: None means that it never ends.

  bootentry.S maps the first 2 MiB of addresses. Its page tables are at 0x1000, the loader's stack grows down from 0x7C00 and
  the loader itself is the sector at 0x7C00; from 0xA0000 to 0x100000 are the display's memory and the firmware. The loader
  checks none of the addresses it stores to. The model follows a store only into the other memory of the 2 MiB, and None is
  also the result of a run that faults or that writes over the loader.
\<close>

section \<open>Structures\<close>

record elf_header =
  e_magic :: u32
  e_elf :: bytes
  e_type :: u16
  e_machine :: u16
  e_version :: u32
  e_entry :: u64
  e_phoff :: u64
  e_shoff :: u64
  e_flags :: u32
  e_ehsize :: u16
  e_phentsize :: u16
  e_phnum :: u16
  e_shentsize :: u16
  e_shnum :: u16
  e_shstrndx :: u16

record elf_program =
  p_type :: u32
  p_flags :: u32
  p_offset :: u64
  p_va :: u64
  p_pa :: u64
  p_filesz :: u64
  p_memsz :: u64
  p_align :: u64

text \<open>A little-endian number of \<open>n\<close> bytes among the bytes \<open>b\<close>, and the structures at the start of \<open>b\<close>.\<close>

definition le_field :: "bytes \<Rightarrow> nat \<Rightarrow> nat \<Rightarrow> 'a::len word" where
  "le_field b k n = of_nat (le_dec (peek n k b))"

definition elf_header_of :: "bytes \<Rightarrow> elf_header" where
  "elf_header_of b = \<lparr>e_magic = le_field b 0 4, e_elf = peek 12 4 b, e_type = le_field b 0x10 2, e_machine = le_field b 0x12 2,
     e_version = le_field b 0x14 4, e_entry = le_field b 0x18 8, e_phoff = le_field b 0x20 8, e_shoff = le_field b 0x28 8,
     e_flags = le_field b 0x30 4, e_ehsize = le_field b 0x34 2, e_phentsize = le_field b 0x36 2, e_phnum = le_field b 0x38 2,
     e_shentsize = le_field b 0x3A 2, e_shnum = le_field b 0x3C 2, e_shstrndx = le_field b 0x3E 2\<rparr>"

definition elf_program_of :: "bytes \<Rightarrow> elf_program" where
  "elf_program_of b = \<lparr>p_type = le_field b 0 4, p_flags = le_field b 4 4, p_offset = le_field b 0x08 8, p_va = le_field b 0x10 8,
     p_pa = le_field b 0x18 8, p_filesz = le_field b 0x20 8, p_memsz = le_field b 0x28 8, p_align = le_field b 0x30 8\<rparr>"

text \<open>The structures in memory.\<close>

definition read_elf_header :: "mem \<Rightarrow> u64 \<Rightarrow> elf_header" where
  "read_elf_header m a = elf_header_of (mem_bytes m a 64)"

definition read_elf_program :: "mem \<Rightarrow> u64 \<Rightarrow> elf_program" where
  "read_elf_program m a = elf_program_of (mem_bytes m a 56)"

abbreviation (input) ELF_MAGIC :: u32 where "ELF_MAGIC \<equiv> 0x464C457F"
abbreviation (input) ELFHDR :: u64 where "ELFHDR \<equiv> 0x10000"
abbreviation (input) SECTORSIZE :: u64 where "SECTORSIZE \<equiv> 512"
abbreviation (input) SIZEOF_ELF_PROGRAM :: u64 where "SIZEOF_ELF_PROGRAM \<equiv> 56"

section \<open>Reading sectors\<close>

partial_function (option) boot_waitdisk :: "'d device \<Rightarrow> 'd \<Rightarrow> 'd option" where
  "boot_waitdisk dev d =
     (let (status, d) = dev_inb dev 0x1F7 d in if status AND 0xC0 \<noteq> 0x40 then boot_waitdisk dev d else Some d)"

text \<open>The memory that the loader can fill: \<open>n\<close> bytes from \<open>a\<close> on.\<close>

definition loader_ram :: "nat \<Rightarrow> nat \<Rightarrow> bool" where
  "loader_ram a n \<longleftrightarrow> 0x7E00 \<le> a \<and> a + n \<le> 0xA0000 \<or> 0x100000 \<le> a \<and> a + n \<le> 0x200000"

text \<open>What \<open>insl\<close> stores in memory.\<close>

definition store_bytes :: "u64 \<Rightarrow> bytes \<Rightarrow> mem \<Rightarrow> mem" where
  "store_bytes a bs m = (\<lambda>x. if in_region x a (length bs) then bs ! unat (x - a) else m x)"

definition boot_readsect :: "'d device \<Rightarrow> u64 \<Rightarrow> u32 \<Rightarrow> mem \<times> 'd \<Rightarrow> (mem \<times> 'd) option" where
  "boot_readsect dev dst src_sect = (\<lambda>(m, d).
     case boot_waitdisk dev d of
       None \<Rightarrow> None
     | Some d \<Rightarrow>
     (let d = dev_outb dev 0x1F2 1 d;
          d = dev_outb dev 0x1F3 (ucast src_sect) d;
          d = dev_outb dev 0x1F4 (ucast (drop_bit 8 src_sect)) d;
          d = dev_outb dev 0x1F5 (ucast (drop_bit 16 src_sect)) d;
          d = dev_outb dev 0x1F6 (ucast (drop_bit 24 src_sect OR 0xE0)) d;
          d = dev_outb dev 0x1F7 0x20 d
      in case boot_waitdisk dev d of
           None \<Rightarrow> None
         | Some d \<Rightarrow>
             (let (b, d) = dev_insl dev 0x1F0 (512 div 4) d
              in if loader_ram (unat dst) 512 then Some (store_bytes dst b m, d) else None)))"

lemma unat_plus_1: "e < z \<Longrightarrow> unat (e + 1) = unat e + 1" for e z :: u64
  using unat_lt_2p [of z] by (simp add: word_less_nat_alt unat_word_ariths)

text \<open>The two loops of \<open>boot_readseg\<close>.\<close>

partial_function (option) read_sectors :: "'d device \<Rightarrow> u64 \<Rightarrow> u64 \<Rightarrow> u32 \<Rightarrow> mem \<times> 'd \<Rightarrow> (mem \<times> 'd) option" where
  "read_sectors dev ptr end_ptr src_sect s =
     (if ptr < end_ptr then
        (case boot_readsect dev ptr src_sect s of
           None \<Rightarrow> None
         | Some s \<Rightarrow> read_sectors dev (ptr + SECTORSIZE) end_ptr (src_sect + 1) s)
      else Some s)"

function clear_bss :: "u64 \<Rightarrow> u64 \<Rightarrow> mem \<Rightarrow> mem option" where
  "clear_bss end_ptr memsz m =
     (if end_ptr < memsz then
        if loader_ram (unat end_ptr) 1 then clear_bss (end_ptr + 1) memsz (m(end_ptr := 0)) else None
      else Some m)"
  by pat_completeness auto
termination
proof (relation "measure (\<lambda>(e, z, m). unat z - unat e)")
  fix e z :: u64 and m :: mem
  assume "e < z"
  then have "unat (e + 1) = unat e + 1" by (rule unat_plus_1)
  then show "((e + 1, z, m(e := 0)), e, z, m) \<in> measure (\<lambda>(e, z, m). unat z - unat e)"
    using \<open>e < z\<close> by (simp add: word_less_nat_alt)
qed simp

declare clear_bss.simps [simp del]

definition boot_readseg :: "'d device \<Rightarrow> u64 \<Rightarrow> u32 \<Rightarrow> u64 \<Rightarrow> u64 \<Rightarrow> mem \<times> 'd \<Rightarrow> (mem \<times> 'd) option" where
  "boot_readseg dev ptr src_sect filesz memsz s =
     (let end_ptr = ptr + filesz; memsz = memsz + ptr; ptr = ptr AND NOT (SECTORSIZE - 1) in
      case read_sectors dev ptr end_ptr src_sect s of
        None \<Rightarrow> None
      | Some (m, d) \<Rightarrow> map_option (\<lambda>m. (m, d)) (clear_bss end_ptr memsz m))"

section \<open>The loader\<close>

text \<open>The loop on the magic number has an empty body.\<close>

partial_function (option) check_magic :: "mem \<Rightarrow> unit option" where
  "check_magic m = (if e_magic (read_elf_header m ELFHDR) \<noteq> ELF_MAGIC then check_magic m else Some ())"

partial_function (option) load_segments :: "'d device \<Rightarrow> u64 \<Rightarrow> u64 \<Rightarrow> mem \<times> 'd \<Rightarrow> (mem \<times> 'd) option" where
  "load_segments dev ph eph s =
     (if ph < eph then
        if 0x200000 < unat ph + 56 then None
        else (let p = read_elf_program (fst s) ph in
         case boot_readseg dev (p_va p) (ucast (p_offset p div SECTORSIZE + 1)) (p_filesz p) (p_memsz p) s of
           None \<Rightarrow> None
         | Some s \<Rightarrow> load_segments dev (ph + SIZEOF_ELF_PROGRAM) eph s)
      else Some s)"

text \<open>The address that the loader jumps to, with the memory and the devices.\<close>

definition boot :: "'d device \<Rightarrow> mem \<times> 'd \<Rightarrow> (u64 \<times> mem \<times> 'd) option" where
  "boot dev s =
     (case boot_readseg dev ELFHDR 1 0x1000 0x1000 s of
        None \<Rightarrow> None
      | Some s \<Rightarrow>
     (case check_magic (fst s) of
        None \<Rightarrow> None
      | Some _ \<Rightarrow>
     (let h = read_elf_header (fst s) ELFHDR;
          ph = ELFHDR + e_phoff h;
          eph = ph + SIZEOF_ELF_PROGRAM * ucast (e_phnum h)
      in case load_segments dev ph eph s of
           None \<Rightarrow> None
         | Some s \<Rightarrow> Some (e_entry (read_elf_header (fst s) ELFHDR), s))))"

text \<open>
  Switching on: the firmware reads the first sector of the drive to 0x7C00 and goes there when the sector ends in the
  signature. \<open>loader\<close> is the image that the makefile links from bootentry.S and boot.c for this address; a boot sector that
  does not start with it is another program, of which nothing is known. The page tables that bootentry.S builds below
  0x4000 are not part of the memory here.
\<close>

definition start_machine :: "bytes \<Rightarrow> 'd device \<Rightarrow> bytes \<Rightarrow> mem \<times> 'd \<Rightarrow> (u64 \<times> mem \<times> 'd) option" where
  "start_machine loader dev boot_sector = (\<lambda>(m, d).
     if boot_sector ! 510 = 0x55 \<and> boot_sector ! 511 = 0xAA \<and> take (length loader) boot_sector = loader
     then boot dev (store_bytes 0x7C00 boot_sector m, d) else None)"

section \<open>What the sectors hold\<close>

text \<open>Byte \<open>j\<close> of the disk from sector \<open>n\<close> on.\<close>

definition disk_byte :: "(nat \<Rightarrow> bytes) \<Rightarrow> nat \<Rightarrow> nat \<Rightarrow> u8" where
  "disk_byte S n j = S (n + j div 512) ! (j mod 512)"

lemma disk_byte_next: "512 \<le> j \<Longrightarrow> disk_byte S (n + 1) (j - 512) = disk_byte S n j"
  by (simp add: disk_byte_def le_div_geq le_mod_geq)

lemma store_bytes_unat:
  assumes "unat a + length bs \<le> 2 ^ 64"
  shows "store_bytes a bs m x = (if unat a \<le> unat x \<and> unat x < unat a + length bs then bs ! (unat x - unat a) else m x)"
  using in_region_bounds [OF assms] unat_diff_nat [of a x] by (simp add: store_bytes_def)

lemma clear_bss_eq:
  assumes "loader_ram a n" "a \<le> unat e" "unat z \<le> a + n"
  shows "\<exists>m'. clear_bss e z m = Some m' \<and> (\<forall>x. m' x = (if unat e \<le> unat x \<and> unat x < unat z then 0 else m x))"
  using assms(2,3)
proof (induction e z m rule: clear_bss.induct)
  case (1 e z m)
  show ?case
  proof (cases "e < z")
    case True
    have "unat x = unat e \<longleftrightarrow> x = e" for x by (simp add: word_unat_eq_iff)
    moreover have ram: "loader_ram (unat e) 1"
    proof -
      have "unat e < unat z" using True by (simp add: word_less_nat_alt)
      then have "unat e + 1 \<le> a + n" "a \<le> unat e" using 1(2,3) by simp_all
      then show ?thesis using assms(1) unfolding loader_ram_def by linarith
    qed
    ultimately show ?thesis using 1(1) [OF True ram] 1(2,3) True unat_plus_1 [OF True]
      by (subst clear_bss.simps) (fastforce simp: word_less_nat_alt)
  next
    case False
    then show ?thesis by (subst clear_bss.simps) (auto simp: word_less_nat_alt)
  qed
qed

text \<open>The loop on the magic number.\<close>

lemma check_magic_diverges:
  assumes "check_magic m = Some u"
  shows "e_magic (read_elf_header m ELFHDR) = ELF_MAGIC"
  using assms
  by (induction rule: check_magic.raw_induct [rotated, consumes 1, case_names step]) (auto split: if_splits)

lemma check_magic_eq:
  "check_magic m = (if e_magic (read_elf_header m ELFHDR) = ELF_MAGIC then Some () else None)"
proof (cases "e_magic (read_elf_header m ELFHDR) = ELF_MAGIC")
  case True
  then show ?thesis by (subst check_magic.simps) simp
next
  case False
  then show ?thesis using check_magic_diverges [of m] by (cases "check_magic m") auto
qed

section \<open>Segments\<close>

lemma round_down: "unat (a AND NOT 511) = 512 * (unat a div 512)" for a :: u64
proof -
  have m: "(511 :: u64) = mask 9" by (simp add: mask_eq_decr_exp)
  have "a AND NOT 511 = a AND NOT (take_bit 9 a)"
    unfolding m by (rule bit_word_eqI) (auto simp: bit_and_iff bit_not_iff bit_mask_iff bit_take_bit_iff)
  also have "\<dots> = a - take_bit 9 a" by (rule disjunctive_diff [symmetric]) (simp add: bit_take_bit_iff)
  finally have "a AND NOT 511 = a - take_bit 9 a" .
  moreover have "unat (take_bit 9 a) = unat a mod 512" by (simp add: take_bit_eq_mod unat_mod)
  ultimately have "unat (a AND NOT 511) = unat a - unat a mod 512" by (simp add: unat_diff_nat)
  then show ?thesis by (simp add: minus_mod_eq_mult_div)
qed

text \<open>The first byte of memory that loading a segment writes, the end of the sectors, and all bytes that it writes.\<close>

definition seg_start :: "elf_program \<Rightarrow> nat" where
  "seg_start p = 512 * (unat (p_va p) div 512)"

definition seg_sectors_end :: "elf_program \<Rightarrow> nat" where
  "seg_sectors_end p = 512 * ((unat (p_va p) + unat (p_filesz p) + 511) div 512)"

definition touched :: "elf_program \<Rightarrow> nat set" where
  "touched p = {seg_start p..<max (seg_sectors_end p) (unat (p_va p) + unat (p_memsz p))}"

text \<open>
  A segment that the loader can load: all it writes is memory that the loader can fill, the segment lies below the drive's
  limit of sectors, keeps clear of the page with the ELF header, and its place in memory and its place in the file agree
  within a sector.
\<close>

definition seg_ok :: "elf_program \<Rightarrow> bool" where
  "seg_ok p \<longleftrightarrow> loader_ram (seg_start p) (max (seg_sectors_end p) (unat (p_va p) + unat (p_memsz p)) - seg_start p) \<and>
     (unat (p_offset p) + unat (p_filesz p)) div 512 + 3 \<le> 2 ^ 28 \<and>
     unat (p_va p) mod 512 = unat (p_offset p) mod 512 \<and> touched p \<inter> {0x10000..<0x11000} = {}"

lemma seg_bounds:
  "seg_start p \<le> unat (p_va p)" "unat (p_va p) + unat (p_filesz p) \<le> seg_sectors_end p"
  "unat (p_va p) - seg_start p = unat (p_va p) mod 512"
  unfolding seg_start_def seg_sectors_end_def by (linarith, linarith, simp add: minus_mult_div_eq_mod)

lemma seg_ok_ram:
  assumes "seg_ok p"
  shows "unat (p_va p) + max (unat (p_filesz p)) (unat (p_memsz p)) \<le> 0x200000" "touched p \<subseteq> {0x7E00..<0xA0000} \<union> {0x100000..<0x200000}"
  using assms seg_bounds(1,2) [of p] by (auto simp: seg_ok_def loader_ram_def touched_def)

text \<open>The segment is in memory: the bytes of the file \<open>F\<close>, then zeros.\<close>

definition seg_loaded :: "(nat \<Rightarrow> u8) \<Rightarrow> mem \<Rightarrow> elf_program \<Rightarrow> bool" where
  "seg_loaded F m p \<longleftrightarrow> (\<forall>i < unat (p_filesz p). m (p_va p + of_nat i) = F (unat (p_offset p) + i)) \<and>
     (\<forall>i. unat (p_filesz p) \<le> i \<and> i < unat (p_memsz p) \<longrightarrow> m (p_va p + of_nat i) = 0)"

lemma disk_byte_within: "disk_byte S (off div 512 + 1) (off mod 512 + i) = disk_byte S 1 (off + i)"
proof -
  have "off + i = 512 * (off div 512) + (off mod 512 + i)" by simp
  then have "(off + i) div 512 = off div 512 + (off mod 512 + i) div 512" "(off + i) mod 512 = (off mod 512 + i) mod 512"
    by (metis div_mult_self4 zero_neq_numeral, metis mod_mult_self4)
  then show ?thesis by (simp add: disk_byte_def add.commute add.left_commute)
qed

lemma seg_address:
  assumes "seg_ok p" "i < max (unat (p_filesz p)) (unat (p_memsz p))"
  shows "unat (p_va p + of_nat i) = unat (p_va p) + i" "unat (p_va p + of_nat i) \<in> touched p"
proof -
  have "unat (p_va p) + i < 2 ^ 64" using seg_ok_ram(1) [OF assms(1)] assms(2) by simp
  then show u: "unat (p_va p + of_nat i) = unat (p_va p) + i" by (simp add: unat_word_ariths unat_of_nat)
  show "unat (p_va p + of_nat i) \<in> touched p" unfolding u using assms(2) seg_bounds(1,2) [of p] by (auto simp: touched_def max_def split: if_splits)
qed

lemma seg_loaded_cong:
  assumes "seg_loaded F m p" "seg_ok p" "\<And>x. unat x \<in> touched p \<Longrightarrow> m' x = m x"
  shows "seg_loaded F m' p"
  using assms seg_address(2) [OF assms(2)] by (auto simp: seg_loaded_def)

lemma read_elf_program_cong:
  assumes "\<And>x. unat x \<in> {0x10000..<0x11000} \<Longrightarrow> m' x = m x" "0x10000 \<le> unat a" "unat a + 56 \<le> 0x11000"
  shows "read_elf_program m' a = read_elf_program m a"
proof -
  have "unat (a + of_nat i) = unat a + i" if "i < 56" for i
    using assms(3) that by (simp add: unat_word_ariths unat_of_nat)
  then have "mem_bytes m' a 56 = mem_bytes m a 56" using assms by (intro mem_bytes_cong assms(1)) auto
  then show ?thesis by (simp add: read_elf_program_def)
qed

section \<open>Kernel files\<close>

text \<open>The ELF structures of a file, given as a function from offsets to bytes.\<close>

definition kernel_header :: "(nat \<Rightarrow> u8) \<Rightarrow> elf_header" where
  "kernel_header F = elf_header_of (map F [0..<64])"

definition kernel_programs :: "(nat \<Rightarrow> u8) \<Rightarrow> elf_program list" where
  "kernel_programs F = map (\<lambda>i. elf_program_of (map (\<lambda>j. F (unat (e_phoff (kernel_header F)) + 56 * i + j)) [0..<56]))
     [0..<unat (e_phnum (kernel_header F))]"

text \<open>A kernel that the loader can load: its program headers are in the first page and its segments do not overlap.\<close>

definition kernel_file_ok :: "(nat \<Rightarrow> u8) \<Rightarrow> bool" where
  "kernel_file_ok F \<longleftrightarrow> e_magic (kernel_header F) = ELF_MAGIC \<and>
     unat (e_phoff (kernel_header F)) + 56 * unat (e_phnum (kernel_header F)) \<le> 0x1000 \<and>
     (\<forall>p \<in> set (kernel_programs F). seg_ok p) \<and> sorted_wrt (\<lambda>p q. touched p \<inter> touched q = {}) (kernel_programs F)"

text \<open>Memory after the first page of the file has been read.\<close>

definition page_read :: "(nat \<Rightarrow> u8) \<Rightarrow> mem \<Rightarrow> mem \<Rightarrow> bool" where
  "page_read F m m1 \<longleftrightarrow> (\<forall>x. m1 x = (if 0x10000 \<le> unat x \<and> unat x < 0x11000 then F (unat x - 0x10000) else m x))"

lemma page_read_bytes:
  assumes "page_read F m m1" "unat k + n \<le> 0x1000"
  shows "mem_bytes m1 (0x10000 + k) n = map (\<lambda>j. F (unat k + j)) [0..<n]"
proof (rule nth_equalityI)
  fix i assume "i < length (mem_bytes m1 (0x10000 + k) n)"
  then have i: "i < n" by simp
  have "unat (0x10000 + k + of_nat i) = 0x10000 + (unat k + i)"
    using assms(2) i by (simp add: unat_word_ariths unat_of_nat)
  then have "m1 (0x10000 + k + of_nat i) = F (unat k + i)"
    using assms i by (simp add: page_read_def)
  then show "mem_bytes m1 (0x10000 + k) n ! i = map (\<lambda>j. F (unat k + j)) [0..<n] ! i" using i by simp
qed simp

lemma page_read_header: "page_read F m m1 \<Longrightarrow> read_elf_header m1 0x10000 = kernel_header F"
  using page_read_bytes [of F m m1 0 64] by (simp add: read_elf_header_def kernel_header_def)

lemma page_read_program:
  assumes "page_read F m m1" "unat (e_phoff (kernel_header F)) + 56 * unat (e_phnum (kernel_header F)) \<le> 0x1000"
    and "i < length (kernel_programs F)"
  shows "read_elf_program m1 (0x10000 + e_phoff (kernel_header F) + 56 * of_nat i) = kernel_programs F ! i"
proof -
  let ?k = "e_phoff (kernel_header F) + 56 * of_nat i"
  have i: "i < unat (e_phnum (kernel_header F))" using assms(3) by (simp add: kernel_programs_def)
  have k: "unat ?k = unat (e_phoff (kernel_header F)) + 56 * i"
    using assms(2) i by (simp add: unat_word_ariths unat_of_nat)
  then have "mem_bytes m1 (0x10000 + ?k) 56 = map (\<lambda>j. F (unat ?k + j)) [0..<56]"
    using assms(2) i by (intro page_read_bytes [OF assms(1)]) simp
  then show ?thesis using i k by (simp add: read_elf_program_def kernel_programs_def add.assoc)
qed

section \<open>Loading on an ATA channel\<close>

context ata_channel
begin

lemma boot_waitdisk_returns:
  "\<exists>d'. boot_waitdisk dev d = Some d' \<and> delay d' = 0 \<and> regs d' = regs d \<and> mode d' = mode d \<and> sector d' = sector d"
proof (induction "delay d" arbitrary: d rule: less_induct)
  case less
  show ?case
  proof (cases "delay d = 0")
    case True
    then have "boot_waitdisk dev d = Some d"
      using ready [OF True] by (subst boot_waitdisk.simps) (auto simp: status_byte_def)
    with True show ?thesis by blast
  next
    case False
    then obtain st d' where d': "dev_inb dev 0x1F7 d = (st, d')" "bit st 7" "delay d' < delay d"
        "regs d' = regs d" "mode d' = mode d" "sector d' = sector d"
      using busy [of d] by auto
    have "st AND 0xC0 \<noteq> 0x40"
    proof
      assume "st AND 0xC0 = 0x40"
      then have "bit (st AND 0xC0) 7 = bit (0x40 :: u8) 7" by simp
      with d'(2) show False by (simp add: bit_and_iff bit_numeral_rec)
    qed
    then have "boot_waitdisk dev d = boot_waitdisk dev d'"
      using d'(1) by (subst boot_waitdisk.simps) simp
    then show ?thesis using less.hyps [OF d'(3)] d'(4-6) by simp
  qed
qed

text \<open>The loader's port writes are those of the driver for the first drive.\<close>

lemma boot_readsect_spec:
  assumes "mode d = Idle" "unat n < 2 ^ 28" "loader_ram (unat dst) 512"
  shows "\<exists>d'. boot_readsect dev dst n (m, d) = Some (store_bytes dst (sector d False (unat n)) m, d') \<and>
    mode d' = Idle \<and> sector d' = sector d"
proof -
  define dr where "dr = \<lparr>channel = 0x1F0, drive = 0\<rparr>"
  obtain d1 where d1: "boot_waitdisk dev d = Some d1" "delay d1 = 0" "mode d1 = Idle" "sector d1 = sector d"
    using boot_waitdisk_returns [of d] assms(1) by auto
  obtain d2 where d2: "select_sector dev dr n 0x20 d1 = dev_outb dev 0x1F7 0x20 d2" "delay d2 = 0" "mode d2 = Idle"
      "sector d2 = sector d1" "regs d2 = select_regs (regs d1) (drive dr) n"
    using select_registers [OF _ d1(2,3), of dr n "0x20"] by (auto simp: dr_def)
  note r = select_regs [of "regs d1" "drive dr" n, folded d2(5)] and n = below_limit [OF assms(2)]
  let ?d = "dev_outb dev 0x1F7 0x20 d2"
  have m: "mode ?d = DataIn (sector d False (unat n))" "sector ?d = sector d"
    using read_command [OF d2(2,3) r(1,2)] r(3,4) d2(4) d1(4) n by (simp_all add: dr_def)
  obtain d3 where d3: "boot_waitdisk dev ?d = Some d3" "delay d3 = 0" "mode d3 = mode ?d" "sector d3 = sector ?d"
    using boot_waitdisk_returns [of ?d] by auto
  obtain d4 where d4: "dev_insl dev 0x1F0 128 d3 = (sector d False (unat n), d4)" "mode d4 = Idle" "sector d4 = sector d3"
    using data_in [OF d3(2), of "sector d False (unat n)"] d3(3) m(1) by auto
  have "boot_readsect dev dst n (m, d) =
      (case boot_waitdisk dev (select_sector dev dr n 0x20 d1) of None \<Rightarrow> None
       | Some d \<Rightarrow> (let (b, d) = dev_insl dev 0x1F0 (512 div 4) d in Some (store_bytes dst b m, d)))"
    using d1(1) assms(3)
    by (simp add: boot_readsect_def select_sector_def Let_def port_def dr_def split: option.split prod.split)
  then show ?thesis using d2(1) d3 d4 m(2) by simp
qed

text \<open>\<open>N\<close> sectors are read when the end is inside the last of them.\<close>

lemma read_sectors_spec:
  assumes "mode d = Idle" "\<And>n. length (sector d False n) = 512"
    and "unat end_ptr \<le> unat ptr + 512 * N" "N = 0 \<or> unat ptr + 512 * (N - 1) < unat end_ptr"
    and "loader_ram (unat ptr) (512 * N)" "unat src + N \<le> 2 ^ 28"
  shows "\<exists>m' d'. read_sectors dev ptr end_ptr src (m, d) = Some (m', d') \<and> mode d' = Idle \<and> sector d' = sector d \<and>
    (\<forall>x. m' x = (if unat ptr \<le> unat x \<and> unat x < unat ptr + 512 * N then disk_byte (sector d False) (unat src) (unat x - unat ptr) else m x))"
  using assms
proof (induction N arbitrary: ptr src m d)
  case 0
  then show ?case by (subst read_sectors.simps) (auto simp: word_less_nat_alt)
next
  case (Suc N)
  let ?S = "sector d False"
  obtain d1 where d1: "boot_readsect dev ptr src (m, d) = Some (store_bytes ptr (?S (unat src)) m, d1)"
      "mode d1 = Idle" "sector d1 = sector d"
    using boot_readsect_spec [OF Suc.prems(1), of src ptr m] Suc.prems(5,6) by (auto simp: loader_ram_def)
  have p: "unat (ptr + 512) = unat ptr + 512" and n: "unat (src + 1) = unat src + 1" and top: "unat ptr + 512 * Suc N < 2 ^ 64"
    using Suc.prems(5,6) by (auto simp: unat_word_ariths loader_ram_def)
  have lt: "ptr < end_ptr" using Suc.prems(4) by (simp add: word_less_nat_alt)
  have "\<And>n. length (sector d1 False n) = 512" "unat end_ptr \<le> unat (ptr + 512) + 512 * N"
      "N = 0 \<or> unat (ptr + 512) + 512 * (N - 1) < unat end_ptr" "loader_ram (unat (ptr + 512)) (512 * N)" "unat (src + 1) + N \<le> 2 ^ 28"
    unfolding p n d1(3) using Suc.prems(2-6) by (auto simp: loader_ram_def split: nat_diff_split)
  note IH = Suc.IH [OF d1(2) this, of "store_bytes ptr (?S (unat src)) m", unfolded d1(3) p n]
  then obtain m' d' where m': "read_sectors dev (ptr + 512) end_ptr (src + 1) (store_bytes ptr (?S (unat src)) m, d1) = Some (m', d')"
      "mode d' = Idle" "sector d' = sector d"
      "\<forall>x. m' x = (if unat ptr + 512 \<le> unat x \<and> unat x < unat ptr + 512 + 512 * N
        then disk_byte ?S (unat src + 1) (unat x - (unat ptr + 512)) else store_bytes ptr (?S (unat src)) m x)"
    by blast
  have "m' x = (if unat ptr \<le> unat x \<and> unat x < unat ptr + 512 * Suc N then disk_byte ?S (unat src) (unat x - unat ptr) else m x)" for x
    using m'(4) Suc.prems(2) top disk_byte_next [of "unat x - unat ptr" ?S "unat src"]
    by (auto simp: store_bytes_unat disk_byte_def diff_diff_left)
  moreover have "read_sectors dev ptr end_ptr src (m, d) = Some (m', d')"
    using m'(1) d1(1) lt by (subst read_sectors.simps) simp
  ultimately show ?case using m'(2,3) by blast
qed

lemma boot_readseg_spec:
  assumes "mode d = Idle" "\<And>n. length (sector d False n) = 512"
    and "loader_ram (512 * (unat va div 512)) (max (512 * ((unat va + unat f + 511) div 512)) (unat va + unat z) - 512 * (unat va div 512))"
      "unat src + (unat va mod 512 + unat f + 511) div 512 \<le> 2 ^ 28"
  shows "\<exists>m' d'. boot_readseg dev va src f z (m, d) = Some (m', d') \<and> mode d' = Idle \<and> sector d' = sector d \<and>
    (\<forall>x. m' x = (if unat va + unat f \<le> unat x \<and> unat x < unat va + unat z then 0
       else if 512 * (unat va div 512) \<le> unat x \<and> unat x < 512 * ((unat va + unat f + 511) div 512)
       then disk_byte (sector d False) (unat src) (unat x - 512 * (unat va div 512)) else m x))"
proof -
  define q u where "q = unat va div 512" and "u = (unat va + unat f + 511) div 512"
  have qu: "512 * q \<le> unat va" "unat va < 512 * q + 512" "unat va + unat f \<le> 512 * u" "512 * u \<le> unat va + unat f + 511"
    unfolding q_def u_def by linarith+
  note ram = assms(3) [folded q_def u_def]
  have ends: "unat (va + f) = unat va + unat f" "unat (z + va) = unat va + unat z"
    using ram qu by (auto simp: unat_word_ariths loader_ram_def)
  have "unat va + unat f + 511 = 512 * q + (unat va mod 512 + unat f + 511)" by (simp add: q_def)
  then have "u = q + (unat va mod 512 + unat f + 511) div 512"
    unfolding u_def by (metis div_mult_self4 zero_neq_numeral)
  then have le: "q \<le> u" "unat src + (u - q) \<le> 2 ^ 28" using assms(4) by simp_all
  have start: "unat (va AND NOT (512 - 1)) = 512 * q" using round_down [of va] by (simp add: q_def)
  have "\<exists>m' d'. read_sectors dev (va AND NOT (512 - 1)) (va + f) src (m, d) = Some (m', d') \<and> mode d' = Idle \<and> sector d' = sector d \<and>
    (\<forall>x. m' x = (if 512 * q \<le> unat x \<and> unat x < 512 * q + 512 * (u - q)
       then disk_byte (sector d False) (unat src) (unat x - 512 * q) else m x))"
    unfolding start [symmetric] by (rule read_sectors_spec [OF assms(1,2)]) (use start ends qu le ram in \<open>auto simp: loader_ram_def\<close>)
  then obtain m' d' where m': "read_sectors dev (va AND NOT (512 - 1)) (va + f) src (m, d) = Some (m', d')" "mode d' = Idle"
      "sector d' = sector d" "\<forall>x. m' x = (if 512 * q \<le> unat x \<and> unat x < 512 * u
       then disk_byte (sector d False) (unat src) (unat x - 512 * q) else m x)"
    using le(1) by (auto simp: diff_mult_distrib2)
  obtain m2 where m2: "clear_bss (va + f) (z + va) m' = Some m2"
      "\<forall>x. m2 x = (if unat va + unat f \<le> unat x \<and> unat x < unat va + unat z then 0 else m' x)"
    using clear_bss_eq [OF ram, of "va + f" "z + va" m'] qu unfolding ends by auto
  then have "boot_readseg dev va src f z (m, d) = Some (m2, d')"
    using m'(1) unfolding boot_readseg_def Let_def by simp
  then show ?thesis using m'(2-4) m2(2) by (simp add: q_def u_def)
qed

lemma boot_readseg_program:
  assumes "mode d = Idle" "\<And>n. length (sector d False n) = 512" "seg_ok p"
  shows "\<exists>m' d'. boot_readseg dev (p_va p) (ucast (p_offset p div 512 + 1)) (p_filesz p) (p_memsz p) (m, d) = Some (m', d') \<and>
    mode d' = Idle \<and> sector d' = sector d \<and> (\<forall>x. unat x \<notin> touched p \<longrightarrow> m' x = m x) \<and> seg_loaded (disk_byte (sector d False) 1) m' p"
proof -
  let ?va = "unat (p_va p)" and ?f = "unat (p_filesz p)" and ?z = "unat (p_memsz p)" and ?off = "unat (p_offset p)"
  let ?S = "sector d False" and ?src = "ucast (p_offset p div 512 + 1) :: u32"
  have small: "?off div 512 + 1 < 2 ^ 32" "(?off + ?f) div 512 + 3 \<le> 2 ^ 28" and same: "?va mod 512 = ?off mod 512"
    using assms(3) div_le_mono [of ?off "?off + ?f" 512] by (simp_all add: seg_ok_def)
  then have src: "unat ?src = ?off div 512 + 1" by (simp add: unat_ucast unat_word_ariths unat_div)
  have "?off div 512 + (?off mod 512 + ?f + 511) div 512 = (?off + ?f + 511) div 512"
    using div_mult_self4 [of 512 "?off div 512" "?off mod 512 + ?f + 511"] by simp
  moreover have "(?off + ?f + 511) div 512 \<le> (?off + ?f) div 512 + 1" by linarith
  ultimately have "unat ?src + (?va mod 512 + ?f + 511) div 512 \<le> 2 ^ 28" using small(2) unfolding src same by linarith
  moreover note assms(3) [unfolded seg_ok_def, THEN conjunct1, unfolded seg_start_def seg_sectors_end_def]
  ultimately obtain m' d' where m': "boot_readseg dev (p_va p) ?src (p_filesz p) (p_memsz p) (m, d) = Some (m', d')"
      "mode d' = Idle" "sector d' = sector d"
      "\<forall>x. m' x = (if ?va + ?f \<le> unat x \<and> unat x < ?va + ?z then 0
         else if seg_start p \<le> unat x \<and> unat x < seg_sectors_end p then disk_byte ?S (unat ?src) (unat x - seg_start p) else m x)"
    using boot_readseg_spec [OF assms(1,2), of "p_va p" "p_filesz p" "p_memsz p" ?src m]
    unfolding seg_start_def seg_sectors_end_def by blast
  note bounds = seg_bounds [of p]
  have out: "m' x = m x" if "unat x \<notin> touched p" for x
    using that m'(4) bounds(1,2) by (auto simp: touched_def)
  have "m' (p_va p + of_nat i) = disk_byte ?S 1 (?off + i)" if i: "i < ?f" for i
  proof -
    have "unat (p_va p + of_nat i) = ?va + i" using seg_address(1) [OF assms(3), of i] i by simp
    moreover have "?va + i - seg_start p = ?off mod 512 + i" using bounds(1,3) same by simp
    ultimately have "m' (p_va p + of_nat i) = disk_byte ?S (?off div 512 + 1) (?off mod 512 + i)"
      using m'(4) i bounds(1,2) src by simp
    then show ?thesis by (simp only: disk_byte_within)
  qed
  moreover have "m' (p_va p + of_nat i) = 0" if "?f \<le> i" "i < ?z" for i
    using m'(4) seg_address(1) [OF assms(3), of i] that by simp
  ultimately have "seg_loaded (disk_byte ?S 1) m' p" by (simp add: seg_loaded_def)
  then show ?thesis using m'(1-3) out by blast
qed

lemma load_segments_spec:
  assumes "mode d = Idle" "\<And>n. length (sector d False n) = 512"
    and "\<forall>i < length ps. read_elf_program m (ph + 56 * of_nat i) = ps ! i"
    and "0x10000 \<le> unat ph" "unat ph + 56 * length ps \<le> 0x11000"
    and "\<forall>p \<in> set ps. seg_ok p" "sorted_wrt (\<lambda>p q. touched p \<inter> touched q = {}) ps"
  shows "\<exists>m' d'. load_segments dev ph (ph + 56 * of_nat (length ps)) (m, d) = Some (m', d') \<and> mode d' = Idle \<and> sector d' = sector d \<and>
    (\<forall>x. unat x \<notin> \<Union> (touched ` set ps) \<longrightarrow> m' x = m x) \<and> (\<forall>p \<in> set ps. seg_loaded (disk_byte (sector d False) 1) m' p)"
  using assms
proof (induction ps arbitrary: ph m d)
  case Nil
  then show ?case by (subst load_segments.simps) simp
next
  case (Cons p ps)
  let ?eph = "ph + 56 * of_nat (length (p # ps))"
  have ph: "unat (ph + 56) = unat ph + 56" using Cons.prems(5) by (simp add: unat_word_ariths)
  have "unat ?eph = unat ph + 56 * length (p # ps)"
    using Cons.prems(5) by (simp add: unat_word_ariths unat_of_nat del: of_nat_Suc)
  then have lt: "ph < ?eph" by (simp add: word_less_nat_alt)
  have p: "read_elf_program m ph = p" "seg_ok p" using Cons.prems(3,6) by (auto dest: spec [where x = 0])
  obtain m1 d1 where 1: "boot_readseg dev (p_va p) (ucast (p_offset p div 512 + 1)) (p_filesz p) (p_memsz p) (m, d) = Some (m1, d1)"
      "mode d1 = Idle" "sector d1 = sector d" "\<forall>x. unat x \<notin> touched p \<longrightarrow> m1 x = m x" "seg_loaded (disk_byte (sector d False) 1) m1 p"
    using boot_readseg_program [OF Cons.prems(1,2) p(2), of m] by blast
  have keep: "m1 x = m x" if "unat x \<in> {0x10000..<0x11000}" for x using 1(4) p(2) that by (auto simp: seg_ok_def)
  have "read_elf_program m1 (ph + 56 + 56 * of_nat i) = ps ! i" if i: "i < length ps" for i
  proof -
    have "unat (ph + 56 + 56 * of_nat i) = unat ph + 56 + 56 * i"
      using Cons.prems(5) i by (simp add: unat_word_ariths unat_of_nat)
    then have "read_elf_program m1 (ph + 56 + 56 * of_nat i) = read_elf_program m (ph + 56 + 56 * of_nat i)"
      using Cons.prems(4,5) i by (intro read_elf_program_cong keep) auto
    then show ?thesis using Cons.prems(3) [rule_format, of "Suc i"] i by (simp add: algebra_simps)
  qed
  then obtain m' d' where m': "load_segments dev (ph + 56) (ph + 56 + 56 * of_nat (length ps)) (m1, d1) = Some (m', d')"
      "mode d' = Idle" "sector d' = sector d" "\<forall>x. unat x \<notin> \<Union> (touched ` set ps) \<longrightarrow> m' x = m1 x"
      "\<forall>p \<in> set ps. seg_loaded (disk_byte (sector d False) 1) m' p"
    using Cons.IH [OF 1(2), of m1 "ph + 56"] Cons.prems(2,4-7) 1(3) ph by auto
  have "seg_loaded (disk_byte (sector d False) 1) m' p"
  proof (rule seg_loaded_cong [OF 1(5) p(2)])
    fix x :: u64 assume "unat x \<in> touched p"
    then have "unat x \<notin> \<Union> (touched ` set ps)" using Cons.prems(7) by auto
    then show "m' x = m1 x" using m'(4) by blast
  qed
  moreover have "load_segments dev ph ?eph (m, d) = Some (m', d')"
    using lt p(1) 1(1) m'(1) Cons.prems(5) by (subst load_segments.simps) (simp add: algebra_simps)
  ultimately show ?case using m'(2-5) 1(4) by auto
qed

lemma boot_reads_page:
  assumes "mode d = Idle" "\<And>n. length (sector d False n) = 512"
  shows "\<exists>m1 d1. boot_readseg dev 0x10000 1 0x1000 0x1000 (m, d) = Some (m1, d1) \<and> mode d1 = Idle \<and> sector d1 = sector d \<and>
    page_read (disk_byte (sector d False) 1) m m1"
proof -
  have n: "unat (0x10000 :: u64) = 0x10000" "unat (0x1000 :: u64) = 0x1000" "unat (1 :: u32) = 1" by simp_all
  have ram: "loader_ram (512 * (0x10000 div 512)) (max (512 * ((0x10000 + 0x1000 + 511) div 512)) (0x10000 + 0x1000) - 512 * (0x10000 div 512))"
    by (simp add: loader_ram_def)
  from boot_readseg_spec [OF assms, of "0x10000" "0x1000" "0x1000" 1 m, unfolded n] obtain m1 d1
    where 1: "boot_readseg dev 0x10000 1 0x1000 0x1000 (m, d) = Some (m1, d1)" "mode d1 = Idle" "sector d1 = sector d"
      "\<forall>x. m1 x = (if 0x10000 + 0x1000 \<le> unat x \<and> unat x < 0x10000 + 0x1000 then 0
         else if 512 * (0x10000 div 512) \<le> unat x \<and> unat x < 512 * ((0x10000 + 0x1000 + 511) div 512)
         then disk_byte (sector d False) 1 (unat x - 512 * (0x10000 div 512)) else m x)"
    using ram by auto
  then show ?thesis by (auto simp: page_read_def)
qed

lemma boot_spec:
  assumes "mode d = Idle" "\<And>n. length (sector d False n) = 512" "kernel_file_ok (disk_byte (sector d False) 1)"
  defines "F \<equiv> disk_byte (sector d False) 1"
  shows "\<exists>m' d'. boot dev (m, d) = Some (e_entry (kernel_header F), m', d') \<and>
    mode d' = Idle \<and> sector d' = sector d \<and> (\<forall>p \<in> set (kernel_programs F). seg_loaded F m' p) \<and>
    (\<forall>x. unat x \<notin> {0x10000..<0x11000} \<union> \<Union> (touched ` set (kernel_programs F)) \<longrightarrow> m' x = m x)"
proof -
  let ?h = "kernel_header F" and ?ps = "kernel_programs F"
  have ok: "e_magic ?h = ELF_MAGIC" "unat (e_phoff ?h) + 56 * unat (e_phnum ?h) \<le> 0x1000"
      "\<forall>p \<in> set ?ps. seg_ok p" "sorted_wrt (\<lambda>p q. touched p \<inter> touched q = {}) ?ps"
    using assms(3) by (auto simp: kernel_file_ok_def F_def)
  obtain m1 d1 where 1: "boot_readseg dev 0x10000 1 0x1000 0x1000 (m, d) = Some (m1, d1)" "mode d1 = Idle" "sector d1 = sector d"
      "page_read F m m1"
    using boot_reads_page [OF assms(1,2), of m] unfolding F_def by blast
  note head = page_read_header [OF 1(4)]
  have len: "length ?ps = unat (e_phnum ?h)" by (simp add: kernel_programs_def)
  have ph: "unat (0x10000 + e_phoff ?h) = 0x10000 + unat (e_phoff ?h)" using ok(2) by (simp add: unat_word_ariths)
  obtain m' d' where m': "load_segments dev (0x10000 + e_phoff ?h) (0x10000 + e_phoff ?h + 56 * of_nat (length ?ps)) (m1, d1) = Some (m', d')"
      "mode d' = Idle" "sector d' = sector d1" "\<forall>x. unat x \<notin> \<Union> (touched ` set ?ps) \<longrightarrow> m' x = m1 x" "\<forall>p \<in> set ?ps. seg_loaded F m' p"
    using load_segments_spec [OF 1(2), of ?ps m1 "0x10000 + e_phoff ?h"] 1(3) assms(2) ok(2-4) len ph
      page_read_program [OF 1(4) ok(2)] by (auto simp: F_def)
  have "m' x = m1 x" if "unat x \<in> {0x10000..<0x11000}" for x
  proof -
    have "touched p \<inter> {0x10000..<0x11000} = {}" if "p \<in> set ?ps" for p using ok(3) that by (simp add: seg_ok_def)
    then have "unat x \<notin> \<Union> (touched ` set ?ps)" using that by blast
    then show ?thesis using m'(4) by blast
  qed
  then have "page_read F m' m'" using 1(4) by (simp add: page_read_def)
  then have entry: "read_elf_header m' 0x10000 = ?h" by (rule page_read_header)
  have "ucast (e_phnum ?h) = (of_nat (length ?ps) :: u64)" by (simp add: len)
  then have "boot dev (m, d) = Some (e_entry ?h, m', d')"
    using 1(1) head entry ok(1) m'(1) by (simp add: boot_def check_magic_eq Let_def)
  moreover have "m1 x = m x" if "unat x \<notin> {0x10000..<0x11000}" for x
    using 1(4) that by (auto simp: page_read_def)
  ultimately show ?thesis using m' 1(3) by simp
qed

lemma boot_hangs:
  assumes "mode d = Idle" "\<And>n. length (sector d False n) = 512" "e_magic (kernel_header (disk_byte (sector d False) 1)) \<noteq> ELF_MAGIC"
  shows "boot dev (m, d) = None"
proof -
  obtain m1 d1 where 1: "boot_readseg dev 0x10000 1 0x1000 0x1000 (m, d) = Some (m1, d1)" "page_read (disk_byte (sector d False) 1) m m1"
    using boot_reads_page [OF assms(1,2), of m] by blast
  then show ?thesis using page_read_header [OF 1(2)] assms(3) by (simp add: boot_def check_magic_eq)
qed

end

end
