(* ===== verification/Boot_Disk.thy ===== *)
theory Boot_Disk
  imports Boot_Loader
begin

text \<open>
  The tool _build/mkbootdisk.c that makes the bootable disk: it writes the boot sector with its signature and then files or
  gaps, each file padded to whole sectors, up to at least 1024 sectors; or it writes into the kernel partition of a
  disk; or it puts a multiboot header into a kernel file.

  The file that \<open>diskfd\<close> stands for is a list of bytes with an offset. The operating system decides how much a call of
  \<open>write\<close> writes: the outcomes of the next calls are a list, and a call after the last of them writes everything. The files
  that can be opened are a function from names to bytes. Every message of the program is a value of the error
  type; all of them end in \<open>usage\<close>, which leaves the program with the file as it is at that moment.
\<close>

section \<open>State\<close>

datatype mk_error = Usage | CannotOpen string | MoreData | WriteFailed | WriteEnd | ReadFailed | NoPartition string
  | BootBlockTooLarge string nat | CannotSkip nat nat | NotElf string | ElfHeaderTooLarge string | Endless

datatype write_outcome = Wrote nat | Interrupted | Failed | WroteNothing

record disk_file =
  contents :: bytes
  position :: nat
  maxoff :: nat
  curoff :: nat
  outcomes :: "write_outcome list"
  using_partition :: "(nat \<times> nat \<times> nat) option"

text \<open>A result, or the message and the file as it is when the program is left.\<close>

type_synonym 'a mk = "(mk_error \<times> disk_file) + 'a"

definition and_then :: "'a mk \<Rightarrow> ('a \<Rightarrow> 'b mk) \<Rightarrow> 'b mk" where
  "and_then r f = (case r of Inl e \<Rightarrow> Inl e | Inr a \<Rightarrow> f a)"

lemma and_then_simps [simp]: "and_then (Inl e) f = Inl e" "and_then (Inr a) f = f a"
  by (simp_all add: and_then_def)

lemma and_then_assoc: "and_then (and_then r f) g = and_then r (\<lambda>a. and_then (f a) g)"
  by (cases r) simp_all

section \<open>Writing\<close>

text \<open>Bytes written at the offset of the file, over what is there; a gap before the offset reads as zeros.\<close>

definition write_at :: "nat \<Rightarrow> bytes \<Rightarrow> bytes \<Rightarrow> bytes" where
  "write_at pos data b = take pos b @ replicate (pos - length b) 0 @ data @ drop (pos + length data) b"

definition put_bytes :: "bytes \<Rightarrow> disk_file \<Rightarrow> disk_file" where
  "put_bytes data s = s\<lparr>contents := write_at (position s) data (contents s), position := position s + length data,
     curoff := curoff s + length data\<rparr>"

text \<open>The loop of \<open>diskwrite\<close>; a short write takes at least one byte.\<close>

function write_loop :: "bytes \<Rightarrow> disk_file \<Rightarrow> disk_file mk" where
  "write_loop data s =
     (if data = [] then Inr s
      else
        (case outcomes s of
           [] \<Rightarrow> write_loop [] (put_bytes data s)
         | Wrote n # os \<Rightarrow>
             let w = min (max n 1) (length data)
             in write_loop (drop w data) (put_bytes (take w data) (s\<lparr>outcomes := os\<rparr>))
         | Interrupted # os \<Rightarrow> write_loop data (s\<lparr>outcomes := os\<rparr>)
         | Failed # os \<Rightarrow> Inl (WriteFailed, s\<lparr>outcomes := os\<rparr>)
         | WroteNothing # os \<Rightarrow> Inl (WriteEnd, s\<lparr>outcomes := os\<rparr>)))"
  by pat_completeness auto
termination
  by (relation "measures [\<lambda>(data, s). length (outcomes s), \<lambda>(data, s). length data]") (auto simp: put_bytes_def)

declare write_loop.simps [simp del]

definition diskwrite :: "bytes \<Rightarrow> disk_file \<Rightarrow> disk_file mk" where
  "diskwrite data s =
     (if maxoff s \<noteq> 0 \<and> maxoff s < curoff s + length data then Inl (MoreData, s) else write_loop data s)"

section \<open>Partitions\<close>

definition readsect :: "nat \<Rightarrow> disk_file \<Rightarrow> (bytes \<times> disk_file) mk" where
  "readsect sectno s =
     (let pos = sectno mod 2 ^ 32 * 512 in
      if pos + 512 \<le> length (contents s) then Inr (peek 512 pos (contents s), s\<lparr>position := pos + 512\<rparr>)
      else Inl (ReadFailed, s\<lparr>position := pos\<rparr>))"

text \<open>The partition table in a sector: the signature and the fields of descriptor \<open>i\<close>.\<close>

definition has_ptable :: "bytes \<Rightarrow> bool" where
  "has_ptable buf \<longleftrightarrow> buf ! 510 = 0x55 \<and> buf ! 511 = 0xAA"

record Partitiondesc =
  pboot :: u8
  chs_begin :: bytes
  ptype :: u8
  chs_end :: bytes
  lba_start :: u32
  lba_length :: u32

definition ptable :: "bytes \<Rightarrow> nat \<Rightarrow> Partitiondesc" where
  "ptable buf i =
     (let b = drop (446 + 16 * i) buf in
      \<lparr>pboot = b ! 0, chs_begin = peek 3 1 b, ptype = b ! 4, chs_end = peek 3 5 b, lba_start = le_field b 8 4, lba_length = le_field b 12 4\<rparr>)"

partial_function (option) search_table ::
  "nat \<Rightarrow> nat \<Rightarrow> nat \<Rightarrow> nat \<Rightarrow> bytes \<Rightarrow> disk_file \<Rightarrow> (nat \<times> disk_file) mk option" where
  "search_table i partition_sect extended_sect partoff buf s =
     (if 4 \<le> i then Some (Inr (0, s))
      else
        (let p = ptable buf i; start = unat (lba_start p) in
         if lba_length p = 0 then search_table (Suc i) partition_sect extended_sect partoff buf s
         else if ptype p = 0x27 then
           Some (Inr (1, s\<lparr>position := (partition_sect + start) * 512, maxoff := unat (lba_length p) * 512,
             using_partition := Some (partoff + i + 1, partition_sect + start, unat (lba_length p))\<rparr>))
         else if ptype p = 0x05 \<or> ptype p = 0x0F \<or> ptype p = 0x85 then
           (case readsect (start + extended_sect) s of
              Inl err \<Rightarrow> Some (Inl err)
            | Inr (buf', s) \<Rightarrow>
                Option.bind
                  (if has_ptable buf' then
                     search_table 0 (start + extended_sect) (if extended_sect = 0 then start else extended_sect)
                       (if partoff \<noteq> 0 then partoff + 1 else 4) buf' s
                   else Some (Inr (0, s)))
                  (\<lambda>r. case r of
                     Inl err \<Rightarrow> Some (Inl err)
                   | Inr (found, s) \<Rightarrow> if 0 < found then Some (Inr (found, s))
                       else search_table (Suc i) partition_sect extended_sect partoff buf s))
         else search_table (Suc i) partition_sect extended_sect partoff buf s))"

definition find_partition :: "nat \<Rightarrow> nat \<Rightarrow> nat \<Rightarrow> disk_file \<Rightarrow> (nat \<times> disk_file) mk" where
  "find_partition partition_sect extended_sect partoff s =
     and_then (readsect partition_sect s) (\<lambda>(buf, s).
     if \<not> has_ptable buf then Inr (0, s)
     else (case search_table 0 partition_sect extended_sect partoff buf s of None \<Rightarrow> Inl (Endless, s) | Some r \<Rightarrow> r))"

section \<open>Files\<close>

text \<open>\<open>files\<close> says which names can be opened for reading, and what the files contain.\<close>

definition fopencheck :: "(string \<Rightarrow> bytes option) \<Rightarrow> string \<Rightarrow> disk_file \<Rightarrow> bytes mk" where
  "fopencheck files name s = (case files name of None \<Rightarrow> Inl (CannotOpen name, s) | Some f \<Rightarrow> Inr f)"

lemma fopencheck_found [simp]: "files name = Some f \<Longrightarrow> fopencheck files name s = Inr f"
  by (simp add: fopencheck_def)

lemma fopencheck_eq_Inr [simp]: "fopencheck files name s = Inr f \<longleftrightarrow> files name = Some f"
  by (simp add: fopencheck_def split: option.splits)

section \<open>Multiboot\<close>

definition multiboot_header :: bytes where
  "multiboot_header = le_enc 4 0x1BADB002 @ le_enc 4 0 @ le_enc 4 (unat (- 0x1BADB002 :: u32))"

definition do_multiboot :: "(string \<Rightarrow> bytes option) \<Rightarrow> string \<Rightarrow> disk_file \<Rightarrow> disk_file mk" where
  "do_multiboot files filename s =
     (case files filename of
        None \<Rightarrow> Inl (CannotOpen filename, s)
      | Some b \<Rightarrow>
          and_then (readsect 0 (s\<lparr>contents := b, position := 0\<rparr>)) (\<lambda>(buf, s).
          let elfh = elf_header_of buf in
          if e_magic elfh \<noteq> 0x464C457F then Inl (NotElf filename, s)
          else
            let off = e_phoff elfh + 56 * ucast (e_phnum elfh) in
            if 4096 - 12 \<le> off then Inl (ElfHeaderTooLarge filename, s)
            else diskwrite multiboot_header (s\<lparr>position := unat off\<rparr>)))"

section \<open>Arguments\<close>

text \<open>\<open>strtoul\<close> with base 0 on a string that starts with a digit: the value and what is left.\<close>

definition digit_value :: "char \<Rightarrow> nat option" where
  "digit_value c =
     (let n = of_char c in
      if 48 \<le> n \<and> n \<le> 57 then Some (n - 48)
      else if 97 \<le> n \<and> n \<le> 122 then Some (n - 87)
      else if 65 \<le> n \<and> n \<le> 90 then Some (n - 55)
      else None)"

definition is_digit :: "nat \<Rightarrow> char \<Rightarrow> bool" where
  "is_digit base c = (case digit_value c of None \<Rightarrow> False | Some v \<Rightarrow> v < base)"

fun read_digits :: "nat \<Rightarrow> nat \<Rightarrow> string \<Rightarrow> nat \<times> string" where
  "read_digits base acc [] = (acc, [])"
| "read_digits base acc (c # cs) =
     (if is_digit base c then read_digits base (acc * base + the (digit_value c)) cs else (acc, c # cs))"

definition strtoul :: "string \<Rightarrow> nat \<times> string" where
  "strtoul t =
     (let (v, rest) =
        (if 3 \<le> length t \<and> t ! 0 = CHR ''0'' \<and> (t ! 1 = CHR ''x'' \<or> t ! 1 = CHR ''X'') \<and> is_digit 16 (t ! 2) then read_digits 16 0 (drop 2 t)
         else if t \<noteq> [] \<and> hd t = CHR ''0'' then read_digits 8 0 t
         else read_digits 10 0 t)
      in (min v (2 ^ 64 - 1), rest))"

text \<open>The sector of an argument of the form \<open>@SECNUM\<close>.\<close>

definition skip_target :: "string \<Rightarrow> nat option" where
  "skip_target arg =
     (if 2 \<le> length arg \<and> arg ! 0 = CHR ''@'' \<and> is_digit 10 (arg ! 1) then
        let (v, rest) = strtoul (tl arg) in if rest = [] then Some v else None
      else None)"

section \<open>The image\<close>

abbreviation (input) zerobuf :: bytes where "zerobuf \<equiv> replicate 512 0"

text \<open>Zero sectors up to a given one.\<close>

function zero_sectors :: "nat \<Rightarrow> nat \<Rightarrow> disk_file \<Rightarrow> (nat \<times> disk_file) mk" where
  "zero_sectors target nsectors s =
     (if nsectors < target then and_then (diskwrite zerobuf s) (zero_sectors target (Suc nsectors)) else Inr (nsectors, s))"
  by pat_completeness auto
termination
  by (relation "measure (\<lambda>(target, n, s). target - n)") auto

declare zero_sectors.simps [simp del]

text \<open>The bytes of a file in blocks of 4096, and the padding after them.\<close>

function copy_blocks :: "bytes \<Rightarrow> nat \<Rightarrow> disk_file \<Rightarrow> (nat \<times> disk_file) mk" where
  "copy_blocks f pos s =
     (if f = [] then Inr (pos, s)
      else and_then (diskwrite (take 4096 f) s) (copy_blocks (drop 4096 f) (pos + length (take 4096 f))))"
  by pat_completeness auto
termination
  by (relation "measure (\<lambda>(f, pos, s). length f)") auto

declare copy_blocks.simps [simp del]

definition copy_file :: "bytes \<Rightarrow> nat \<Rightarrow> disk_file \<Rightarrow> (nat \<times> disk_file) mk" where
  "copy_file f nsectors s =
     and_then (copy_blocks f 0 s) (\<lambda>(pos, s).
     and_then (if pos mod 512 \<noteq> 0
               then and_then (diskwrite (take (512 - pos mod 512) zerobuf) s) (\<lambda>s. Inr (pos + (512 - pos mod 512), s))
               else Inr (pos, s)) (\<lambda>(pos, s).
     Inr (nsectors + pos div 512, s)))"

primrec write_arguments :: "(string \<Rightarrow> bytes option) \<Rightarrow> string list \<Rightarrow> nat \<Rightarrow> disk_file \<Rightarrow> (nat \<times> disk_file) mk" where
  "write_arguments files [] nsectors s = Inr (nsectors, s)"
| "write_arguments files (arg # args) nsectors s =
     and_then
       (case skip_target arg of
          Some target \<Rightarrow> if target < nsectors then Inl (CannotSkip target nsectors, s) else zero_sectors target nsectors s
        | None \<Rightarrow>
            and_then (fopencheck files arg s) (\<lambda>f. copy_file f nsectors s))
       (\<lambda>(nsectors, s). write_arguments files args nsectors s)"

text \<open>The boot sector: at most 510 bytes, padded, with the signature.\<close>

definition write_boot_sector :: "(string \<Rightarrow> bytes option) \<Rightarrow> string \<Rightarrow> disk_file \<Rightarrow> disk_file mk" where
  "write_boot_sector files name s =
     and_then (fopencheck files name s) (\<lambda>f.
     let buf = take 4096 f in
     if 510 < length buf then Inl (BootBlockTooLarge name (length buf), s)
     else diskwrite (buf @ replicate (510 - length buf) 0 @ [0x55, 0xAA]) s)"

definition open_partition :: "(string \<Rightarrow> bytes option) \<Rightarrow> string list \<Rightarrow> disk_file \<Rightarrow> (string list \<times> disk_file) mk" where
  "open_partition files args s =
     (case args of
        [] \<Rightarrow> Inl (Usage, s)
      | name # args \<Rightarrow>
          (case files name of
             None \<Rightarrow> Inl (CannotOpen name, s)
           | Some b \<Rightarrow>
               and_then (find_partition 0 0 0 (s\<lparr>contents := b, position := 0\<rparr>)) (\<lambda>(found, s).
               if found = 0 then Inl (NoPartition name, s) else Inr (args, s))))"

text \<open>The program on its arguments; the result is the file that it has written.\<close>

definition mkbootdisk :: "(string \<Rightarrow> bytes option) \<Rightarrow> write_outcome list \<Rightarrow> string list \<Rightarrow> disk_file mk" where
  "mkbootdisk files os args =
     (let s = \<lparr>contents = [], position = 0, maxoff = 0, curoff = 0, outcomes = os, using_partition = None\<rparr>;
          partition = args \<noteq> [] \<and> hd args = ''-p'' in
      and_then (if partition then open_partition files (tl args) s else Inr (args, s)) (\<lambda>(args, s).
      case args of
        [] \<Rightarrow> Inl (Usage, s)
      | arg # rest \<Rightarrow>
          if arg = ''-m'' then (case rest of [] \<Rightarrow> Inl (Usage, s) | name # _ \<Rightarrow> do_multiboot files name s)
          else
            and_then (if partition then Inr ((0, args), s)
                      else and_then (write_boot_sector files arg s) (\<lambda>s. Inr ((1, rest), s))) (\<lambda>((nsectors, args), s).
            and_then (write_arguments files args nsectors s) (\<lambda>(nsectors, s).
            and_then (zero_sectors 1024 nsectors s) (\<lambda>(nsectors, s). Inr s)))))"

end
