(* ===== verification/Boot_Correct.thy ===== *)
theory Boot_Correct
  imports Boot_Disk
begin

text \<open>
  What the disk tool writes, however the operating system cuts its writes into pieces, and what the boot loader makes of
  it: a disk made from a boot block and a kernel boots that kernel. With a partition the tool stays inside it.
\<close>

section \<open>Writing everything\<close>

definition no_failure :: "write_outcome list \<Rightarrow> bool" where
  "no_failure os \<longleftrightarrow> Failed \<notin> set os \<and> WroteNothing \<notin> set os"

text \<open>The state after all of \<open>xs\<close> was written, up to the outcomes that are left.\<close>

definition appended :: "bytes \<Rightarrow> disk_file \<Rightarrow> disk_file \<Rightarrow> bool" where
  "appended xs s s' \<longleftrightarrow> s' = (put_bytes xs s)\<lparr>outcomes := outcomes s'\<rparr> \<and> no_failure (outcomes s')"

lemma write_at_append: "write_at (pos + length a) b (write_at pos a c) = write_at pos (a @ b) c"
  by (cases "pos \<le> length c") (auto simp: write_at_def min_def ac_simps)

lemma write_at_Nil: "pos \<le> length c \<Longrightarrow> write_at pos [] c = c"
  by (simp add: write_at_def)

lemma put_bytes_append: "put_bytes b (put_bytes a s) = put_bytes (a @ b) s"
  by (simp add: put_bytes_def write_at_append add.assoc)

lemma put_bytes_outcomes: "put_bytes a (s\<lparr>outcomes := os\<rparr>) = (put_bytes a s)\<lparr>outcomes := os\<rparr>"
  by (simp add: put_bytes_def)

lemma put_bytes_fields [simp]: "maxoff (put_bytes a s) = maxoff s" "outcomes (put_bytes a s) = outcomes s"
  "curoff (put_bytes a s) = curoff s + length a" "position (put_bytes a s) = position s + length a"
  "contents (put_bytes a s) = write_at (position s) a (contents s)"
  "using_partition (put_bytes a s) = using_partition s"
  by (simp_all add: put_bytes_def)

lemma appended_trans: "appended xs s t \<Longrightarrow> appended ys t u \<Longrightarrow> appended (xs @ ys) s u"
  unfolding appended_def by (metis put_bytes_append put_bytes_outcomes disk_file.surjective disk_file.update_convs(5))

lemma appended_fields:
  assumes "appended xs s t"
  shows "maxoff t = maxoff s" "curoff t = curoff s + length xs" "position t = position s + length xs" "no_failure (outcomes t)"
    "contents t = write_at (position s) xs (contents s)"
proof -
  obtain os where "t = (put_bytes xs s)\<lparr>outcomes := os\<rparr>" "no_failure os" using assms by (auto simp: appended_def)
  then show "maxoff t = maxoff s" "curoff t = curoff s + length xs" "position t = position s + length xs" "no_failure (outcomes t)"
    "contents t = write_at (position s) xs (contents s)" by simp_all
qed

lemma write_loop_all:
  assumes "no_failure (outcomes s)" "data \<noteq> []"
  shows "\<exists>s'. write_loop data s = Inr s' \<and> appended data s s'"
  using assms
proof (induction data s rule: write_loop.induct)
  case (1 data s)
  have nil: "write_loop [] t = Inr t" for t by (simp add: write_loop.simps)
  show ?case
  proof (cases "outcomes s")
    case Nil
    then have "write_loop data s = Inr (put_bytes data s)" using "1.prems"(2) nil by (subst write_loop.simps) simp
    then show ?thesis using "1.prems"(1) by (simp add: appended_def)
  next
    case (Cons a os)
    have nf: "no_failure os" using "1.prems"(1) Cons by (simp add: no_failure_def)
    show ?thesis
    proof (cases a)
      case (Wrote n)
      define w where "w = min (max n 1) (length data)"
      let ?t = "put_bytes (take w data) (s\<lparr>outcomes := os\<rparr>)"
      have step: "write_loop data s = write_loop (drop w data) ?t"
        using "1.prems"(2) Cons Wrote by (subst write_loop.simps) (simp add: w_def Let_def)
      have first: "appended (take w data) s ?t" using nf by (simp add: appended_def put_bytes_outcomes)
      show ?thesis
      proof (cases "drop w data = []")
        case True
        then show ?thesis using step first nil by simp
      next
        case False
        then obtain s' where "write_loop (drop w data) ?t = Inr s'" "appended (drop w data) ?t s'"
          using "1.IH"(2) [OF "1.prems"(2) Cons Wrote w_def] nf by auto
        then show ?thesis using step appended_trans [OF first] by fastforce
      qed
    next
      case Interrupted
      then have "write_loop data s = write_loop data (s\<lparr>outcomes := os\<rparr>)"
        using "1.prems"(2) Cons by (subst write_loop.simps) simp
      moreover obtain s' where "write_loop data (s\<lparr>outcomes := os\<rparr>) = Inr s'" "appended data (s\<lparr>outcomes := os\<rparr>) s'"
        using "1.IH"(3) [OF "1.prems"(2) Cons Interrupted] nf "1.prems"(2) by auto
      ultimately show ?thesis by (auto simp: appended_def put_bytes_outcomes)
    qed (use "1.prems"(1) Cons in \<open>simp_all add: no_failure_def\<close>)
  qed
qed

section \<open>The image\<close>

text \<open>A file that is written from its start to its end, by writes that do not fail.\<close>

definition ready :: "disk_file \<Rightarrow> bool" where
  "ready s \<longleftrightarrow> position s = length (contents s) \<and> maxoff s = 0 \<and> no_failure (outcomes s)"

definition grown :: "bytes \<Rightarrow> disk_file \<Rightarrow> disk_file \<Rightarrow> bool" where
  "grown xs s s' \<longleftrightarrow> ready s' \<and> contents s' = contents s @ xs"

lemma grown_Nil [simp]: "ready s \<Longrightarrow> grown [] s s"
  by (simp add: grown_def)

lemma grown_trans: "grown xs s t \<Longrightarrow> grown ys t u \<Longrightarrow> grown (xs @ ys) s u"
  by (simp add: grown_def)

lemma grown_ready: "grown xs s t \<Longrightarrow> ready t"
  by (simp add: grown_def)

lemma diskwrite_grows:
  assumes "ready s" "data \<noteq> []"
  shows "\<exists>s'. diskwrite data s = Inr s' \<and> grown data s s'"
proof -
  obtain s' where s': "write_loop data s = Inr s'" "appended data s s'"
    using write_loop_all [of s data] assms by (auto simp: ready_def)
  note f = appended_fields [OF s'(2)]
  have "contents s' = contents s @ data" using f(5) assms(1) by (simp add: ready_def write_at_def)
  then show ?thesis using s'(1) f assms(1) by (simp add: diskwrite_def grown_def ready_def)
qed

lemma zero_sectors_grows:
  assumes "ready s"
  shows "\<exists>s'. zero_sectors target n s = Inr (max target n, s') \<and> grown (replicate (512 * (target - n)) 0) s s'"
  using assms
proof (induction "target - n" arbitrary: n s)
  case 0
  then show ?case by (subst zero_sectors.simps) simp
next
  case (Suc k)
  obtain t where t: "diskwrite (replicate 512 0) s = Inr t" "grown (replicate 512 0) s t"
    using diskwrite_grows [OF Suc.prems, of "replicate 512 0"] by auto
  obtain u where u: "zero_sectors target (Suc n) t = Inr (max target (Suc n), u)" "grown (replicate (512 * (target - Suc n)) 0) t u"
    using Suc.hyps(1) [OF _ grown_ready [OF t(2)], of "Suc n"] Suc.hyps(2) by force
  have "target - n = Suc (target - Suc n)" "n < target" using Suc.hyps(2) by auto
  then have "replicate (512 * (target - n)) (0 :: u8) = replicate 512 0 @ replicate (512 * (target - Suc n)) 0"
    by (simp only: replicate_add [symmetric]) simp
  then show ?case using t(1) u(1) grown_trans [OF t(2) u(2)] \<open>n < target\<close>
    by (subst zero_sectors.simps) simp
qed

lemma copy_blocks_grows:
  assumes "ready s"
  shows "\<exists>s'. copy_blocks f pos s = Inr (pos + length f, s') \<and> grown f s s'"
  using assms
proof (induction f pos s rule: copy_blocks.induct)
  case (1 f pos s)
  show ?case
  proof (cases "f = []")
    case True
    then show ?thesis using "1.prems" by (subst copy_blocks.simps) simp
  next
    case False
    then obtain t where t: "diskwrite (take 4096 f) s = Inr t" "grown (take 4096 f) s t"
      using diskwrite_grows [OF "1.prems", of "take 4096 f"] by auto
    obtain u where u: "copy_blocks (drop 4096 f) (pos + length (take 4096 f)) t =
        Inr (pos + length (take 4096 f) + length (drop 4096 f), u)" "grown (drop 4096 f) t u"
      using "1.IH" [OF False grown_ready [OF t(2)]] by blast
    have "length (take 4096 f) + length (drop 4096 f) = length f" by (simp only: length_append [symmetric] append_take_drop_id)
    then show ?thesis using False t(1) u(1) grown_trans [OF t(2) u(2)]
      by (subst copy_blocks.simps) (simp del: length_take length_drop)
  qed
qed

text \<open>A file padded with zeros to whole sectors.\<close>

definition sector_padded :: "bytes \<Rightarrow> bytes" where
  "sector_padded f = f @ replicate ((512 - length f mod 512) mod 512) 0"

lemma length_sector_padded: "length (sector_padded f) = 512 * ((length f + 511) div 512)"
proof -
  obtain q r where f: "length f = 512 * q + r" "r < 512"
    by (metis div_mult_mod_eq mod_less_divisor mult.commute zero_less_numeral)
  then have m: "length f mod 512 = r" "(length f + 511) div 512 = q + (r + 511) div 512" by (simp_all add: add.assoc)
  have "(r + 511) div 512 = (if r = 0 then 0 else 1)" using f(2) by (auto intro: div_nat_eqI)
  then show ?thesis using f m by (auto simp: sector_padded_def)
qed

lemma copy_file_grows:
  assumes "ready s"
  shows "\<exists>s'. copy_file f n s = Inr (n + length (sector_padded f) div 512, s') \<and> grown (sector_padded f) s s'"
proof -
  obtain t where t: "copy_blocks f 0 s = Inr (length f, t)" "grown f s t"
    using copy_blocks_grows [OF assms, of f 0] by auto
  show ?thesis
  proof (cases "length f mod 512 = 0")
    case True
    then show ?thesis using t by (simp add: copy_file_def sector_padded_def)
  next
    case False
    then have pad: "sector_padded f = f @ take (512 - length f mod 512) (replicate 512 0)"
      "length (sector_padded f) = length f + (512 - length f mod 512)"
      by (simp_all add: sector_padded_def)
    have "take (512 - length f mod 512) (replicate 512 (0 :: u8)) \<noteq> []" by simp
    then obtain u where "diskwrite (take (512 - length f mod 512) (replicate 512 0)) t = Inr u"
        "grown (take (512 - length f mod 512) (replicate 512 0)) t u"
      using diskwrite_grows [OF grown_ready [OF t(2)]] by blast
    then show ?thesis using False t(1) grown_trans [OF t(2)] unfolding pad
      by (auto simp: copy_file_def)
  qed
qed

text \<open>What the arguments ask for, from sector \<open>n\<close> on; \<open>None\<close> for a file that is not there or a skip backwards.\<close>

fun parts :: "(string \<Rightarrow> bytes option) \<Rightarrow> string list \<Rightarrow> nat \<Rightarrow> bytes option" where
  "parts files [] n = Some []"
| "parts files (arg # args) n =
     (case skip_target arg of
        Some target \<Rightarrow>
          if target < n then None else map_option (\<lambda>r. replicate (512 * (target - n)) 0 @ r) (parts files args target)
      | None \<Rightarrow>
          Option.bind (files arg) (\<lambda>f.
            map_option (\<lambda>r. sector_padded f @ r) (parts files args (n + length (sector_padded f) div 512))))"

lemma length_parts: "parts files args n = Some xs \<Longrightarrow> length xs mod 512 = 0"
proof (induction files args n arbitrary: xs rule: parts.induct)
  case (2 files arg args n)
  then show ?case
    by (auto simp: length_sector_padded mod_add_eq [symmetric] split: option.splits if_splits bind_splits)
qed simp

lemma write_arguments_grows:
  assumes "ready s" "parts files args n = Some xs"
  shows "\<exists>s'. write_arguments files args n s = Inr (n + length xs div 512, s') \<and> grown xs s s'"
  using assms
proof (induction files args n arbitrary: s xs rule: parts.induct)
  case (1 files n)
  then show ?case by simp
next
  case (2 files arg args n)
  show ?case
  proof (cases "skip_target arg")
    case (Some target)
    then obtain r where r: "n \<le> target" "parts files args target = Some r" "xs = replicate (512 * (target - n)) 0 @ r"
      using "2.prems"(2) by (auto split: if_splits)
    obtain t where t: "zero_sectors target n s = Inr (target, t)" "grown (replicate (512 * (target - n)) 0) s t"
      using zero_sectors_grows [OF "2.prems"(1), of target n] r(1) by (auto simp: max_def)
    obtain u where u: "write_arguments files args target t = Inr (target + length r div 512, u)" "grown r t u"
      using "2.IH"(2) [OF Some _ grown_ready [OF t(2)] r(2)] r(1) by auto
    show ?thesis using Some r(1) t(1) u(1) grown_trans [OF t(2) u(2)] unfolding r(3)
      by (auto simp: div_add1_eq)
  next
    case None
    then obtain f r where r: "files arg = Some f" "parts files args (n + length (sector_padded f) div 512) = Some r"
        "xs = sector_padded f @ r"
      using "2.prems"(2) by (auto split: bind_splits)
    obtain t where t: "copy_file f n s = Inr (n + length (sector_padded f) div 512, t)" "grown (sector_padded f) s t"
      using copy_file_grows [OF "2.prems"(1), of f n] by auto
    obtain u where u: "write_arguments files args (n + length (sector_padded f) div 512) t =
        Inr (n + length (sector_padded f) div 512 + length r div 512, u)" "grown r t u"
      using "2.IH"(1) [OF None r(1) grown_ready [OF t(2)] r(2)] by auto
    have "length xs div 512 = length (sector_padded f) div 512 + length r div 512"
      unfolding r(3) length_append length_sector_padded by simp
    then show ?thesis using None r(1,3) t(1) u(1) grown_trans [OF t(2) u(2)] by simp
  qed
qed

text \<open>The boot sector, and the whole image.\<close>

definition boot_sector_of :: "bytes \<Rightarrow> bytes" where
  "boot_sector_of b = b @ replicate (510 - length b) 0 @ [0x55, 0xAA]"

lemma boot_sector_fields:
  assumes "length b \<le> 510"
  shows "boot_sector_of b ! 510 = 0x55" "boot_sector_of b ! 511 = 0xAA" "take (length b) (boot_sector_of b) = b"
proof -
  have "(p @ [0x55, 0xAA]) ! 510 = 0x55" "(p @ [0x55, 0xAA]) ! 511 = 0xAA" if "length p = 510" for p :: bytes
    using that by (simp_all add: nth_append)
  from this [of "b @ replicate (510 - length b) 0"]
  show "boot_sector_of b ! 510 = 0x55" "boot_sector_of b ! 511 = 0xAA" using assms by (simp_all add: boot_sector_of_def)
qed (simp add: boot_sector_of_def)

definition boot_image :: "bytes \<Rightarrow> bytes \<Rightarrow> bytes" where
  "boot_image b xs = boot_sector_of b @ xs @ replicate (512 * (1023 - length xs div 512)) 0"

lemma length_image: "length b \<le> 510 \<Longrightarrow> length xs mod 512 = 0 \<Longrightarrow> length (boot_image b xs) = max (512 * 1024) (512 + length xs)"
  by (auto simp: boot_image_def boot_sector_of_def max_def)

lemma mkbootdisk_writes:
  assumes "name \<noteq> ''-p''" "name \<noteq> ''-m''" "files name = Some b" "length b \<le> 510" "parts files args 1 = Some xs" "no_failure os"
  shows "\<exists>s'. mkbootdisk files os (name # args) = Inr s' \<and> contents s' = boot_image b xs"
proof -
  let ?s = "\<lparr>contents = [], position = 0, maxoff = 0, curoff = 0, outcomes = os, using_partition = None\<rparr>"
  have "ready ?s" using assms(6) by (simp add: ready_def)
  then obtain t where t: "diskwrite (boot_sector_of b) ?s = Inr t" "grown (boot_sector_of b) ?s t"
    using diskwrite_grows [of ?s "boot_sector_of b"] by (auto simp: boot_sector_of_def)
  obtain u where u: "write_arguments files args 1 t = Inr (1 + length xs div 512, u)" "grown xs t u"
    using write_arguments_grows [OF grown_ready [OF t(2)] assms(5)] by auto
  obtain v where v: "zero_sectors 1024 (1 + length xs div 512) u = Inr (max 1024 (1 + length xs div 512), v)"
      "grown (replicate (512 * (1024 - (1 + length xs div 512))) 0) u v"
    using zero_sectors_grows [OF grown_ready [OF u(2)]] by blast
  have "contents v = boot_image b xs"
    using grown_trans [OF t(2) grown_trans [OF u(2) v(2)]] by (simp add: grown_def boot_image_def)
  then show ?thesis using assms(1-4) t(1) u(1) v(1)
    by (auto simp: mkbootdisk_def write_boot_sector_def boot_sector_of_def)
qed

section \<open>Booting the image\<close>

text \<open>The bytes of a file, zeros after its end, and the sectors of a disk that holds an image.\<close>

definition file_bytes :: "bytes \<Rightarrow> nat \<Rightarrow> u8" where
  "file_bytes f j = (if j < length f then f ! j else 0)"

definition holds_image :: "(nat \<Rightarrow> bytes) \<Rightarrow> bytes \<Rightarrow> bool" where
  "holds_image S img \<longleftrightarrow> (\<forall>n. length (S n) = 512) \<and> (\<forall>n. 512 * n + 512 \<le> length img \<longrightarrow> S n = peek 512 (512 * n) img)"

lemma holds_image_byte:
  assumes "holds_image S img" "length img mod 512 = 0" "512 + j < length img"
  shows "disk_byte S 1 j = img ! (512 + j)"
proof -
  let ?n = "1 + j div 512"
  have "512 * ?n + j mod 512 = 512 + j" by simp
  moreover obtain k where k: "length img = 512 * k" using assms(2) by (auto simp: mod_eq_0_iff_dvd)
  then have "j < (k - 1) * 512" using assms(3) by (simp add: algebra_simps)
  then have "j div 512 < k - 1" by (rule less_mult_imp_div_less)
  then have "512 * ?n + 512 \<le> length img" by (simp add: k)
  ultimately show ?thesis
    using assms(1) peek_nth [of "512 * ?n" 512 img "j mod 512"] by (simp add: holds_image_def disk_byte_def add.commute)
qed

lemma image_byte:
  assumes "length b \<le> 510" "512 + j < length (boot_image b (sector_padded f))"
  shows "boot_image b (sector_padded f) ! (512 + j) = file_bytes f j"
proof -
  define z where "z = (512 - length f mod 512) mod 512 + 512 * (1023 - length (sector_padded f) div 512)"
  have len: "length (boot_sector_of b) = 512" using assms(1) by (simp add: boot_sector_of_def)
  have img: "boot_image b (sector_padded f) = boot_sector_of b @ f @ replicate z 0"
    unfolding z_def replicate_add by (simp add: boot_image_def sector_padded_def)
  then have "j < length f + z" using assms(2) len by simp
  then show ?thesis unfolding img by (auto simp: nth_append len file_bytes_def)
qed

text \<open>The file that starts in sector 1 of a disk made from a boot block and that file.\<close>

lemma image_file:
  assumes "holds_image S (boot_image b (sector_padded f))" "length b \<le> 510"
  shows "512 + j < length (boot_image b (sector_padded f)) \<Longrightarrow> disk_byte S 1 j = file_bytes f j" (is "_ \<Longrightarrow> ?eq j")
    and "j < 0x1000 \<Longrightarrow> disk_byte S 1 j = file_bytes f j"
    and "j < length f \<Longrightarrow> disk_byte S 1 j = file_bytes f j"
proof -
  let ?img = "boot_image b (sector_padded f)"
  have len: "length ?img = max (512 * 1024) (512 + length (sector_padded f))"
    using assms(2) by (simp add: length_image length_sector_padded)
  then have "length ?img mod 512 = 0" by (simp add: max_def length_sector_padded)
  then have byte: "?eq j" if "512 + j < length ?img" for j
    using holds_image_byte [OF assms(1) _ that] image_byte [OF assms(2) that] by simp
  show "512 + j < length ?img \<Longrightarrow> ?eq j" by (rule byte)
  show "j < 0x1000 \<Longrightarrow> ?eq j" by (rule byte) (simp add: len)
  have "length f \<le> length (sector_padded f)" by (simp add: sector_padded_def)
  then show "j < length f \<Longrightarrow> ?eq j" by (intro byte) (simp add: len)
qed

lemma kernel_header_cong: "(\<And>j. j < 64 \<Longrightarrow> F j = G j) \<Longrightarrow> kernel_header F = kernel_header G"
  unfolding kernel_header_def by (rule arg_cong [where f = elf_header_of], rule map_cong) auto

lemma kernel_programs_cong:
  assumes "\<And>j. j < 0x1000 \<Longrightarrow> F j = G j" "unat (e_phoff (kernel_header G)) + 56 * unat (e_phnum (kernel_header G)) \<le> 0x1000"
  shows "kernel_programs F = kernel_programs G"
proof -
  have h: "kernel_header F = kernel_header G" using assms(1) by (intro kernel_header_cong) simp
  have eq: "map (\<lambda>j. F (unat (e_phoff (kernel_header G)) + 56 * i + j)) [0..<56] =
      map (\<lambda>j. G (unat (e_phoff (kernel_header G)) + 56 * i + j)) [0..<56]"
    if "i < unat (e_phnum (kernel_header G))" for i
    using assms that by (intro map_cong assms(1)) auto
  show ?thesis unfolding kernel_programs_def h
    by (rule map_cong [OF refl], rule arg_cong [where f = elf_program_of], rule eq, simp)
qed

lemma kernel_file_ok_cong:
  assumes "\<And>j. j < 0x1000 \<Longrightarrow> F j = G j" "kernel_file_ok G"
  shows "kernel_file_ok F" "kernel_header F = kernel_header G" "kernel_programs F = kernel_programs G"
proof -
  show h: "kernel_header F = kernel_header G" using assms(1) by (intro kernel_header_cong) simp
  show p: "kernel_programs F = kernel_programs G"
    using assms by (intro kernel_programs_cong) (auto simp: kernel_file_ok_def)
  show "kernel_file_ok F" using assms(2) by (simp add: kernel_file_ok_def h p)
qed

section \<open>What every write keeps\<close>

lemma and_then_eq_Inr: "and_then r f = Inr b \<longleftrightarrow> (\<exists>a. r = Inr a \<and> f a = Inr b)"
  by (cases r) simp_all

text \<open>\<open>I\<close> holds of the file when the program is left with a message, and \<open>Q\<close> of a result.\<close>

definition results :: "(disk_file \<Rightarrow> bool) \<Rightarrow> ('a \<Rightarrow> bool) \<Rightarrow> 'a mk \<Rightarrow> bool" where
  "results I Q r \<longleftrightarrow> (case r of Inl (e, s) \<Rightarrow> I s | Inr a \<Rightarrow> Q a)"

lemma results_simps [simp]: "results I Q (Inl (e, s)) = I s" "results I Q (Inr a) = Q a"
  by (simp_all add: results_def)

lemma results_and_then:
  assumes "results I Q r" "\<And>a. Q a \<Longrightarrow> results I R (f a)"
  shows "results I R (and_then r f)"
  using assms by (cases r) (auto simp: results_def)

text \<open>A property of the disk that every call of \<open>diskwrite\<close> keeps, also when it fails, the loops above it keep.\<close>

locale write_invariant =
  fixes I :: "disk_file \<Rightarrow> bool"
  assumes write_keeps: "I s \<Longrightarrow> results I I (diskwrite data s)"
begin

abbreviation kept :: "(nat \<times> disk_file) mk \<Rightarrow> bool" where
  "kept \<equiv> results I (\<lambda>(n, s). I s)"

lemma zero_sectors_keeps: "I s \<Longrightarrow> kept (zero_sectors target n s)"
proof (induction target n s rule: zero_sectors.induct)
  case (1 target n s)
  show ?case
    using "1.IH" write_keeps [OF "1.prems"] "1.prems"
    by (auto simp: zero_sectors.simps [of target n] intro: results_and_then)
qed

lemma copy_blocks_keeps: "I s \<Longrightarrow> kept (copy_blocks f pos s)"
proof (induction f pos s rule: copy_blocks.induct)
  case (1 f pos s)
  show ?case
    using "1.IH" write_keeps [OF "1.prems"] "1.prems"
    by (auto simp: copy_blocks.simps [of f] intro: results_and_then)
qed

lemma copy_file_keeps: "I s \<Longrightarrow> kept (copy_file f n s)"
  unfolding copy_file_def
  by (rule results_and_then [OF copy_blocks_keeps])
    (auto intro!: results_and_then [where Q = "\<lambda>(n, s). I s"] results_and_then [OF write_keeps])

lemma write_arguments_keeps: "I s \<Longrightarrow> kept (write_arguments files args n s)"
proof (induction args arbitrary: n s)
  case (Cons arg args)
  have "kept (case skip_target arg of
      Some target \<Rightarrow> if target < n then Inl (CannotSkip target n, s) else zero_sectors target n s
    | None \<Rightarrow> and_then (fopencheck files arg s) (\<lambda>f. copy_file f n s))"
    using Cons.prems zero_sectors_keeps copy_file_keeps by (simp add: fopencheck_def split: option.split)
  then show ?case using Cons.IH by (auto intro: results_and_then)
qed simp

end

section \<open>Partitions\<close>

text \<open>
  The partition tables of a disk, without the search: the one of sector 0, and one in the first sector of every extended
  partition that a table names; \<open>es\<close> is the sector that the entries for extended partitions count from, and \<open>off\<close> numbers
  them. A JOS partition is an entry of type 0x27 that is not empty.
\<close>

definition sector_at :: "bytes \<Rightarrow> nat \<Rightarrow> bytes" where
  "sector_at b n = peek 512 (n mod 2 ^ 32 * 512) b"

definition table_entry :: "bytes \<Rightarrow> nat \<Rightarrow> Partitiondesc \<Rightarrow> nat \<Rightarrow> bool" where
  "table_entry b ps p i \<longleftrightarrow> has_ptable (sector_at b ps) \<and> i < 4 \<and> p = ptable (sector_at b ps) i \<and> lba_length p \<noteq> 0"

inductive table_at :: "bytes \<Rightarrow> nat \<Rightarrow> nat \<Rightarrow> nat \<Rightarrow> bool" for b where
  main_table: "table_at b 0 0 0"
| extended_table: "table_at b ps es off \<Longrightarrow> table_entry b ps p i \<Longrightarrow> ptype p \<in> {0x05, 0x0F, 0x85} \<Longrightarrow>
    table_at b (unat (lba_start p) + es) (if es = 0 then unat (lba_start p) else es) (if off \<noteq> 0 then off + 1 else 4)"

definition jos_partition :: "bytes \<Rightarrow> nat \<Rightarrow> nat \<Rightarrow> nat \<Rightarrow> bool" where
  "jos_partition b n start len \<longleftrightarrow> (\<exists>ps es off p i. table_at b ps es off \<and> table_entry b ps p i \<and> ptype p = 0x27 \<and>
     n = off + i + 1 \<and> start = ps + unat (lba_start p) \<and> len = unat (lba_length p))"

lemma jos_partition_length: "jos_partition b n start len \<Longrightarrow> 0 < len"
  by (auto simp: jos_partition_def table_entry_def unat_gt_0)

section \<open>Staying inside a partition\<close>

text \<open>
  A disk that is written from byte \<open>base\<close> on with a limit of \<open>lim\<close> bytes: outside these the bytes of the disk \<open>orig\<close>
  are as they were.
\<close>

definition confined :: "nat \<Rightarrow> nat \<Rightarrow> nat \<Rightarrow> bytes \<Rightarrow> disk_file \<Rightarrow> bool" where
  "confined n base lim orig s \<longleftrightarrow> position s = base + curoff s \<and> maxoff s = lim \<and> 0 < lim \<and> curoff s \<le> lim \<and>
     using_partition s = Some (n, base div 512, lim div 512) \<and> length (contents s) \<le> max (length orig) (base + lim) \<and>
     (\<forall>i < length orig. i < base \<or> base + lim \<le> i \<longrightarrow> i < length (contents s) \<and> contents s ! i = orig ! i)"

lemma nth_write_at:
  assumes "i < length b" "i < pos \<or> pos + length data \<le> i"
  shows "i < length (write_at pos data b)" "write_at pos data b ! i = b ! i"
  using assms by (auto simp: write_at_def nth_append min_def)

lemma length_write_at: "length (write_at pos data b) = (if data = [] then max (length b) pos else max (length b) (pos + length data))"
  by (auto simp: write_at_def)

lemma put_bytes_confined:
  assumes "confined n base lim orig s" "curoff s + length data \<le> lim"
  shows "confined n base lim orig (put_bytes data s)"
  using assms nth_write_at [of _ "contents s" "position s" data] by (auto simp: confined_def length_write_at)

lemma confined_outcomes [simp]: "confined n base lim orig (s\<lparr>outcomes := os\<rparr>) = confined n base lim orig s"
  by (simp add: confined_def)

lemma write_loop_confined:
  assumes "confined n base lim orig s" "curoff s + length data \<le> lim"
  shows "results (confined n base lim orig) (confined n base lim orig) (write_loop data s)"
  using assms
proof (induction data s rule: write_loop.induct)
  case (1 data s)
  show ?case
  proof (cases "data = []")
    case True
    then show ?thesis using "1.prems" by (simp add: write_loop.simps)
  next
    case False
    note nil = write_loop.simps [of "[]"]
    show ?thesis
    proof (cases "outcomes s")
      case Nil
      then show ?thesis using put_bytes_confined [OF "1.prems"] False nil by (simp add: write_loop.simps [of data])
    next
      case (Cons a os)
      show ?thesis
      proof (cases a)
        case (Wrote k)
        define w where "w = min (max k 1) (length data)"
        let ?t = "put_bytes (take w data) (s\<lparr>outcomes := os\<rparr>)"
        have "w \<le> length data" by (simp add: w_def)
        moreover have "confined n base lim orig ?t" using "1.prems" by (intro put_bytes_confined) auto
        moreover have "write_loop data s = write_loop (drop w data) ?t"
          using False Cons Wrote by (simp add: write_loop.simps [of data] w_def Let_def)
        ultimately show ?thesis using "1.IH"(2) [OF False Cons Wrote w_def] "1.prems"(2) by simp
      next
        case Interrupted
        then show ?thesis using "1.IH"(3) [OF False Cons Interrupted] "1.prems" False Cons
          by (simp add: write_loop.simps [of data])
      qed (use "1.prems" False Cons in \<open>simp_all add: write_loop.simps [of data]\<close>)
    qed
  qed
qed

lemma diskwrite_confined:
  "confined n base lim orig s \<Longrightarrow> results (confined n base lim orig) (confined n base lim orig) (diskwrite data s)"
  using write_loop_confined [of n base lim orig s data] by (simp add: diskwrite_def confined_def)

interpretation partition: write_invariant "confined n base lim orig" for n base lim orig
  using diskwrite_confined by unfold_locales blast

text \<open>What the search for a partition leaves behind.\<close>

definition untouched :: "disk_file \<Rightarrow> disk_file \<Rightarrow> bool" where
  "untouched s t \<longleftrightarrow> contents t = contents s \<and> curoff t = curoff s \<and> using_partition t = using_partition s"

definition chosen :: "disk_file \<Rightarrow> nat \<times> disk_file \<Rightarrow> bool" where
  "chosen s = (\<lambda>(found, t). if found = 0 then untouched s t
     else contents t = contents s \<and> curoff t = curoff s \<and> (\<exists>n start len. using_partition t = Some (n, start, len) \<and>
       jos_partition (contents s) n start len \<and> position t = 512 * start \<and> maxoff t = 512 * len))"

abbreviation searched :: "disk_file \<Rightarrow> (nat \<times> disk_file) mk \<Rightarrow> bool" where
  "searched s \<equiv> results (untouched s) (chosen s)"

definition table_here :: "nat \<Rightarrow> nat \<Rightarrow> nat \<Rightarrow> bytes \<Rightarrow> disk_file \<Rightarrow> bool" where
  "table_here ps es off buf s \<longleftrightarrow> table_at (contents s) ps es off \<and> buf = sector_at (contents s) ps \<and> has_ptable buf"

lemma untouched_refl [simp]: "untouched s s"
  by (simp add: untouched_def)

lemma untouched_trans: "untouched s t \<Longrightarrow> untouched t u \<Longrightarrow> untouched s u"
  by (simp add: untouched_def)

lemma chosen_untouched: "untouched s t \<Longrightarrow> chosen t x \<Longrightarrow> chosen s x"
  by (auto simp: chosen_def untouched_def split: prod.splits if_splits)

lemma searched_untouched: "untouched s t \<Longrightarrow> searched t r \<Longrightarrow> searched s r"
  using chosen_untouched untouched_trans by (cases r) auto

lemma table_here_untouched: "untouched s t \<Longrightarrow> table_here ps es off buf s \<Longrightarrow> table_here ps es off buf t"
  by (auto simp: table_here_def untouched_def)

lemma readsect_result:
  "results (untouched s) (\<lambda>(buf, t). buf = sector_at (contents s) n \<and> untouched s t) (readsect n s)"
  by (simp add: readsect_def Let_def sector_at_def untouched_def)

lemma chosen_or_next:
  assumes "searched s r1" "\<And>u r. untouched s u \<Longrightarrow> nxt u = Some r \<Longrightarrow> searched u r"
    and "(case r1 of Inl err \<Rightarrow> Some (Inl err) | Inr (found, u) \<Rightarrow> if 0 < found then Some (Inr (found, u)) else nxt u) = Some r"
  shows "searched s r"
proof (cases r1)
  case (Inl err)
  then show ?thesis using assms by auto
next
  case (Inr fu)
  obtain found u where fu: "fu = (found, u)" by fastforce
  show ?thesis
  proof (cases "0 < found")
    case True
    then show ?thesis using assms(1,3) Inr fu by auto
  next
    case False
    then have "untouched s u" "nxt u = Some r" using assms(1,3) Inr fu by (simp_all add: chosen_def)
    then show ?thesis using assms(2) searched_untouched by blast
  qed
qed

text \<open>The search in an extended partition, with the search itself as a function of which the claim is known.\<close>

lemma extended_chosen:
  assumes IH: "\<And>i ps es off buf s r. search i ps es off buf s = Some r \<Longrightarrow> table_here ps es off buf s \<Longrightarrow> searched s r"
    and rd: "readsect n s = Inr (buf', t)" and tab: "table_at (contents s) n b c" "table_here a' b' c' buf s"
    and r: "Option.bind (if has_ptable buf' then search 0 n b c buf' t else Some (Inr (0, t)))
      (\<lambda>r1. case r1 of Inl err \<Rightarrow> Some (Inl err)
        | Inr (found, u) \<Rightarrow> if 0 < found then Some (Inr (found, u)) else search i' a' b' c' buf u) = Some r"
  shows "searched s r"
proof -
  have t: "buf' = sector_at (contents s) n" "untouched s t" using readsect_result [of s n] rd by simp_all
  from r obtain r1 where r1: "(if has_ptable buf' then search 0 n b c buf' t else Some (Inr (0, t))) = Some r1"
      "(case r1 of Inl err \<Rightarrow> Some (Inl err)
        | Inr (found, u) \<Rightarrow> if 0 < found then Some (Inr (found, u)) else search i' a' b' c' buf u) = Some r"
    unfolding bind_eq_Some_conv by blast
  have "searched t r1"
  proof (cases "has_ptable buf'")
    case True
    then have "table_here n b c buf' t" using tab(1) t by (simp add: table_here_def untouched_def)
    then show ?thesis using r1(1) True by (auto intro: IH)
  qed (use r1(1) in \<open>auto simp: chosen_def\<close>)
  then have "searched t r"
    using IH table_here_untouched [OF untouched_trans [OF t(2)] tab(2)] by (intro chosen_or_next [OF _ _ r1(2)]) blast+
  then show ?thesis by (rule searched_untouched [OF t(2)])
qed

lemma search_table_chosen:
  assumes "search_table i partition_sect extended_sect partoff buf s = Some r" "table_here partition_sect extended_sect partoff buf s"
  shows "searched s r"
  using assms
proof (induction rule: search_table.raw_induct [rotated, consumes 1, case_names step])
  case (step search i partition_sect extended_sect partoff buf s r)
  note IH = step(1) and body = step(2) and tab = step(3)
  let ?p = "ptable buf i" and ?next = "search (Suc i) partition_sect extended_sect partoff buf"
  consider "4 \<le> i" | "i < 4" "lba_length ?p \<noteq> 0" "ptype ?p = 0x27" | "?next s = Some r"
    | (extended) "i < 4" "lba_length ?p \<noteq> 0" "ptype ?p \<noteq> 0x27" "ptype ?p = 0x05 \<or> ptype ?p = 0x0F \<or> ptype ?p = 0x85"
    using body by (auto simp: Let_def split: if_splits)
  then show ?case
  proof cases
    case extended
    let ?n = "unat (lba_start ?p) + extended_sect"
    have "table_entry (contents s) partition_sect ?p i"
      using tab extended(1,2) by (auto simp: table_here_def table_entry_def)
    then have at: "table_at (contents s) ?n (if extended_sect = 0 then unat (lba_start ?p) else extended_sect)
        (if partoff \<noteq> 0 then partoff + 1 else 4)"
      using tab extended(4) by (intro extended_table [of _ partition_sect extended_sect partoff ?p i]) (auto simp: table_here_def)
    show ?thesis
    proof (cases "readsect ?n s")
      case (Inr bt)
      obtain buf' t where bt: "bt = (buf', t)" by fastforce
      from body extended Inr bt show ?thesis
        by (intro extended_chosen [OF IH Inr [unfolded bt] at tab]) (simp_all add: Let_def split del: if_split)
    next
      case (Inl err)
      then have "r = Inl err" using body extended by (simp add: Let_def)
      then show ?thesis using readsect_result [of s ?n] Inl by (cases err) simp
    qed
  next
    case 1
    then have "r = Inr (0, s)" using body by simp
    then show ?thesis by (simp add: chosen_def)
  next
    case 2
    then have r: "r = Inr (1, s\<lparr>position := (partition_sect + unat (lba_start ?p)) * 512, maxoff := unat (lba_length ?p) * 512,
        using_partition := Some (partoff + i + 1, partition_sect + unat (lba_start ?p), unat (lba_length ?p))\<rparr>)"
      using body by (simp add: Let_def)
    have "jos_partition (contents s) (partoff + i + 1) (partition_sect + unat (lba_start ?p)) (unat (lba_length ?p))"
      unfolding jos_partition_def using tab 2 by (auto simp: table_here_def table_entry_def)
    then show ?thesis by (simp add: r chosen_def)
  qed (rule IH [OF _ tab])
qed

lemma find_partition_chosen: "searched s (find_partition 0 0 0 s)"
proof (cases "readsect 0 s")
  case (Inl err)
  then show ?thesis using readsect_result [of s 0] by (cases err) (simp add: find_partition_def)
next
  case (Inr bt)
  obtain buf t where bt: "bt = (buf, t)" by fastforce
  have t: "buf = sector_at (contents s) 0" "untouched s t" using readsect_result [of s 0] Inr bt by simp_all
  show ?thesis
  proof (cases "has_ptable buf")
    case True
    then have "table_here 0 0 0 buf t" using t main_table by (simp add: table_here_def untouched_def)
    then show ?thesis
      using Inr bt True t(2) search_table_chosen searched_untouched
      by (auto simp: find_partition_def split: option.split)
  qed (use Inr bt t in \<open>simp add: find_partition_def chosen_def\<close>)
qed

lemma outside_touched:
  assumes "kernel_file_ok F" "p \<in> set (kernel_programs F)" "unat x < 0x7E00"
  shows "unat x \<notin> touched p"
proof
  assume "unat x \<in> touched p"
  moreover have "seg_ok p" using assms(1,2) by (simp add: kernel_file_ok_def)
  ultimately show False using seg_ok_ram(2) [of p] assms(3) by auto
qed

text \<open>The sector at 0x7C00 is not written by a loader that stays in the memory it can fill.\<close>

lemma loader_kept:
  assumes "kernel_file_ok F" "\<forall>x. unat x \<notin> {0x10000..<0x11000} \<union> \<Union> (touched ` set (kernel_programs F)) \<longrightarrow> m' x = store_bytes 0x7C00 b m x"
    and "length b = 512"
  shows "mem_bytes m' 0x7C00 512 = b"
proof (rule nth_equalityI)
  fix i assume "i < length (mem_bytes m' 0x7C00 512)"
  then have i: "i < 512" by simp
  let ?x = "0x7C00 + of_nat i :: u64"
  have x: "unat ?x = 0x7C00 + i" using i by (simp add: unat_word_ariths unat_of_nat)
  have "unat ?x \<notin> touched p" if "p \<in> set (kernel_programs F)" for p
    using outside_touched [OF assms(1) that, of ?x] x i by simp
  then have "m' ?x = store_bytes 0x7C00 b m ?x" using assms(2) x i by auto
  also have "\<dots> = b ! i" using x i assms(3) by (simp add: store_bytes_unat)
  finally show "mem_bytes m' 0x7C00 512 ! i = b ! i" using i by simp
qed (simp add: assms(3))

section \<open>Examples\<close>

text \<open>A kernel of one segment, four bytes from offset 512 of the file, at 0x40000, with four bytes of zeros after them.\<close>

definition tiny_kernel :: bytes where
  "tiny_kernel = le_enc 4 0x464C457F @ replicate 20 0 @ le_enc 8 0x40000 @ le_enc 8 64 @ replicate 16 0 @ le_enc 2 1 @ replicate 6 0 @
     replicate 8 0 @ le_enc 8 512 @ le_enc 8 0x40000 @ replicate 8 0 @ le_enc 8 4 @ le_enc 8 8 @ replicate 8 0 @ replicate 392 0 @ [1, 2, 3, 4]"

definition tiny_segment :: elf_program where
  "tiny_segment = \<lparr>p_type = 0, p_flags = 0, p_offset = 512, p_va = 0x40000, p_pa = 0, p_filesz = 4, p_memsz = 8, p_align = 0\<rparr>"

lemma length_tiny: "length tiny_kernel = 516"
  by (simp add: tiny_kernel_def)

lemma map_file_bytes: "k + n \<le> length f \<Longrightarrow> map (\<lambda>j. file_bytes f (k + j)) [0..<n] = peek n k f"
  by (intro nth_equalityI) (simp_all add: file_bytes_def peek_nth)

lemma peek_peek: "i + n \<le> m \<Longrightarrow> peek n i (peek m k f) = peek n (k + i) f"
  by (simp add: peek_def take_drop add.commute min_def)

lemma le_dec_zeros [simp]: "le_dec (replicate n 0) = 0"
  by (induction n) simp_all

lemma tiny_header:
  "e_magic (kernel_header (file_bytes tiny_kernel)) = 0x464C457F" "e_entry (kernel_header (file_bytes tiny_kernel)) = 0x40000"
  "e_phoff (kernel_header (file_bytes tiny_kernel)) = 64" "e_phnum (kernel_header (file_bytes tiny_kernel)) = 1"
proof -
  have h: "kernel_header (file_bytes tiny_kernel) = elf_header_of (peek 64 0 tiny_kernel)"
    using map_file_bytes [of 0 64 tiny_kernel] by (simp add: kernel_header_def length_tiny)
  show "e_magic (kernel_header (file_bytes tiny_kernel)) = 0x464C457F" "e_entry (kernel_header (file_bytes tiny_kernel)) = 0x40000"
    "e_phoff (kernel_header (file_bytes tiny_kernel)) = 64" "e_phnum (kernel_header (file_bytes tiny_kernel)) = 1"
    unfolding h elf_header_of_def elf_header.simps le_field_def
    by (simp_all add: peek_peek) (simp_all add: peek_def tiny_kernel_def le_dec_enc)
qed

lemma tiny_programs: "kernel_programs (file_bytes tiny_kernel) = [tiny_segment]"
proof -
  have "map (\<lambda>j. file_bytes tiny_kernel (64 + j)) [0..<56] = peek 56 64 tiny_kernel"
    by (rule map_file_bytes) (simp add: length_tiny)
  moreover have "elf_program_of (peek 56 64 tiny_kernel) = tiny_segment"
    unfolding elf_program_of_def tiny_segment_def le_field_def
    by (simp add: peek_peek) (simp add: peek_def tiny_kernel_def le_dec_enc)
  ultimately show ?thesis by (simp add: kernel_programs_def tiny_header)
qed

lemma tiny_ok: "kernel_file_ok (file_bytes tiny_kernel)"
  by (simp add: kernel_file_ok_def tiny_header tiny_programs)
    (simp add: seg_ok_def tiny_segment_def touched_def seg_start_def seg_sectors_end_def loader_ram_def)

text \<open>
  The first instructions of bootentry.S: cli, cld, movw $0x7C00 to sp, movw $0xEC00 to ax, movw $2 to dx, int $0x15. They
  stand for the image of the loader in the examples.
\<close>

definition loader_start :: bytes where
  "loader_start = [0xFA, 0xFC, 0xBC, 0x00, 0x7C, 0xB8, 0x00, 0xEC, 0xBA, 0x02, 0x00, 0xCD, 0x15]"

lemma length_loader_start [simp]: "length loader_start = 13"
  by (simp add: loader_start_def)

definition tiny_files :: "string \<Rightarrow> bytes option" where
  "tiny_files = [''boot'' \<mapsto> loader_start, ''kernel'' \<mapsto> tiny_kernel, ''empty'' \<mapsto> []]"

lemma tiny_files: "tiny_files ''boot'' = Some loader_start" "tiny_files ''kernel'' = Some tiny_kernel" "skip_target ''kernel'' = None"
  by (simp_all add: tiny_files_def skip_target_def)

definition image_drive :: "bytes \<Rightarrow> ata" where
  "image_drive img = \<lparr>aregs = (\<lambda>_. 0), adelay = 1, amode = Idle,
     asector = (\<lambda>u n. if 512 * n + 512 \<le> length img then peek 512 (512 * n) img else replicate 512 0)\<rparr>"

lemma image_drive_holds: "holds_image (asector (whole_sectors (image_drive img)) u) img"
  by (simp add: holds_image_def whole_sectors_def image_drive_def)

lemma tiny_loaded:
  assumes "seg_loaded (file_bytes tiny_kernel) m tiny_segment"
  shows "m 0x40002 = 3" "m 0x40006 = 0"
proof -
  have "\<forall>i < 4. m (0x40000 + of_nat i) = file_bytes tiny_kernel (512 + i)" "\<forall>i. 4 \<le> i \<and> i < 8 \<longrightarrow> m (0x40000 + of_nat i) = 0"
    using assms by (simp_all add: seg_loaded_def tiny_segment_def)
  from this(1) [rule_format, of 2] this(2) [rule_format, of 6]
  have "m 0x40002 = file_bytes tiny_kernel (512 + 2)" "m 0x40006 = 0" by simp_all
  then show "m 0x40002 = 3" "m 0x40006 = 0" by (simp_all add: file_bytes_def tiny_kernel_def nth_append)
qed

text \<open>A disk with a partition table of one kernel partition of 2000 sectors.\<close>

definition partitioned_disk :: bytes where
  "partitioned_disk = replicate 446 0 @ [0x80, 0, 0, 0, 0x27, 0, 0, 0] @ le_enc 4 1 @ le_enc 4 2000 @ replicate 48 0 @ [0x55, 0xAA]"

definition partitioned_files :: "string \<Rightarrow> bytes option" where
  "partitioned_files = [''disk'' \<mapsto> partitioned_disk, ''empty'' \<mapsto> []]"

lemma length_partitioned: "length partitioned_disk = 512"
  by (simp add: partitioned_disk_def)

lemma diskwrite_room:
  assumes "no_failure (outcomes s)" "curoff s + length data \<le> maxoff s" "data \<noteq> []"
  shows "\<exists>s'. diskwrite data s = Inr s' \<and> appended data s s'"
  using write_loop_all [OF assms(1,3)] assms(2) by (simp add: diskwrite_def)

lemma zero_sectors_room:
  assumes "no_failure (outcomes s)" "curoff s + 512 * (target - n) \<le> maxoff s"
  shows "\<exists>n' s'. zero_sectors target n s = Inr (n', s') \<and> using_partition s' = using_partition s"
  using assms
proof (induction "target - n" arbitrary: n s)
  case 0
  then show ?case by (subst zero_sectors.simps) simp
next
  case (Suc k)
  obtain t where t: "diskwrite (replicate 512 0) s = Inr t" "appended (replicate 512 0) s t"
    using diskwrite_room [OF Suc.prems(1), of "replicate 512 0"] Suc.prems(2) Suc.hyps(2) by auto
  have k: "k = target - Suc n" "target - n = Suc (target - Suc n)" using Suc.hyps(2) by simp_all
  have "using_partition t = using_partition s" using t(2) unfolding appended_def
    by (metis put_bytes_fields(6) disk_file.select_convs(6) disk_file.surjective disk_file.update_convs(5))
  moreover obtain n' u where "zero_sectors target (Suc n) t = Inr (n', u)" "using_partition u = using_partition t"
    using Suc.hyps(1) [OF k(1), of t] k(2) Suc.prems(2) appended_fields [OF t(2)] by auto
  ultimately show ?case using t(1) Suc.hyps(2) by (subst zero_sectors.simps) auto
qed

lemma partitioned_table:
  "ptype (ptable partitioned_disk 0) = 0x27" "lba_start (ptable partitioned_disk 0) = 1" "lba_length (ptable partitioned_disk 0) = 2000"
  "has_ptable partitioned_disk"
  by (simp_all add: ptable_def partitioned_disk_def le_field_def peek_def le_dec_enc has_ptable_def nth_append)

lemma partitioned_written:
  "\<exists>s'. mkbootdisk partitioned_files [] [''-p'', ''disk'', ''empty''] = Inr s' \<and> using_partition s' = Some (1, 1, 2000)"
proof -
  let ?s = "\<lparr>contents = partitioned_disk, position = 0, maxoff = 0, curoff = 0, outcomes = [], using_partition = None\<rparr>"
  let ?t = "?s\<lparr>position := 512, maxoff := 1024000, using_partition := Some (1, 1, 2000)\<rparr>"
  have "find_partition 0 0 0 ?s = Inr (1, ?t)"
    using search_table.simps [of 0 0 0 0 partitioned_disk "?s\<lparr>position := 512\<rparr>"] partitioned_table
    by (simp add: find_partition_def readsect_def length_partitioned peek_def)
  moreover have "write_arguments partitioned_files [''empty''] 0 ?t = Inr (0, ?t)"
    by (simp add: skip_target_def partitioned_files_def copy_file_def copy_blocks.simps)
  moreover obtain n' s' where "zero_sectors 1024 0 ?t = Inr (n', s')" "using_partition s' = Some (1, 1, 2000)"
    using zero_sectors_room [of ?t 1024 0] by (auto simp: no_failure_def)
  ultimately show ?thesis
    by (simp add: mkbootdisk_def open_partition_def partitioned_files_def del: write_arguments.simps)
qed

section \<open>Properties\<close>

text \<open>C15:
  On an ATA channel whose first drive holds an ELF kernel from sector 1 on, with segments in the memory that the loader can
  fill, the boot loader goes to the entry point of the kernel, after every segment of the program headers has been copied to
  its address and the rest of its memory cleared; memory outside the segments and the page of the ELF header is as before,
  and so the loader, its stack and its page tables are.\<close>

theorem boot_loads_kernel:
  assumes "ata_channel dev regs delay mode sector" "mode d = Idle" "\<And>n. length (sector d False n) = 512"
    and "kernel_file_ok (disk_byte (sector d False) 1)"
  shows "\<exists>m' d'. boot dev (m, d) = Some (e_entry (kernel_header (disk_byte (sector d False) 1)), m', d') \<and>
    (\<forall>p \<in> set (kernel_programs (disk_byte (sector d False) 1)). seg_loaded (disk_byte (sector d False) 1) m' p) \<and>
    (\<forall>x. unat x \<notin> {0x10000..<0x11000} \<union> \<Union> (touched ` set (kernel_programs (disk_byte (sector d False) 1))) \<longrightarrow> m' x = m x) \<and>
    (\<forall>x. unat x < 0x7E00 \<longrightarrow> m' x = m x)"
proof -
  have "unat x \<notin> {0x10000..<0x11000} \<union> \<Union> (touched ` set (kernel_programs (disk_byte (sector d False) 1)))"
    if x: "unat x < 0x7E00" for x :: u64
    using outside_touched [OF assms(4), of _ x] x by auto
  then have "(\<forall>x. unat x \<notin> {0x10000..<0x11000} \<union> \<Union> (touched ` set (kernel_programs (disk_byte (sector d False) 1))) \<longrightarrow> m' x = m x) \<Longrightarrow>
      (\<forall>x. unat x < 0x7E00 \<longrightarrow> m' x = m x)" for m' by simp
  with ata_channel.boot_spec [OF assms, of m] show ?thesis by (elim exE conjE) (intro exI conjI; assumption)
qed

theorem boot_loads_kernel_witness:
  "\<exists>m' d'. boot (ata_device 2) ((\<lambda>_. 7), image_drive (boot_image [] (sector_padded tiny_kernel))) = Some (0x40000, m', d') \<and> m' 0 = 7"
proof -
  let ?d = "image_drive (boot_image [] (sector_padded tiny_kernel))"
  let ?F = "disk_byte (asector (whole_sectors ?d) False) 1"
  have whole: "\<And>n. length (asector (whole_sectors ?d) False n) = 512"
    using image_drive_holds [of "boot_image [] (sector_padded tiny_kernel)" False] by (simp add: holds_image_def)
  have page: "\<And>j. j < 0x1000 \<Longrightarrow> ?F j = file_bytes tiny_kernel j" using image_file(2) [OF image_drive_holds] by simp
  have eq: "kernel_file_ok ?F" "kernel_header ?F = kernel_header (file_bytes tiny_kernel)" "kernel_programs ?F = [tiny_segment]"
    using kernel_file_ok_cong [of ?F "file_bytes tiny_kernel"] page tiny_ok tiny_programs by auto
  have idle: "controller_mode ?d = Idle" by (simp add: image_drive_def)
  have zero: "unat (0 :: u64) \<notin> {0x10000..<0x11000} \<union> \<Union> (touched ` set (kernel_programs ?F))"
    unfolding eq(3) by (simp add: touched_def tiny_segment_def seg_start_def)
  from boot_loads_kernel [OF controller_ata [of 2] idle whole eq(1), of "\<lambda>_. 7"] zero
  show ?thesis unfolding eq(2) tiny_header(2) by blast
qed

text \<open>A disk without an ELF file in sector 1 does not boot: the loader reads the first page and then loops for ever.\<close>

theorem boot_never_returns:
  assumes "ata_channel dev regs delay mode sector" "mode d = Idle" "\<And>n. length (sector d False n) = 512"
    and "e_magic (kernel_header (disk_byte (sector d False) 1)) \<noteq> 0x464C457F"
  shows "boot dev (m, d) = None"
  using ata_channel.boot_hangs [OF assms] .

theorem boot_never_returns_witness: "boot (ata_device 0) ((\<lambda>_. 0), example_ata) = None"
proof -
  have "e_magic (kernel_header (disk_byte (asector (whole_sectors example_ata) False) 1)) = 0x01010101"
    by (simp add: kernel_header_def elf_header_of_def le_field_def peek_def take_map disk_byte_def whole_sectors_def example_ata_def
        upt_rec)
  then show ?thesis
    using boot_never_returns [OF controller_ata [of 0], of example_ata "\<lambda>_. 0"] by (simp add: example_ata_def whole_sectors_def)
qed

text \<open>C16:
  The image that the tool makes from a boot block and further arguments: the boot block padded to 510 bytes with the signature,
  then every file padded to whole sectors and every gap, then zero sectors up to 1024. It does not depend on how the operating
  system splits the writes, as long as none fails.\<close>

theorem mkbootdisk_image:
  assumes "name \<noteq> ''-p''" "name \<noteq> ''-m''" "files name = Some b" "length b \<le> 510" "parts files args 1 = Some xs" "no_failure os"
  shows "\<exists>s'. mkbootdisk files os (name # args) = Inr s' \<and> contents s' = boot_image b xs \<and>
    length (contents s') = max (512 * 1024) (512 + length xs)"
  using mkbootdisk_writes [OF assms] length_image [OF assms(4) length_parts [OF assms(5)]] by auto

theorem mkbootdisk_image_witness:
  "\<exists>s'. mkbootdisk tiny_files [Wrote 3, Interrupted, Wrote 0] [''boot'', ''kernel'', ''@0x10''] = Inr s' \<and> length (contents s') = 524288"
proof -
  have skip: "skip_target ''@0x10'' = Some 16" by (simp add: skip_target_def strtoul_def is_digit_def digit_value_def of_char_def)
  have "length (sector_padded tiny_kernel) = 1024" by (simp add: length_sector_padded length_tiny)
  then have "parts tiny_files [''kernel'', ''@0x10''] 1 = Some (sector_padded tiny_kernel @ replicate 6656 0)"
    using skip by (simp add: tiny_files)
  from mkbootdisk_image [OF _ _ tiny_files(1) _ this, of "[Wrote 3, Interrupted, Wrote 0]"] show ?thesis
    by (auto simp: no_failure_def length_sector_padded length_tiny)
qed



text \<open>C17:
  Run on the partition of a disk, the tool leaves the disk, when it ends and also when it is left with any of its
  messages, as it was but for the bytes of the partition it has announced, and this is a JOS partition of the disk's
  partition tables; a run that ends has found one, and before one is found nothing is written.\<close>

definition disk_after :: "disk_file mk \<Rightarrow> disk_file" where
  "disk_after r = (case r of Inl (e, s) \<Rightarrow> s | Inr s \<Rightarrow> s)"

lemma results_disk_after: "results I I r \<Longrightarrow> I (disk_after r)"
  by (auto simp: results_def disk_after_def split: sum.splits)

theorem partition_confined:
  fixes os :: "write_outcome list"
  assumes "files name = Some orig" "args = [] \<or> hd args \<noteq> ''-m''"
  defines "r \<equiv> mkbootdisk files os (''-p'' # name # args)"
  shows "case using_partition (disk_after r) of
      None \<Rightarrow> contents (disk_after r) = orig \<and> isl r
    | Some (n, start, len) \<Rightarrow> jos_partition orig n start len \<and>
        length (contents (disk_after r)) \<le> max (length orig) (512 * (start + len)) \<and>
        (\<forall>i < length orig. i < 512 * start \<or> 512 * (start + len) \<le> i \<longrightarrow>
          i < length (contents (disk_after r)) \<and> contents (disk_after r) ! i = orig ! i)"
proof -
  let ?s = "\<lparr>contents = orig, position = 0, maxoff = 0, curoff = 0, outcomes = os, using_partition = None\<rparr>"
  note run = r_def mkbootdisk_def open_partition_def Let_def
  show ?thesis
  proof (cases "find_partition 0 0 0 ?s")
    case (Inl et)
    then show ?thesis
      using find_partition_chosen [of ?s] assms(1)
      by (cases et) (simp add: run disk_after_def untouched_def)
  next
    case (Inr ft)
    obtain found t where ft: "ft = (found, t)" by fastforce
    then have ch: "chosen ?s (found, t)" using find_partition_chosen [of ?s] Inr by simp
    show ?thesis
    proof (cases "found = 0")
      case True
      then show ?thesis using Inr ft ch assms(1) by (simp add: run disk_after_def untouched_def chosen_def)
    next
      case False
      then obtain n start len where t: "confined n (512 * start) (512 * len) orig t" and jos: "jos_partition orig n start len"
        using ch jos_partition_length [of orig] by (auto simp: chosen_def confined_def)
      have "confined n (512 * start) (512 * len) orig (disk_after r)"
      proof (cases args)
        case Nil
        then show ?thesis using Inr ft False assms(1) t by (simp add: run disk_after_def)
      next
        case (Cons arg rest)
        then have "r = and_then (write_arguments files args 0 t) (\<lambda>(nsectors, s).
            and_then (zero_sectors 1024 nsectors s) (\<lambda>(nsectors, s). Inr s))"
          using Inr ft False assms(1,2) by (simp add: run del: write_arguments.simps)
        then have "results (confined n (512 * start) (512 * len) orig) (confined n (512 * start) (512 * len) orig) r"
          using partition.zero_sectors_keeps
          by (auto intro!: results_and_then [OF partition.write_arguments_keeps [OF t]]
              results_and_then [where Q = "\<lambda>(_, s). confined n (512 * start) (512 * len) orig s"])
        then show ?thesis by (rule results_disk_after)
      qed
      then show ?thesis using jos by (simp add: confined_def algebra_simps)
    qed
  qed
qed

theorem partition_confined_witness:
  "\<exists>s'. mkbootdisk partitioned_files [] [''-p'', ''disk'', ''empty''] = Inr s' \<and> contents s' ! 510 = 0x55 \<and>
    jos_partition partitioned_disk 1 1 2000"
proof -
  obtain s' where s': "mkbootdisk partitioned_files [] [''-p'', ''disk'', ''empty''] = Inr s'" "using_partition s' = Some (1, 1, 2000)"
    using partitioned_written by blast
  have f: "partitioned_files ''disk'' = Some partitioned_disk" by (simp add: partitioned_files_def)
  from partition_confined [of partitioned_files "''disk''" partitioned_disk "[''empty'']" "[]"] f s' have "contents s' ! 510 = partitioned_disk ! 510" "jos_partition partitioned_disk 1 1 2000"
    by (auto simp: disk_after_def length_partitioned dest: spec [where x = 510])
  then show ?thesis using s'(1) by (simp add: partitioned_disk_def nth_append)
qed

end
