(* ===== verification/User_Programs.thy ===== *)
theory User_Programs
  imports Shell_Correct
begin

text \<open>
  The other user programs: userspace/p_dummy1.c and p_dummy2.c, which draw a growing and vanishing bar in a column of the
  screen, p_idle.c, and the library call of kernel/system_library.c. The endless loop of a program is its run for any number of
  turns. Interrupt 0x88 gives up the processor and changes nothing that the program sees. The counters stay far below the
  limits of a C int, so they are integers.
\<close>

section \<open>Definitions\<close>

text \<open>The screen and the ports behind the calls 0x87 and 0x81, with the arguments as the handlers convert them.\<close>

definition enable_interrupts :: "io \<Rightarrow> io" where
  "enable_interrupts x = outb 0xA1 0xFF (outb 0x21 0xFC x)"

definition write_char_call :: "int \<Rightarrow> int \<Rightarrow> io \<Rightarrow> io result" where
  "write_char_call rdi rsi x = shell_print_char (word_of_int rsi) (word_of_int rdi) x"

definition dummy1_turn :: "int \<times> io \<Rightarrow> (int \<times> io) result" where
  "dummy1_turn = (\<lambda>(i, x).
     bind (if i smod 1000 = 0 then
             let j = i sdiv 1000 in write_char_call (0x23 * (j sdiv 25)) (80 * (j smod 25) + 76) x
           else Inr x) (\<lambda>x.
     Inr ((i + 1) smod 50000, x)))"

definition dummy2_turn :: "int \<times> io \<Rightarrow> (int \<times> io) result" where
  "dummy2_turn = (\<lambda>(i, x).
     bind (if i smod 2000 = 0 then
             let j = i sdiv 2000 in write_char_call (0x23 * (j sdiv 25)) (80 * (j smod 25) + 78) x
           else Inr x) (\<lambda>x.
     Inr ((i + 1) smod 100000, x)))"

primrec run_turns :: "('a \<Rightarrow> 'a result) \<Rightarrow> nat \<Rightarrow> 'a \<Rightarrow> 'a result" where
  "run_turns turn 0 x = Inr x"
| "run_turns turn (Suc n) x = bind (run_turns turn n x) turn"

definition dummy1_main :: "nat \<Rightarrow> io \<Rightarrow> (int \<times> io) result" where
  "dummy1_main count x = run_turns dummy1_turn count (0, enable_interrupts x)"

definition dummy2_main :: "nat \<Rightarrow> io \<Rightarrow> (int \<times> io) result" where
  "dummy2_main count x = run_turns dummy2_turn count (0, enable_interrupts x)"

text \<open>The idle program: its loop has an empty body.\<close>

partial_function (option) idle_main :: "io \<Rightarrow> io option" where
  "idle_main x = idle_main x"

text \<open>Interrupt 48 leads to \<open>console_print_int_wrapper\<close>, which takes the low half of the register.\<close>

definition print_int :: "u64 \<Rightarrow> bytes \<Rightarrow> io \<Rightarrow> io result" where
  "print_int n buffer x = console_print_int_wrapper (ucast n) buffer x"

section \<open>Bars\<close>

text \<open>
  A program that draws a bar in a column: in turn \<open>i\<close> of a cycle of \<open>50 * n\<close> it writes, when \<open>n\<close> divides \<open>i\<close>, one cell: in the first half
  of the cycle it blanks the rows from the top, in the second half it fills them. \<open>bar_cell\<close> is what the cells show after \<open>k\<close> turns.
\<close>

definition bar_cell :: "int \<Rightarrow> int \<Rightarrow> (int \<Rightarrow> u16) \<Rightarrow> int \<Rightarrow> int \<Rightarrow> u16" where
  "bar_cell n column v k p =
     (if p mod 80 = column \<and> 0 \<le> p \<and> p < 2000 then
        if n * (25 + p div 80) < k then glyph 0x23 else if n * (p div 80) < k then glyph 0 else v p
      else v p)"

locale bar =
  fixes turn :: "int \<times> io \<Rightarrow> (int \<times> io) result" and n :: int and column :: int
  assumes n: "0 < n" and column: "0 \<le> column" "column < 80"
    and turn: "0 \<le> i \<Longrightarrow> i < 50 * n \<Longrightarrow> turn (i, x) =
      Inr ((i + 1) mod (50 * n),
       if i mod n = 0 then x\<lparr>vga := (vga x)(80 * (i div n mod 25) + column := glyph (if i div n < 25 then 0 else 0x23))\<rparr> else x)"
begin

lemma threshold_between: "k mod n \<noteq> 0 \<Longrightarrow> n * m < k + 1 \<longleftrightarrow> n * m < k"
  using n by (auto simp: order_less_le)

lemma threshold_at: "n * m < n * q + 1 \<longleftrightarrow> m \<le> q"
  using n by (auto simp: zless_add1_eq le_less)

lemma row_of_cell: "80 * r + column = p \<longleftrightarrow> p mod 80 = column \<and> p div 80 = r"
  using column by auto

lemma bar_step:
  assumes "0 \<le> k" "k < 50 * n"
  shows "bar_cell n column v (k + 1) = (if k mod n = 0
    then (bar_cell n column v k)(80 * (k div n mod 25) + column := glyph (if k div n < 25 then 0 else 0x23))
    else bar_cell n column v k)"
proof (cases "k mod n = 0")
  case True
  then obtain q where q: "k = n * q" by auto
  have r: "0 \<le> q" "q < 50" "k div n = q" using assms n q by (auto simp: zero_le_mult_iff)
  from r(1,2) have rows: "q mod 25 = (if q < 25 then q else q - 25)" by presburger
  have th: "n * m < k \<longleftrightarrow> m < q" "n * m < k + 1 \<longleftrightarrow> m \<le> q" for m
    using n threshold_at [of m q] by (simp_all add: q)
  have "bar_cell n column v (k + 1) p = ((bar_cell n column v k)(80 * (q mod 25) + column := glyph (if q < 25 then 0 else 0x23))) p" for p
  proof (cases "p mod 80 = column \<and> 0 \<le> p \<and> p < 2000")
    case True
    define row where "row = p div 80"
    have row: "0 \<le> row" "row < 25" "p = 80 * (q mod 25) + column \<longleftrightarrow> row = q mod 25"
      using True row_of_cell [of "q mod 25" p] by (auto simp: row_def)
    have "bar_cell n column v k p = (if 25 + row < q then glyph 0x23 else if row < q then glyph 0 else v p)"
      "bar_cell n column v (k + 1) p = (if 25 + row \<le> q then glyph 0x23 else if row \<le> q then glyph 0 else v p)"
      using True by (simp_all only: bar_cell_def row_def th if_True simp_thms)
    then show ?thesis using r(1,2) row(1,2) unfolding fun_upd_apply row(3) by (auto simp: rows)
  next
    case False
    let ?c = "80 * (q mod 25) + column"
    have "?c mod 80 = column" "0 \<le> ?c" "?c < 2000" using column pos_mod_bound [of 25 q] by auto
    then have "?c \<noteq> p" using False by auto
    then show ?thesis using False by (auto simp: bar_cell_def)
  qed
  then show ?thesis using True r(3) by (simp add: fun_eq_iff)
next
  case False
  then show ?thesis by (simp only: fun_eq_iff bar_cell_def threshold_between if_False simp_thms)
qed

lemma bar_run:
  assumes "k \<le> 50 * n"
  shows "0 \<le> k \<Longrightarrow> run_turns turn (nat k) (0, x) = Inr (k mod (50 * n), x\<lparr>vga := bar_cell n column (vga x) k\<rparr>)"
  using assms
proof (induction "nat k" arbitrary: k)
  case 0
  have "bar_cell n column v 0 = v" for v using n by (auto simp: bar_cell_def fun_eq_iff mult_less_0_iff)
  then show ?case using 0 by simp
next
  case (Suc j)
  define i where "i = k - 1"
  have i: "0 \<le> i" "i < 50 * n" "k = i + 1" "nat k = Suc (nat i)" using Suc by (auto simp: i_def)
  have "run_turns turn (nat i) (0, x) = Inr (i mod (50 * n), x\<lparr>vga := bar_cell n column (vga x) i\<rparr>)"
    using Suc.hyps(1) [of i] Suc.hyps(2) i by simp
  then have "run_turns turn (nat k) (0, x) = turn (i, x\<lparr>vga := bar_cell n column (vga x) i\<rparr>)" using i by simp
  then show ?case using turn [OF i(1,2)] bar_step [OF i(1,2)] i(3) by simp
qed

text \<open>Whatever the number of turns, only the column changes, and no port is written.\<close>

lemma bar_frame:
  "\<exists>i y. run_turns turn count (0, x) = Inr (i, y) \<and> 0 \<le> i \<and> i < 50 * n \<and> ports y = ports x \<and>
    (\<forall>p. p mod 80 \<noteq> column \<or> p < 0 \<or> 2000 \<le> p \<longrightarrow> vga y p = vga x p)"
proof (induction count)
  case 0
  then show ?case using n by simp
next
  case (Suc count)
  then obtain i y where iy: "run_turns turn count (0, x) = Inr (i, y)" "0 \<le> i" "i < 50 * n" "ports y = ports x"
      "\<forall>p. p mod 80 \<noteq> column \<or> p < 0 \<or> 2000 \<le> p \<longrightarrow> vga y p = vga x p" by blast
  let ?c = "80 * (i div n mod 25) + column"
  have "?c mod 80 = column" "0 \<le> ?c" "?c < 2000" using column pos_mod_bound [of 25 "i div n"] by auto
  moreover define z where "z = (if i mod n = 0 then y\<lparr>vga := (vga y)(?c := glyph (if i div n < 25 then 0 else 0x23))\<rparr> else y)"
  ultimately have "vga z p = vga x p" if "p mod 80 \<noteq> column \<or> p < 0 \<or> 2000 \<le> p" for p
    using that iy(5) by auto
  moreover have "ports z = ports x" using iy(4) by (simp add: z_def)
  moreover have "run_turns turn (Suc count) (0, x) = Inr ((i + 1) mod (50 * n), z)"
    using iy(1) turn [OF iy(2,3), of y] by (simp add: z_def)
  moreover have "0 \<le> (i + 1) mod (50 * n)" "(i + 1) mod (50 * n) < 50 * n" using n by simp_all
  ultimately show ?case by blast
qed

end

lemma sdiv_smod_nonneg: "0 \<le> a \<Longrightarrow> 0 < b \<Longrightarrow> a sdiv b = a div b" "0 \<le> a \<Longrightarrow> 0 < b \<Longrightarrow> a smod b = a mod b" for a b :: int
  by (auto simp: signed_divide_int_def signed_modulo_int_def sgn_mult sgn_if minus_div_mult_eq_mod)

lemma write_char_cell:
  assumes "0 \<le> p" "p < 2000" "j = 0 \<or> j = 1"
  shows "write_char_call (0x23 * j) p x = Inr (x\<lparr>vga := (vga x)(p := glyph (if j = 0 then 0 else 0x23))\<rparr>)"
  using assms by (auto simp: write_char_call_def shell_print_char_def sint_position glyph_def)

lemma cell_in_column:
  assumes "0 \<le> j" "j < 50" "0 \<le> c" "c < 80"
  shows "write_char_call (0x23 * (j sdiv 25)) (80 * (j smod 25) + c) x =
    Inr (x\<lparr>vga := (vga x)(80 * (j mod 25) + c := glyph (if j < 25 then 0 else 0x23))\<rparr>)"
proof -
  have "j div 25 = (if j < 25 then 0 else 1)" using assms(1,2) by auto
  moreover have "0 \<le> 80 * (j mod 25) + c" "80 * (j mod 25) + c < 2000"
    using assms pos_mod_bound [of 25 j] by auto
  ultimately show ?thesis using assms(1) by (auto simp: sdiv_smod_nonneg write_char_cell)
qed

interpretation dummy1: bar dummy1_turn 1000 76
proof
  fix i x assume i: "0 \<le> i" "i < 50 * (1000 :: int)"
  then have j: "0 \<le> i div 1000" "i div 1000 < 50" by auto
  have c: "i smod 1000 = i mod 1000" "i sdiv 1000 = i div 1000" "(i + 1) smod 50000 = (i + 1) mod 50000"
    using i by (simp_all add: sdiv_smod_nonneg)
  then show "dummy1_turn (i, x) = Inr ((i + 1) mod (50 * 1000), if i mod 1000 = 0 then
      x\<lparr>vga := (vga x)(80 * (i div 1000 mod 25) + 76 := glyph (if i div 1000 < 25 then 0 else 0x23))\<rparr> else x)"
    unfolding dummy1_turn_def prod.case Let_def c cell_in_column [OF j, of 76, simplified] by simp
qed simp_all

interpretation dummy2: bar dummy2_turn 2000 78
proof
  fix i x assume i: "0 \<le> i" "i < 50 * (2000 :: int)"
  then have j: "0 \<le> i div 2000" "i div 2000 < 50" by auto
  have c: "i smod 2000 = i mod 2000" "i sdiv 2000 = i div 2000" "(i + 1) smod 100000 = (i + 1) mod 100000"
    using i by (simp_all add: sdiv_smod_nonneg)
  then show "dummy2_turn (i, x) = Inr ((i + 1) mod (50 * 2000), if i mod 2000 = 0 then
      x\<lparr>vga := (vga x)(80 * (i div 2000 mod 25) + 78 := glyph (if i div 2000 < 25 then 0 else 0x23))\<rparr> else x)"
    unfolding dummy2_turn_def prod.case Let_def c cell_in_column [OF j, of 78, simplified] by simp
qed simp_all

section \<open>Starting and stopping\<close>

lemma column_cleared:
  assumes "0 \<le> c" "c < 80" "r \<le> 25"
  shows "\<exists>s'. foreach (\<lambda>i. sys_write_char (80 * i + c) 0x20) [0..int r - 1] s = Inr s' \<and>
    vga (sio s') = (\<lambda>p. if p mod 80 = c \<and> 0 \<le> p \<and> p < 80 * int r then glyph 0x20 else vga (sio s) p) \<and>
    ports (sio s') = ports (sio s)"
  using assms(3)
proof (induction r)
  case 0
  then show ?case by (auto simp: fun_eq_iff)
next
  case (Suc r)
  then obtain t where t: "foreach (\<lambda>i. sys_write_char (80 * i + c) 0x20) [0..int r - 1] s = Inr t"
      "vga (sio t) = (\<lambda>p. if p mod 80 = c \<and> 0 \<le> p \<and> p < 80 * int r then glyph 0x20 else vga (sio s) p)"
      "ports (sio t) = ports (sio s)" by auto
  let ?k = "80 * int r + c"
  have k: "0 \<le> ?k" "?k < 2000" using assms(1,2) Suc.prems by auto
  have up: "[0..int (Suc r) - 1] = [0..int r - 1] @ [int r]" using upto_rec2 [of 0 "int r"] by simp
  have "p = ?k" if "p mod 80 = c" "80 * int r \<le> p" "p < 80 * int (Suc r)" for p
  proof -
    have "p div 80 = int r" using that(2,3) by auto
    then show ?thesis using that(1) div_mult_mod_eq [of p 80] by simp
  qed
  moreover have "?k mod 80 = c" "80 * int r \<le> ?k" "?k < 80 * int (Suc r)" using assms(1,2) by auto
  ultimately have "p = ?k \<longleftrightarrow> p mod 80 = c \<and> 80 * int r \<le> p \<and> p < 80 * int (Suc r)" for p by blast
  then have "vga (sio (put_cell (nat ?k) 0x20 t)) =
      (\<lambda>p. if p mod 80 = c \<and> 0 \<le> p \<and> p < 80 * int (Suc r) then glyph 0x20 else vga (sio s) p)"
    using k t(2) by (auto simp: put_cell_def fun_eq_iff)
  then show ?case unfolding up foreach_append t(1) using k t(3)
    by (simp add: sys_write_char_eq) (simp add: put_cell_def)
qed

text \<open>The column of a program that has been stopped is blank.\<close>

lemma clear_column_eq:
  assumes "0 \<le> c" "c < 80"
  shows "\<exists>s'. clear_column c s = Inr s' \<and> ports (sio s') = ports (sio s) \<and>
    vga (sio s') = (\<lambda>p. if p mod 80 = c \<and> 0 \<le> p \<and> p < 2000 then glyph 0x20 else vga (sio s) p)"
  using column_cleared [OF assms, of 25 s] by (auto simp: clear_column_def)

text \<open>Clearing the column of a bar hides how far the bar has been drawn.\<close>

context bar
begin

lemma stop_hides_turns:
  assumes "bind (shell_stop p s) (clear_column column) = Inr a"
  shows "\<exists>i y b. run_turns turn count (0, sio s) = Inr (i, y) \<and>
    bind (shell_stop p (s\<lparr>sio := y\<rparr>)) (clear_column column) = Inr b \<and> sio b = sio a"
proof -
  obtain i y where run: "run_turns turn count (0, sio s) = Inr (i, y)"
    and y: "ports y = ports (sio s)" "\<forall>p. p mod 80 \<noteq> column \<or> p < 0 \<or> 2000 \<le> p \<longrightarrow> vga y p = vga (sio s) p"
    using bar_frame [of count "sio s"] by blast
  obtain z where z: "sys_stop (zero_registers\<lparr>reg_rdi := p\<rparr>) (ssys s) = Inr z" "clear_column column (s\<lparr>ssys := z\<rparr>) = Inr a"
    using assms by (auto simp: shell_stop_def bind_eq_Inr_iff)
  have io: "sio (s\<lparr>sio := y, ssys := z\<rparr>) = y" "sio (s\<lparr>ssys := z\<rparr>) = sio s" by simp_all
  obtain b where b: "clear_column column (s\<lparr>sio := y, ssys := z\<rparr>) = Inr b" "ports (sio b) = ports y"
      "vga (sio b) = (\<lambda>p. if p mod 80 = column \<and> 0 \<le> p \<and> p < 2000 then glyph 0x20 else vga y p)"
    using clear_column_eq [OF column, of "s\<lparr>sio := y, ssys := z\<rparr>", unfolded io(1)] by auto
  have a: "ports (sio a) = ports (sio s)"
      "vga (sio a) = (\<lambda>p. if p mod 80 = column \<and> 0 \<le> p \<and> p < 2000 then glyph 0x20 else vga (sio s) p)"
    using clear_column_eq [OF column, of "s\<lparr>ssys := z\<rparr>", unfolded io(2)] z(2) by auto
  have "vga (sio b) = vga (sio a)" unfolding a b using y(2) by (auto simp: fun_eq_iff)
  then have "sio b = sio a" using a(1) b(2) y(1) by simp
  then show ?thesis using z(1) b(1) run by (simp add: shell_stop_def)
qed

end

section \<open>Example\<close>

text \<open>A shell that has started both programs.\<close>

definition bar_shell :: shell where
  "bar_shell = example_shell\<lparr>process0_running := True, process1_running := True,
     ssys := example_running\<lparr>procs := (procs example_running)[2 := (procs example_running ! 2)\<lparr>pstate := P_RUNNABLE\<rparr>,
       3 := (procs example_running ! 3)\<lparr>pstate := P_RUNNABLE\<rparr>]\<rparr>\<rparr>"

lemma bar_shell_stops: "\<exists>a. cmd_stop0 bar_shell = Inr a" "\<exists>a. cmd_stop1 bar_shell = Inr a"
proof -
  obtain z where "sys_stop (zero_registers\<lparr>reg_rdi := 2\<rparr>) (ssys bar_shell) = Inr z"
    by (simp add: sys_stop_def kassert_def bar_shell_def example_running_def del: upt_Suc)
  then show "\<exists>a. cmd_stop0 bar_shell = Inr a"
    using clear_column_eq [of 76 "bar_shell\<lparr>process0_running := False, ssys := z\<rparr>"]
    by (auto simp: cmd_stop0_def shell_stop_def bar_shell_def)
  obtain z where "sys_stop (zero_registers\<lparr>reg_rdi := 3\<rparr>) (ssys bar_shell) = Inr z"
    by (simp add: sys_stop_def kassert_def bar_shell_def example_running_def del: upt_Suc)
  then show "\<exists>a. cmd_stop1 bar_shell = Inr a"
    using clear_column_eq [of 78 "bar_shell\<lparr>process1_running := False, ssys := z\<rparr>"]
    by (auto simp: cmd_stop1_def shell_stop_def bar_shell_def)
qed

section \<open>Properties\<close>

text \<open>C34:
  The first program draws a bar in column 76, the second in column 78: in the first half of a cycle the rows are blanked from the
  top, in the second half they are filled one by one, and at its end the column is full. The programs write nowhere else on the
  screen, and the only ports they write are those that enable the interrupts at their start.
\<close>

theorem dummy_bar:
  assumes "0 \<le> k" "k \<le> 50000" "0 \<le> l" "l \<le> 100000"
  shows "dummy1_main (nat k) x = Inr (k mod 50000, (enable_interrupts x)\<lparr>vga := bar_cell 1000 76 (vga x) k\<rparr>) \<and>
    dummy2_main (nat l) x = Inr (l mod 100000, (enable_interrupts x)\<lparr>vga := bar_cell 2000 78 (vga x) l\<rparr>)"
  using dummy1.bar_run [of k "enable_interrupts x"] dummy2.bar_run [of l "enable_interrupts x"] assms
  by (simp add: dummy1_main_def dummy2_main_def enable_interrupts_def outb_def)

theorem dummy_bar_witness:
  "(\<exists>i y. dummy1_main 50000 \<lparr>vga = (\<lambda>_. 0), ports = []\<rparr> = Inr (i, y) \<and> vga y 156 = glyph 0x23) \<and>
   (\<exists>i y. dummy2_main 100000 \<lparr>vga = (\<lambda>_. 0), ports = []\<rparr> = Inr (i, y) \<and> vga y 158 = glyph 0x23)"
proof -
  let ?x = "\<lparr>vga = (\<lambda>_. 0), ports = []\<rparr> :: io"
  have "dummy1_main (nat 50000) ?x = Inr (50000 mod 50000, (enable_interrupts ?x)\<lparr>vga := bar_cell 1000 76 (vga ?x) 50000\<rparr>) \<and>
      dummy2_main (nat 100000) ?x = Inr (100000 mod 100000, (enable_interrupts ?x)\<lparr>vga := bar_cell 2000 78 (vga ?x) 100000\<rparr>)"
    by (rule dummy_bar) simp_all
  then show ?thesis by (simp add: bar_cell_def)
qed

text \<open>C33:
  Stopping a program leaves no trace of it on the display: however many turns it has run since the shell's last output, the
  display after the \<open>stop\<close> command is the one without these turns.
\<close>

theorem stop_leaves_no_trace:
  assumes "cmd_stop0 s = Inr a" "process0_running s" and "cmd_stop1 t = Inr c" "process1_running t"
  shows "(\<exists>i y b. run_turns dummy1_turn count (0, sio s) = Inr (i, y) \<and>
       cmd_stop0 (s\<lparr>sio := y\<rparr>) = Inr b \<and> sio b = sio a) \<and>
    (\<exists>i y d. run_turns dummy2_turn count (0, sio t) = Inr (i, y) \<and>
       cmd_stop1 (t\<lparr>sio := y\<rparr>) = Inr d \<and> sio d = sio c)"
proof -
  have swap: "x\<lparr>process0_running := r, sio := y\<rparr> = x\<lparr>sio := y, process0_running := r\<rparr>"
    "x\<lparr>process1_running := r, sio := y\<rparr> = x\<lparr>sio := y, process1_running := r\<rparr>" for x :: shell and r y
    by simp_all
  show ?thesis
    using dummy1.stop_hides_turns [of 2 "s\<lparr>process0_running := False\<rparr>" a count]
      dummy2.stop_hides_turns [of 3 "t\<lparr>process1_running := False\<rparr>" c count] assms
    by (simp add: cmd_stop0_def cmd_stop1_def swap)
qed

theorem stop_leaves_no_trace_witness:
  "\<exists>a b c d i y j z. run_turns dummy1_turn 3 (0, sio bar_shell) = Inr (i, y) \<and> run_turns dummy2_turn 3 (0, sio bar_shell) = Inr (j, z) \<and>
    cmd_stop0 bar_shell = Inr a \<and> cmd_stop0 (bar_shell\<lparr>sio := y\<rparr>) = Inr b \<and> sio b = sio a \<and>
    cmd_stop1 bar_shell = Inr c \<and> cmd_stop1 (bar_shell\<lparr>sio := z\<rparr>) = Inr d \<and> sio d = sio c"
proof -
  obtain a c where "cmd_stop0 bar_shell = Inr a" "cmd_stop1 bar_shell = Inr c" using bar_shell_stops by blast
  then show ?thesis using stop_leaves_no_trace [of bar_shell a bar_shell c 3] by (auto simp: bar_shell_def)
qed

end
