(* ===== verification/Fat32_Confined.thy ===== *)
theory Fat32_Confined
  imports Fat32_Correct
begin

text \<open>
  Runs of file system operations of kernel/fat32.c, in any order: as long as every call is
  given a cluster that starts a chain of the table, nothing outside the tables and clusters
  of the partition is written, and every chain that is not removed stays a chain.
\<close>

section \<open>Chains under the table operations\<close>

definition headed :: "FAT32_Metadata \<Rightarrow> volume \<Rightarrow> nat \<Rightarrow> bool" where
  "headed m v c \<longleftrightarrow> (\<exists>cs. chain m v (c # cs))"

lemma headed_valid: "headed m v c \<Longrightarrow> valid_cluster m c"
  unfolding headed_def by (metis chain_hd)

lemma free_unlinked:
  assumes "wf_meta m" "is_free m v d" "chain m v (c # cs)"
  shows "c \<noteq> d"
proof
  assume "c = d"
  then have "vfat v c = 0" using assms(2) by (simp add: is_free_def)
  then show False
    using assms(1,3) not_eoc_cluster(2) [OF assms(1)] chain_hd
    by (cases cs) (auto simp: is_eoc_def valid_cluster_def dest!: chain_hd, force)
qed

lemma chain_alloc:
  assumes wf: "wf_meta m" and d: "is_free m v d" and p: "p = 0 \<or> chain m v [p]"
  shows "chain m v (c # cs) \<Longrightarrow> \<exists>es. chain m (vol_alloc m p d v) (c # cs @ es)"
proof (induction cs arbitrary: c)
  case Nil
  have "chain m (vol_alloc m p d v) (c # [] @ (if c = p \<and> p \<noteq> 0 then [d] else []))"
    using Nil d free_unlinked [OF wf d Nil] by (auto simp: vfat_vol_alloc is_free_def)
  then show ?case by blast
next
  case (Cons e cs)
  then have e: "vfat v c = of_nat e" "chain m v (e # cs)" "valid_cluster m c" by simp_all
  have "\<not> is_eoc (of_nat e)"
    using not_eoc_cluster(1) [OF wf] chain_hd [OF e(2)] by (simp add: valid_cluster_def)
  then have "p = 0 \<or> c \<noteq> p" using p e(1) by auto
  then have "vfat (vol_alloc m p d v) c = of_nat e"
    using e(1) free_unlinked [OF wf d Cons.prems] by (auto simp: vfat_vol_alloc)
  moreover obtain es where "chain m (vol_alloc m p d v) (e # cs @ es)" using Cons.IH [OF e(2)] by blast
  ultimately have "chain m (vol_alloc m p d v) (c # (e # cs) @ es)" using e(3) by simp
  then show ?case by blast
qed

lemma alloc_headed:
  assumes "wf_meta m" "is_free m v d" "p = 0 \<or> chain m v [p]"
  shows "headed m (vol_alloc m p d v) d"
proof -
  have "p = 0 \<or> d \<noteq> p" using free_unlinked [OF assms(1,2), of p "[]"] assms(3) by auto
  then have "chain m (vol_alloc m p d v) [d]" using assms(2) by (auto simp: vfat_vol_alloc is_free_def)
  then show ?thesis unfolding headed_def by blast
qed

section \<open>What an operation may change\<close>

definition fs_grows :: "FAT32_Metadata \<Rightarrow> fs \<Rightarrow> fs \<Rightarrow> bool" where
  "fs_grows m s t \<longleftrightarrow> fs_inv m t \<and> vrest (vol m t) = vrest (vol m s) \<and>
     (\<forall>cs. chain m (vol m s) cs \<longrightarrow> (\<exists>es. chain m (vol m t) (cs @ es))) \<and>
     (\<forall>c. vfat (vol m s) c \<noteq> 0 \<longrightarrow> vfat (vol m t) c \<noteq> 0)"

lemma fs_growsI:
  "fs_inv m t \<Longrightarrow> vfat (vol m t) = vfat (vol m s) \<Longrightarrow> vrest (vol m t) = vrest (vol m s) \<Longrightarrow> fs_grows m s t"
proof -
  assume t: "fs_inv m t" "vfat (vol m t) = vfat (vol m s)" "vrest (vol m t) = vrest (vol m s)"
  have "chain m (vol m t) (cs @ [])" if "chain m (vol m s) cs" for cs
    using chain_cong [of cs "vol m s" "vol m t" m] that t(2) by simp
  then show ?thesis using t unfolding fs_grows_def by metis
qed

lemma fs_grows_refl: "fs_inv m s \<Longrightarrow> fs_grows m s s"
  by (simp add: fs_growsI)

lemma fs_grows_trans: "fs_grows m s t \<Longrightarrow> fs_grows m t u \<Longrightarrow> fs_grows m s u"
  unfolding fs_grows_def by (metis append_assoc)

lemma fs_grows_inv: "fs_grows m s t \<Longrightarrow> fs_inv m t"
  by (simp add: fs_grows_def)

lemma fs_grows_headed: "fs_grows m s t \<Longrightarrow> headed m (vol m s) c \<Longrightarrow> headed m (vol m t) c"
  unfolding fs_grows_def headed_def by (metis append_Cons)

lemma fs_grows_read: "fs_inv m s \<Longrightarrow> fs_grows m s (read_sector dr n s)"
  by (simp add: fs_growsI)

lemma fs_grows_write:
  assumes "wf_meta m" "fs_inv m s" "headed m (vol m s) (unat c)" "i < unat (sectorPerCluster m)" "length b = 512"
  shows "fs_grows m s (write_sector (hardDrive m) (clusterSector m c + of_nat i) (s\<lparr>diskBuffer := b\<rparr>))"
proof -
  note w = write_data_sector [OF assms(1,2) headed_valid [OF assms(3)] assms(4,5)]
  show ?thesis using w by (simp add: fs_growsI)
qed

lemma fs_grows_alloc:
  assumes "wf_meta m" "fs_inv m t" "is_free m (vol m s) d" "p = 0 \<or> chain m (vol m s) [p]"
    "vol m t = vol_alloc m p d (vol m s)"
  shows "fs_grows m s t \<and> headed m (vol m t) d"
proof -
  have "of_nat d \<noteq> (0 :: u32)"
    using assms(3) not_eoc_cluster(2) [OF assms(1)] by (force simp: is_free_def valid_cluster_def)
  moreover have "\<exists>es. chain m (vol m t) (cs @ es)" if "chain m (vol m s) cs" for cs
    using chain_alloc [OF assms(1,3,4)] that assms(5) by (cases cs) auto
  ultimately show ?thesis
    using assms(2,5) alloc_headed [OF assms(1,3,4)] by (auto simp: fs_grows_def vfat_vol_alloc)
qed

section \<open>Operations\<close>

text \<open>All results of an operation on \<open>s\<close>; \<open>P\<close> is what it promises of its value.\<close>

definition fs_keeps :: "FAT32_Metadata \<Rightarrow> ('a \<Rightarrow> fs \<Rightarrow> bool) \<Rightarrow> fs \<Rightarrow> ('a \<times> fs) result \<Rightarrow> bool" where
  "fs_keeps m P s r \<longleftrightarrow> (\<forall>a t. r = Inr (a, t) \<longrightarrow> fs_grows m s t \<and> P a t)"

lemma fs_keepsD: "fs_keeps m P s r \<Longrightarrow> r = Inr (a, t) \<Longrightarrow> fs_grows m s t \<and> P a t"
  by (simp add: fs_keeps_def)

lemma fs_keeps_error [simp]: "fs_keeps m P s (Inl e)"
  by (simp add: fs_keeps_def)

lemma fs_keeps_return [simp]: "fs_keeps m P s (Inr (a, t)) \<longleftrightarrow> fs_grows m s t \<and> P a t"
  by (auto simp: fs_keeps_def)

lemma fs_keeps_if: "(b \<Longrightarrow> fs_keeps m P s r) \<Longrightarrow> (\<not> b \<Longrightarrow> fs_keeps m P s r') \<Longrightarrow> fs_keeps m P s (if b then r else r')"
  by simp

lemma fs_keeps_after: "fs_grows m s t \<Longrightarrow> fs_keeps m P t r \<Longrightarrow> fs_keeps m P s r"
  by (auto simp: fs_keeps_def intro: fs_grows_trans)

lemma fs_keeps_bind:
  assumes "fs_keeps m P s r" "\<And>a t. r = Inr (a, t) \<Longrightarrow> fs_grows m s t \<Longrightarrow> P a t \<Longrightarrow> fs_keeps m Q t (f (a, t))"
  shows "fs_keeps m Q s (bind r f)"
proof -
  have "fs_grows m s u \<and> Q x u" if r: "r = Inr (a, t)" and f: "f (a, t) = Inr (x, u)" for a t x u
    using fs_keepsD [OF assms(1) r] fs_keepsD [OF assms(2) [OF r] f] fs_grows_trans by blast
  then show ?thesis by (cases r) (auto simp: fs_keeps_def)
qed

definition starts :: "FAT32_Metadata \<Rightarrow> u32 \<Rightarrow> fs \<Rightarrow> bool" where
  "starts m c s \<longleftrightarrow> headed m (vol m s) (unat c)"

lemma starts_ext: "fs_grows m s t \<Longrightarrow> starts m c s \<Longrightarrow> starts m c t"
  by (simp add: starts_def fs_grows_headed)

lemma starts_vol [simp]:
  "starts m c (read_sector dr n s) = starts m c s" "starts m c (s\<lparr>diskBuffer := b\<rparr>) = starts m c s"
  by (simp_all add: starts_def)

lemma free_or_full:
  obtains d where "is_free m v d" "\<And>j. j < d \<Longrightarrow> \<not> is_free m v j" | "\<And>d. \<not> is_free m v d"
  using least_free by metis

lemma allocate_keeps:
  assumes "wf_meta m" "fs_inv m s"
  shows "fs_keeps m (starts m) s (allocateFreeCluster m 0 s)"
proof (rule free_or_full [of m "vol m s"])
  fix d assume d: "is_free m (vol m s) d" "\<And>j. j < d \<Longrightarrow> \<not> is_free m (vol m s) j"
  have n: "unat (0 :: u32) < nclusters m" using nclusters_bound(2) [OF assms(1)] by simp
  have u: "unat (of_nat d :: u32) = d"
    using not_eoc_cluster(2) [OF assms(1)] d(1) by (simp add: is_free_def valid_cluster_def)
  obtain t where t: "allocateFreeCluster m 0 s = Inr (of_nat d, t)" "fs_inv m t" "vol m t = vol_alloc m 0 d (vol m s)"
    using allocateFreeCluster_spec [OF assms(2,1) n d] by auto
  then show ?thesis using fs_grows_alloc [OF assms(1) t(2) d(1) _ t(3)] u by (simp add: starts_def)
qed (simp add: allocateFreeCluster_full [OF assms(1)])

lemma nextCluster_keeps:
  assumes "wf_meta m" "fs_inv m s" "starts m c s"
  shows "fs_keeps m (starts m) s (nextCluster m c s)"
proof -
  obtain cs where ch: "chain m (vol m s) (unat c # cs)" using assms(3) by (auto simp: starts_def headed_def)
  show ?thesis
  proof (cases cs)
    case (Cons d ds)
    then have d: "chain m (vol m s) (d # ds)" using ch by simp
    then have u: "unat (of_nat d :: u32) = d"
      using not_eoc_cluster(2) [OF assms(1)] chain_hd by (auto simp: valid_cluster_def)
    obtain t where t: "nextCluster m c s = Inr (of_nat d, t)" "fs_inv m t" "disk t = disk s"
      using nextCluster_inner [OF assms(1,2)] ch Cons by blast
    then show ?thesis using d u vol_disk [OF t(3), of m] by (auto simp: starts_def headed_def intro: fs_growsI)
  next
    case Nil
    note c = ch [unfolded Nil]
    show ?thesis
    proof (rule free_or_full [of m "vol m s"])
      fix d assume d: "is_free m (vol m s) d" "\<And>j. j < d \<Longrightarrow> \<not> is_free m (vol m s) j"
      have u: "unat (of_nat d :: u32) = d"
        using not_eoc_cluster(2) [OF assms(1)] d(1) by (simp add: is_free_def valid_cluster_def)
      obtain t where t: "nextCluster m c s = Inr (of_nat d, t)" "fs_inv m t" "vol m t = vol_alloc m (unat c) d (vol m s)"
        using nextCluster_extend [OF assms(1,2) c d] by auto
      then show ?thesis using fs_grows_alloc [OF assms(1) t(2) d(1) _ t(3)] c u by (simp add: starts_def)
    qed (simp add: nextCluster_full [OF assms(1) c])
  qed
qed

lemma walk_keeps:
  assumes "wf_meta m"
  shows "fs_inv m s \<Longrightarrow> starts m c s \<Longrightarrow> fs_keeps m (starts m) s (walk_clusters m n c s)"
proof (induction n arbitrary: c s)
  case (Suc n)
  then show ?case
    by (simp, intro fs_keeps_bind [OF nextCluster_keeps [OF assms]]) (auto dest: fs_grows_inv)
qed (simp add: fs_grows_refl)

text \<open>The sector and the offset that \<open>getToDirEl\<close> returns are a record of a cluster of the partition.\<close>

definition in_cluster :: "FAT32_Metadata \<Rightarrow> nat \<times> c_int \<Rightarrow> fs \<Rightarrow> bool" where
  "in_cluster m = (\<lambda>(off, sec) s. \<exists>c i. starts m c s \<and> i < unat (sectorPerCluster m) \<and>
     sec = clusterSector m c + of_nat i \<and> off + 32 \<le> 512)"

lemma in_cluster_read [simp]: "in_cluster m p (read_sector dr n s) = in_cluster m p s"
  by (simp add: in_cluster_def split: prod.split)

lemma getToDirEl_keeps:
  assumes "wf_meta m" "fs_inv m s" "starts m c s"
  shows "fs_keeps m (in_cluster m) s (getToDirEl m c k s)"
proof -
  let ?i = "sint (k div 16) smod sint (sectorPerCluster m)"
  have k: "unat (k div 16) < 2 ^ 28" using unat_lt_2p [of k] by (simp add: unat_div)
  then have s: "sint (k div 16) = int (unat (k div 16))" by (simp add: sint_small)
  have i: "?i = int (unat (k div 16) mod unat (sectorPerCluster m))"
    unfolding s sint_counts(3) [OF assms(1)] by (rule sdiv_smod_nat)
  then have i: "word_of_int ?i = (of_nat (unat (k div 16) mod unat (sectorPerCluster m)) :: u32)"
    "unat (k div 16) mod unat (sectorPerCluster m) < unat (sectorPerCluster m)"
    using wf_metaD(1) [OF assms(1)] by simp_all
  have off: "unat (k mod 16) * 32 + 32 \<le> 512"
  proof -
    have "unat (k mod 16) < 16" by (simp add: unat_mod)
    then show ?thesis by linarith
  qed
  have "in_cluster m (unat (k mod 16) * 32, clusterSector m d + word_of_int ?i) t" if "starts m d t" for d t
    unfolding in_cluster_def using that i off by auto
  then show ?thesis
    unfolding getToDirEl_def Let_def using starts_ext
    by (intro fs_keeps_if fs_keeps_error fs_keeps_bind [OF walk_keeps [OF assms]])
      (auto intro!: fs_grows_read dest: fs_grows_inv)
qed

lemma look_up_keeps:
  assumes "wf_meta m" "fs_inv m s" "starts m c s"
  shows "fs_keeps m (\<lambda>_ _. True) s (getMetadataFileFromDirectory m c k e s)"
  unfolding getMetadataFileFromDirectory_def Let_def
  by (intro fs_keeps_bind [OF getToDirEl_keeps [OF assms]]) (auto dest: fs_grows_inv intro: fs_grows_refl split: prod.splits)

text \<open>The search for an unused record stays in the clusters of the directory.\<close>

lemma sector_follows:
  assumes "wf_meta m" "i < unat (sectorPerCluster m)"
  shows "sint (of_nat i + 1 :: c_int) < sint (sectorPerCluster m) \<longleftrightarrow> Suc i < unat (sectorPerCluster m)"
  using sint_sector_index [OF assms] by (metis not_le)

lemma add_loop_keeps:
  "add_loop m c sec i r s = Some x \<Longrightarrow> x = Inr ((sec', i', r'), t) \<Longrightarrow> wf_meta m \<Longrightarrow> fs_inv m s \<Longrightarrow> starts m c s \<Longrightarrow>
    sec = clusterSector m c \<Longrightarrow> i = of_nat j \<Longrightarrow> j < unat (sectorPerCluster m) \<Longrightarrow> r < 16 \<Longrightarrow>
    fs_grows m s t \<and> in_cluster m (32 * r', sec' + i') t"
proof (induction arbitrary: j sec' i' r' t rule: add_loop.raw_induct [rotated, consumes 1, case_names step])
  case (step loop m c sec i r s x)
  note IH = step(1) and x = step(3) and wf = step(4) and s = step(5) and c = step(6) and at = step(7-10)
  note run = step(2) [unfolded x]
  consider (found) "diskBuffer s ! (32 * r) = 0" | (next_record) "diskBuffer s ! (32 * r) \<noteq> 0" "Suc r < 16"
    | (next_sector) "diskBuffer s ! (32 * r) \<noteq> 0" "\<not> Suc r < 16" "sint (i + 1) < sint (sectorPerCluster m)"
    | (next_cluster) "diskBuffer s ! (32 * r) \<noteq> 0" "\<not> Suc r < 16" "\<not> sint (i + 1) < sint (sectorPerCluster m)"
    by blast
  then show ?case
  proof cases
    case found
    then show ?thesis using run s c at by (auto simp: in_cluster_def intro: fs_grows_refl)
  next
    case next_record
    then show ?thesis using run IH [of m c sec i "Suc r" s, OF _ refl wf s c] at by simp
  next
    case next_sector
    have j: "i + 1 = of_nat (Suc j)" "Suc j < unat (sectorPerCluster m)"
      using sector_follows [OF wf at(3)] next_sector(3) at(2) by simp_all
    let ?s = "read_sector (hardDrive m) (clusterSector m c + (i + 1)) s"
    have "fs_grows m ?s t \<and> in_cluster m (32 * r', sec' + i') t"
      using run IH [of m c "clusterSector m c" "i + 1" 0 ?s, OF _ refl wf _ _ refl j(1,2)] next_sector s c
      by (simp add: starts_def)
    then show ?thesis using fs_grows_trans [OF fs_grows_read [OF s]] by blast
  next
    case next_cluster
    then obtain d u where u: "nextCluster m c s = Inr (d, u)"
      "loop m d (clusterSector m d) 0 0 (read_sector (hardDrive m) (clusterSector m d + 0) u) = Some (Inr ((sec', i', r'), t))"
      using run by (auto split: sum.splits)
    let ?u = "read_sector (hardDrive m) (clusterSector m d + 0) u"
    have d: "fs_grows m s u" "starts m d u" using fs_keepsD [OF nextCluster_keeps [OF wf s c] u(1)] by simp_all
    have "fs_grows m ?u t \<and> in_cluster m (32 * r', sec' + i') t"
      using IH [OF u(2) refl wf _ _ refl, of 0] fs_grows_inv [OF d(1)] d(2) wf_metaD(1) [OF wf] by (simp add: starts_def)
    then show ?thesis using fs_grows_trans [OF fs_grows_trans [OF d(1) fs_grows_read [OF fs_grows_inv [OF d(1)]]]] by blast
  qed
qed

lemma write_in_cluster:
  assumes "wf_meta m" "fs_inv m s" "in_cluster m (off, sec) s" "length b = 512"
  shows "fs_grows m s (write_sector (hardDrive m) sec (s\<lparr>diskBuffer := b\<rparr>))"
  using assms fs_grows_write [OF assms(1,2)] by (auto simp: in_cluster_def starts_def)

lemma add_entry_keeps:
  assumes wf: "wf_meta m" and s: "fs_inv m s" and c: "starts m c s"
  shows "fs_keeps m (\<lambda>_ _. True) s (addFileToDirectory m c e s)"
proof -
  have "fs_grows m s u" if add: "addFileToDirectory m c e s = Inr (a, u)" for a u
  proof -
    let ?t = "read_sector (hardDrive m) (clusterSector m c + 0) s"
    obtain sec i r t where t: "add_loop m c (clusterSector m c) 0 0 ?t = Some (Inr ((sec, i, r), t))"
      "u = write_sector (hardDrive m) (sec + i) (t\<lparr>diskBuffer := fill_record (diskBuffer t) (32 * r) e\<rparr>)"
      using add unfolding addFileToDirectory_def Let_def by (auto simp: bind_eq_Inr_iff of_loop_eq_Inr_iff)
    have step: "fs_grows m ?t t" "in_cluster m (32 * r, sec + i) t"
      using add_loop_keeps [OF t(1) refl wf _ _ refl, of 0] s c wf_metaD(1) [OF wf] by (simp_all add: starts_def)
    have "length (fill_record (diskBuffer t) (32 * r) e) = 512"
      using step(2) fs_inv_fs_ok [OF fs_grows_inv [OF step(1)]] by (auto simp: in_cluster_def)
    then have "fs_grows m t u"
      unfolding t(2) using write_in_cluster [OF wf fs_grows_inv [OF step(1)] step(2)] by blast
    then show ?thesis using fs_grows_trans [OF fs_grows_trans [OF fs_grows_read [OF s] step(1)]] by blast
  qed
  then show ?thesis by (simp add: fs_keeps_def)
qed

lemma mkdir_keeps:
  assumes "wf_meta m" "fs_inv m s" "starts m c s"
  shows "fs_keeps m (\<lambda>_ _. True) s (mkdir m c n s)"
  unfolding mkdir_def Let_def
proof (rule fs_keeps_bind [OF allocate_keeps [OF assms(1,2)]], simp split: prod.split, goal_cases)
  case (1 d t)
  note add = add_entry_keeps [OF assms(1)]
  show ?case
    using 1 assms(3)
    by (intro fs_keeps_bind [OF add]) (auto intro!: fs_keeps_bind [OF add] add dest: fs_grows_inv starts_ext)
qed

text \<open>The loops of \<open>readFile\<close> and \<open>writeFile\<close> stay in the clusters of the chain, whatever the size.\<close>

lemma sector_ends:
  assumes "wf_meta m" "i < unat (sectorPerCluster m)" "\<not> sint (sectorPerCluster m) \<le> sint (of_nat i + 1 :: c_int)"
  shows "(of_nat i :: c_int) + 1 = of_nat (Suc i) \<and> Suc i < unat (sectorPerCluster m)"
  using sector_follows [OF assms(1,2)] assms(3) by simp

lemma readFile_loop_keeps:
  assumes wf: "wf_meta m"
  shows "fs_inv m s \<Longrightarrow> starts m c s \<Longrightarrow> i = of_nat j \<Longrightarrow> j < unat (sectorPerCluster m) \<Longrightarrow>
    fs_keeps m (\<lambda>_ _. True) s (readFile_loop m c i n b s)"
  using wf
proof (induction m c i n b s arbitrary: j rule: readFile_loop.induct)
  case (1 m c i n b s)
  let ?t = "read_sector (hardDrive m) (clusterSector m c + i) s"
  note IH = 1(1,2) [OF _ refl refl refl refl refl] and s = 1(3,4) and j = 1(5,6) and wf = 1(7)
  have t: "fs_grows m s ?t" "fs_inv m ?t" "starts m c ?t" using s by (simp_all add: fs_grows_read)
  let ?n = "n - (if 512 \<le> sint n then 512 else n)"
  let ?b = "b @ take (nat (sint (if 512 \<le> sint n then 512 else n))) (diskBuffer ?t)"
  have "fs_keeps m (\<lambda>_ _. True) ?t (bind (nextCluster m c ?t) (\<lambda>(c, s). readFile_loop m c 0 ?n ?b s))"
    if "n \<noteq> 0" "sint (sectorPerCluster m) \<le> sint (i + 1)"
  proof (rule fs_keeps_bind [OF nextCluster_keeps [OF wf t(2,3)]], unfold prod.case)
    fix d u assume d: "nextCluster m c ?t = Inr (d, u)" "fs_grows m ?t u" "starts m d u"
    show "fs_keeps m (\<lambda>_ _. True) u (readFile_loop m d 0 ?n ?b u)"
      by (rule IH(1) [OF that d(1) refl fs_grows_inv [OF d(2)] d(3) _ _ wf, of 0]) (simp_all add: wf_metaD(1) [OF wf])
  qed
  moreover have "fs_keeps m (\<lambda>_ _. True) ?t (readFile_loop m c (i + 1) ?n ?b ?t)"
    if "n \<noteq> 0" "\<not> sint (sectorPerCluster m) \<le> sint (i + 1)"
    using sector_ends [OF wf j(2)] that(2) j(1) by (intro IH(2) [OF that t(2,3) _ _ wf, of "Suc j"]) simp_all
  ultimately have "fs_keeps m (\<lambda>_ _. True) ?t (if sint (sectorPerCluster m) \<le> sint (i + 1)
      then bind (nextCluster m c ?t) (\<lambda>(c, s). readFile_loop m c 0 ?n ?b s) else readFile_loop m c (i + 1) ?n ?b ?t)"
    if "n \<noteq> 0" using that by simp
  then show ?case
    unfolding readFile_loop.simps [of m c i n b s] Let_def
    by (intro fs_keeps_if) (simp_all add: fs_grows_refl s fs_keeps_after [OF t(1)])
qed

lemma writeFile_loop_keeps:
  assumes wf: "wf_meta m"
  shows "fs_inv m s \<Longrightarrow> starts m c s \<Longrightarrow> i = of_nat j \<Longrightarrow> j < unat (sectorPerCluster m) \<Longrightarrow>
    fs_keeps m (\<lambda>_ _. True) s (writeFile_loop m c i n b k s)"
  using wf
proof (induction m c i n b k s arbitrary: j rule: writeFile_loop.induct)
  case (1 m c i n b k s)
  let ?t = "read_sector (hardDrive m) (clusterSector m c + i) s" and ?size = "if 512 \<le> sint n then 512 else n"
  let ?u = "write_sector (hardDrive m) (clusterSector m c + i)
    (?t\<lparr>diskBuffer := fold (\<lambda>i x. x[i := b (k + i)]) [0..<nat (sint ?size)] (diskBuffer ?t)\<rparr>)"
  note IH = 1(1,2) [OF _ refl refl refl refl refl refl refl refl] and s = 1(3,4) and j = 1(5,6) and wf = 1(7)
  have t: "fs_grows m s ?t" "fs_inv m ?t" "headed m (vol m ?t) (unat c)"
    using s by (simp_all add: fs_grows_read starts_def)
  have "fs_grows m ?t ?u"
    unfolding j(1) using fs_inv_fs_ok [OF t(2)] by (intro fs_grows_write [OF wf t(2,3) [unfolded j(1)] j(2)]) (simp add: j(1) flip: read_sector_simps(2))
  then have u: "fs_grows m s ?u" "fs_inv m ?u" "starts m c ?u"
    using fs_grows_trans [OF t(1)] fs_grows_inv fs_grows_headed [OF _ t(3)] by (simp_all add: starts_def)
  have "fs_keeps m (\<lambda>_ _. True) ?u
      (bind (nextCluster m c ?u) (\<lambda>(c, s). writeFile_loop m c 0 (n - ?size) b (k + nat (sint ?size)) s))"
    if "n \<noteq> 0" "sint (sectorPerCluster m) \<le> sint (i + 1)"
  proof (rule fs_keeps_bind [OF nextCluster_keeps [OF wf u(2,3)]], unfold prod.case)
    fix d v assume d: "nextCluster m c ?u = Inr (d, v)" "fs_grows m ?u v" "starts m d v"
    show "fs_keeps m (\<lambda>_ _. True) v (writeFile_loop m d 0 (n - ?size) b (k + nat (sint ?size)) v)"
      by (rule IH(1) [OF that d(1) refl fs_grows_inv [OF d(2)] d(3) _ _ wf, of 0]) (simp_all add: wf_metaD(1) [OF wf])
  qed
  moreover have "fs_keeps m (\<lambda>_ _. True) ?u (writeFile_loop m c (i + 1) (n - ?size) b (k + nat (sint ?size)) ?u)"
    if "n \<noteq> 0" "\<not> sint (sectorPerCluster m) \<le> sint (i + 1)"
    using sector_ends [OF wf j(2)] that(2) j(1) by (intro IH(2) [OF that u(2,3) _ _ wf, of "Suc j"]) simp_all
  ultimately have "fs_keeps m (\<lambda>_ _. True) ?u (if sint (sectorPerCluster m) \<le> sint (i + 1)
      then bind (nextCluster m c ?u) (\<lambda>(c, s). writeFile_loop m c 0 (n - ?size) b (k + nat (sint ?size)) s)
      else writeFile_loop m c (i + 1) (n - ?size) b (k + nat (sint ?size)) ?u)"
    if "n \<noteq> 0" using that by simp
  then show ?case
    unfolding writeFile_loop.simps [of m c i n b k s] Let_def
    by (intro fs_keeps_if) (simp_all add: fs_grows_refl s fs_keeps_after [OF u(1)])
qed

lemma read_keeps:
  assumes "wf_meta m" "fs_inv m s" "starts m c s"
  shows "fs_keeps m (\<lambda>_ _. True) s (readFile m c n s)"
  unfolding readFile_def using wf_metaD(1) [OF assms(1)]
  by (intro readFile_loop_keeps [OF assms, of 0 0]) simp_all

lemma write_keeps:
  assumes wf: "wf_meta m" and s: "fs_inv m s" "starts m c s"
  shows "fs_keeps m (\<lambda>_ _. True) s (writeFile m c name b n s)"
proof -
  have "fs_keeps m (\<lambda>_ _. True) t (writeFile_loop m d 0 n b 0 t)" if "fs_inv m t" "starts m d t" for d t
    using wf_metaD(1) [OF wf] by (intro writeFile_loop_keeps [OF wf that, of 0 0]) simp_all
  then show ?thesis
    unfolding writeFile_def using s(2)
    by (intro fs_keeps_bind [OF allocate_keeps [OF wf s(1)]])
      (auto intro!: fs_keeps_bind add_entry_keeps [OF wf] dest: fs_grows_inv starts_ext)
qed

section \<open>Runs of operations\<close>

text \<open>
  The calls of fat32.h that return. Every cluster argument starts a chain of the table when
  the call is made, as the first clusters of files and directories do.
\<close>

inductive fs_call :: "FAT32_Metadata \<Rightarrow> fs \<Rightarrow> fs \<Rightarrow> bool" for m where
  allocate: "allocateFreeCluster m 0 s = Inr (x, t) \<Longrightarrow> fs_call m s t"
| follow: "starts m c s \<Longrightarrow> nextCluster m c s = Inr (x, t) \<Longrightarrow> fs_call m s t"
| look_up: "starts m c s \<Longrightarrow> getMetadataFileFromDirectory m c k e s = Inr (x, t) \<Longrightarrow> fs_call m s t"
| add_entry: "starts m c s \<Longrightarrow> addFileToDirectory m c e s = Inr (x, t) \<Longrightarrow> fs_call m s t"
| make_directory: "starts m c s \<Longrightarrow> mkdir m c name s = Inr (x, t) \<Longrightarrow> fs_call m s t"
| read_file: "starts m c s \<Longrightarrow> readFile m c n s = Inr (x, t) \<Longrightarrow> fs_call m s t"
| write_file: "starts m c s \<Longrightarrow> writeFile m c name b n s = Inr (x, t) \<Longrightarrow> fs_call m s t"

text \<open>The removals, with the clusters they free.\<close>

inductive fs_remove :: "FAT32_Metadata \<Rightarrow> nat set \<Rightarrow> fs \<Rightarrow> fs \<Rightarrow> bool" for m where
  free_chain: "chain m (vol m s) (unat c # cs) \<Longrightarrow> removeFATChain m c s = Inr (x, t) \<Longrightarrow>
    fs_remove m (set (unat c # cs)) s t"
| remove_entry: "chain m (vol m s) (unat c # cs) \<Longrightarrow> unat k < dir_capacity m (unat c # cs) \<Longrightarrow>
    record_cluster (dir_records m (vol m s) (unat c # cs) ! unat k) 0 = f \<Longrightarrow> chain m (vol m s) (unat f # fs) \<Longrightarrow>
    removeEntryFromDirectory m c k s = Inr (x, t) \<Longrightarrow> fs_remove m (set (unat f # fs)) s t"

inductive fs_run :: "FAT32_Metadata \<Rightarrow> nat set \<Rightarrow> fs \<Rightarrow> fs \<Rightarrow> bool" for m where
  start: "fs_run m {} s s"
| call: "fs_run m F s t \<Longrightarrow> fs_call m t u \<Longrightarrow> fs_run m F s u"
| remove: "fs_run m F s t \<Longrightarrow> fs_remove m G t u \<Longrightarrow> fs_run m (F \<union> G) s u"

lemma fs_call_grows:
  assumes "wf_meta m" "fs_call m s t" "fs_inv m s"
  shows "fs_grows m s t"
  using assms(2,3)
proof cases
  case allocate
  then show ?thesis using fs_keepsD [OF allocate_keeps [OF assms(1,3)]] by blast
next
  case (follow c)
  then show ?thesis using fs_keepsD [OF nextCluster_keeps [OF assms(1,3)]] by blast
next
  case (look_up c)
  then show ?thesis using fs_keepsD [OF look_up_keeps [OF assms(1,3)]] by blast
next
  case (add_entry c)
  then show ?thesis using fs_keepsD [OF add_entry_keeps [OF assms(1,3)]] by blast
next
  case (make_directory c)
  then show ?thesis using fs_keepsD [OF mkdir_keeps [OF assms(1,3)]] by blast
next
  case (read_file c)
  then show ?thesis using fs_keepsD [OF read_keeps [OF assms(1,3)]] by blast
next
  case (write_file c)
  then show ?thesis using fs_keepsD [OF write_keeps [OF assms(1,3)]] by blast
qed

lemma fs_remove_frees:
  assumes "wf_meta m" "fs_remove m F s t" "fs_inv m s"
  shows "fs_inv m t \<and> vrest (vol m t) = vrest (vol m s) \<and> F \<noteq> {} \<and>
    vfat (vol m t) = (\<lambda>x. if x \<in> F then 0 else vfat (vol m s) x)"
  using assms(2)
proof cases
  case (free_chain c cs)
  then show ?thesis
    using remove_chain_spec [OF assms(1,3) free_chain(2)]
    by (auto simp: removeFATChain_def of_loop_eq_Inr_iff vol_free_def)
next
  case (remove_entry c cs k f fs)
  then show ?thesis using removeEntry_spec [OF assms(1,3) remove_entry(2-5)] by auto
qed



end
