(* ===== verification/Processor.thy ===== *)
theory Processor
  imports Boot_Loader
begin

text \<open>
  The inline functions of kernel/x86-64.h and bootloader/x86-64.h that wrap one or two instructions, and the rounding macros of
  bootloader/lib.h. The instructions read and write the ports of a bus, memory and the flags of the processor. A bus is what a
  single access of 1, 2 or 4 bytes to a port does to the devices behind it; the repeated accesses of the string instructions are
  loops over it. The models of the two disk drivers use whole transfers, the record \<open>device\<close>; here they are proved to
  be what these loops do.
\<close>

section \<open>Ports\<close>

record 'd bus =
  bus_inb :: "u16 \<Rightarrow> 'd \<Rightarrow> u8 \<times> 'd"
  bus_inw :: "u16 \<Rightarrow> 'd \<Rightarrow> u16 \<times> 'd"
  bus_inl :: "u16 \<Rightarrow> 'd \<Rightarrow> u32 \<times> 'd"
  bus_outb :: "u16 \<Rightarrow> u8 \<Rightarrow> 'd \<Rightarrow> 'd"
  bus_outw :: "u16 \<Rightarrow> u16 \<Rightarrow> 'd \<Rightarrow> 'd"
  bus_outl :: "u16 \<Rightarrow> u32 \<Rightarrow> 'd \<Rightarrow> 'd"

record 'd cpu =
  devices :: 'd
  ram :: mem
  rflags :: u64

text \<open>The operand \<open>%w1\<close> is the low half of the port number.\<close>

definition inb :: "'d bus \<Rightarrow> c_int \<Rightarrow> 'd cpu \<Rightarrow> u8 \<times> 'd cpu" where
  "inb bus p s = (let (data, d) = bus_inb bus (ucast p) (devices s) in (data, s\<lparr>devices := d\<rparr>))"

definition inw :: "'d bus \<Rightarrow> c_int \<Rightarrow> 'd cpu \<Rightarrow> u16 \<times> 'd cpu" where
  "inw bus p s = (let (data, d) = bus_inw bus (ucast p) (devices s) in (data, s\<lparr>devices := d\<rparr>))"

definition inl :: "'d bus \<Rightarrow> c_int \<Rightarrow> 'd cpu \<Rightarrow> u32 \<times> 'd cpu" where
  "inl bus p s = (let (data, d) = bus_inl bus (ucast p) (devices s) in (data, s\<lparr>devices := d\<rparr>))"

definition outb_port :: "'d bus \<Rightarrow> c_int \<Rightarrow> u8 \<Rightarrow> 'd cpu \<Rightarrow> 'd cpu" where
  "outb_port bus p data s = s\<lparr>devices := bus_outb bus (ucast p) data (devices s)\<rparr>"

definition outw :: "'d bus \<Rightarrow> c_int \<Rightarrow> u16 \<Rightarrow> 'd cpu \<Rightarrow> 'd cpu" where
  "outw bus p data s = s\<lparr>devices := bus_outw bus (ucast p) data (devices s)\<rparr>"

definition outl :: "'d bus \<Rightarrow> c_int \<Rightarrow> u32 \<Rightarrow> 'd cpu \<Rightarrow> 'd cpu" where
  "outl bus p data s = s\<lparr>devices := bus_outl bus (ucast p) data (devices s)\<rparr>"

section \<open>String instructions\<close>

text \<open>
  \<open>cld\<close> clears the direction flag, bit 10, so that the address counts up. \<open>repne\<close> before an \<open>ins\<close> or \<open>outs\<close> acts as \<open>rep\<close>: the
  instruction runs as often as the count register says, and the count is the unsigned value of the argument.
\<close>

definition cld :: "'d cpu \<Rightarrow> 'd cpu" where
  "cld s = s\<lparr>rflags := rflags s AND NOT (push_bit 10 1)\<rparr>"

primrec ins_loop :: "('d \<Rightarrow> bytes \<times> 'd) \<Rightarrow> nat \<Rightarrow> u64 \<Rightarrow> mem \<times> 'd \<Rightarrow> mem \<times> 'd" where
  "ins_loop access 0 addr s = s"
| "ins_loop access (Suc cnt) addr s =
     (let (data, d) = access (snd s) in
      ins_loop access cnt (addr + of_nat (length data)) (store_bytes addr data (fst s), d))"

primrec outs_loop :: "(bytes \<Rightarrow> 'd \<Rightarrow> 'd) \<Rightarrow> nat \<Rightarrow> nat \<Rightarrow> mem \<Rightarrow> u64 \<Rightarrow> 'd \<Rightarrow> 'd" where
  "outs_loop access width 0 m addr d = d"
| "outs_loop access width (Suc cnt) m addr d =
     outs_loop access width cnt m (addr + of_nat width) (access (mem_bytes m addr width) d)"

text \<open>One access with the bytes in the order of memory.\<close>

definition in_bytes :: "nat \<Rightarrow> ('d \<Rightarrow> 'a::len word \<times> 'd) \<Rightarrow> 'd \<Rightarrow> bytes \<times> 'd" where
  "in_bytes width access d = (let (data, d) = access d in (le_enc width (unat data), d))"

definition out_bytes :: "('a::len word \<Rightarrow> 'd \<Rightarrow> 'd) \<Rightarrow> bytes \<Rightarrow> 'd \<Rightarrow> 'd" where
  "out_bytes access bs d = access (of_nat (le_dec bs)) d"

definition ins :: "('d \<Rightarrow> bytes \<times> 'd) \<Rightarrow> u64 \<Rightarrow> c_int \<Rightarrow> 'd cpu \<Rightarrow> 'd cpu" where
  "ins access addr cnt s =
     (let s = cld s; (m, d) = ins_loop access (unat cnt) addr (ram s, devices s) in s\<lparr>ram := m, devices := d\<rparr>)"

definition outs :: "(bytes \<Rightarrow> 'd \<Rightarrow> 'd) \<Rightarrow> nat \<Rightarrow> u64 \<Rightarrow> c_int \<Rightarrow> 'd cpu \<Rightarrow> 'd cpu" where
  "outs access width addr cnt s =
     (let s = cld s in s\<lparr>devices := outs_loop access width (unat cnt) (ram s) addr (devices s)\<rparr>)"

definition insb :: "'d bus \<Rightarrow> c_int \<Rightarrow> u64 \<Rightarrow> c_int \<Rightarrow> 'd cpu \<Rightarrow> 'd cpu" where
  "insb bus p addr cnt s = ins (in_bytes 1 (bus_inb bus (ucast p))) addr cnt s"

definition insw :: "'d bus \<Rightarrow> c_int \<Rightarrow> u64 \<Rightarrow> c_int \<Rightarrow> 'd cpu \<Rightarrow> 'd cpu" where
  "insw bus p addr cnt s = ins (in_bytes 2 (bus_inw bus (ucast p))) addr cnt s"

definition insl :: "'d bus \<Rightarrow> c_int \<Rightarrow> u64 \<Rightarrow> c_int \<Rightarrow> 'd cpu \<Rightarrow> 'd cpu" where
  "insl bus p addr cnt s = ins (in_bytes 4 (bus_inl bus (ucast p))) addr cnt s"

definition outsb :: "'d bus \<Rightarrow> c_int \<Rightarrow> u64 \<Rightarrow> c_int \<Rightarrow> 'd cpu \<Rightarrow> 'd cpu" where
  "outsb bus p addr cnt s = outs (out_bytes (bus_outb bus (ucast p))) 1 addr cnt s"

definition outsw :: "'d bus \<Rightarrow> c_int \<Rightarrow> u64 \<Rightarrow> c_int \<Rightarrow> 'd cpu \<Rightarrow> 'd cpu" where
  "outsw bus p addr cnt s = outs (out_bytes (bus_outw bus (ucast p))) 2 addr cnt s"

definition outsl :: "'d bus \<Rightarrow> c_int \<Rightarrow> u64 \<Rightarrow> c_int \<Rightarrow> 'd cpu \<Rightarrow> 'd cpu" where
  "outsl bus p addr cnt s = outs (out_bytes (bus_outl bus (ucast p))) 4 addr cnt s"

section \<open>Flags, atomic addition, processor identification\<close>

text \<open>
  \<open>pushfq\<close> shows the flags with bits 16 and 17 (RF, VM) as 0. \<open>popfq\<close> in the kernel sets the flags that are not reserved, leaves
  VM, VIF and VIP (bits 17, 19, 20) and clears RF.
\<close>

definition cli :: "'d cpu \<Rightarrow> 'd cpu" where
  "cli s = s\<lparr>rflags := rflags s AND NOT 0x200\<rparr>"

definition sti :: "'d cpu \<Rightarrow> 'd cpu" where
  "sti s = s\<lparr>rflags := rflags s OR 0x200\<rparr>"

definition read_eflags :: "'d cpu \<Rightarrow> u32" where
  "read_eflags s = ucast (rflags s AND NOT 0x30000)"

abbreviation (input) POPF_MASK :: u64 where "POPF_MASK \<equiv> 0x247FD5"

definition write_eflags :: "u32 \<Rightarrow> 'd cpu \<Rightarrow> 'd cpu" where
  "write_eflags eflags s = s\<lparr>rflags := (ucast eflags AND POPF_MASK) OR (rflags s AND NOT POPF_MASK AND NOT 0x10000)\<rparr>"

definition load32_at :: "mem \<Rightarrow> u64 \<Rightarrow> u32" where
  "load32_at m a = of_nat (le_dec (mem_bytes m a 4))"

text \<open>\<open>xaddl\<close>: the sum goes to memory and the old value to the register.\<close>

definition fetch_and_addl :: "u64 \<Rightarrow> u32 \<Rightarrow> mem \<Rightarrow> u32 \<times> mem" where
  "fetch_and_addl object addend m =
     (let old = load32_at m object in (old, store_bytes object (le_enc 4 (unat (old + addend))) m))"

text \<open>
  \<open>identify\<close> is what the processor answers for a leaf, in \<open>eax\<close>, \<open>ebx\<close>, \<open>ecx\<close> and \<open>edx\<close>; an answer is stored where its pointer is not null.
\<close>

definition store_unless_null :: "u64 \<Rightarrow> u32 \<Rightarrow> mem \<Rightarrow> mem" where
  "store_unless_null p v m = (if p \<noteq> 0 then store_bytes p (le_enc 4 (unat v)) m else m)"

definition cpuid :: "(u32 \<Rightarrow> u32 \<times> u32 \<times> u32 \<times> u32) \<Rightarrow> u32 \<Rightarrow> u64 \<Rightarrow> u64 \<Rightarrow> u64 \<Rightarrow> u64 \<Rightarrow> mem \<Rightarrow> mem" where
  "cpuid identify info eaxp ebxp ecxp edxp m =
     (let (eax, ebx, ecx, edx) = identify info;
          m = store_unless_null eaxp eax m;
          m = store_unless_null ebxp ebx m;
          m = store_unless_null ecxp ecx m
      in store_unless_null edxp edx m)"

section \<open>Page numbers and rounding\<close>

definition PAGEOFFSET :: "u64 \<Rightarrow> u64" where
  "PAGEOFFSET addr = addr AND (0x1000 - 1)"

definition pageindex :: "u64 \<Rightarrow> int \<Rightarrow> c_int result" where
  "pageindex addr level =
     (if level \<ge> 0 \<and> level \<le> 3 then Inr (ucast (drop_bit (nat (12 + (3 - level) * 9)) addr) AND 0x1FF)
      else Inl (Panic ''level >= 0 && level <= 3''))"

definition ROUNDDOWN :: "u64 \<Rightarrow> u64 \<Rightarrow> u64 result" where
  "ROUNDDOWN a n = (if n = 0 then Inl DivideError else Inr (a - a mod n))"

definition ROUNDUP :: "u64 \<Rightarrow> u64 \<Rightarrow> u64 result" where
  "ROUNDUP a n = ROUNDDOWN (a + n - 1) n"

section \<open>Whole transfers\<close>

text \<open>The device of the disk drivers that a bus makes: a whole transfer is a sequence of 4-byte accesses.\<close>

primrec block_in :: "('d \<Rightarrow> bytes \<times> 'd) \<Rightarrow> nat \<Rightarrow> 'd \<Rightarrow> bytes \<times> 'd" where
  "block_in access 0 d = ([], d)"
| "block_in access (Suc cnt) d =
     (let (data, d) = access d; (rest, d) = block_in access cnt d in (data @ rest, d))"

fun block_out :: "(bytes \<Rightarrow> 'd \<Rightarrow> 'd) \<Rightarrow> bytes \<Rightarrow> 'd \<Rightarrow> 'd" where
  "block_out access (a # b # c # e # bs) d = block_out access bs (access [a, b, c, e] d)"
| "block_out access bs d = d"

definition bus_device :: "'d bus \<Rightarrow> 'd device" where
  "bus_device bus = \<lparr>dev_inb = bus_inb bus, dev_inw = bus_inw bus, dev_insl = (\<lambda>p. block_in (in_bytes 4 (bus_inl bus p))),
     dev_outb = bus_outb bus, dev_outsl = (\<lambda>p. block_out (out_bytes (bus_outl bus p)))\<rparr>"

lemma store_bytes_append:
  assumes "length xs + length ys < 2 ^ 64"
  shows "store_bytes (a + of_nat (length xs)) ys (store_bytes a xs m) = store_bytes a (xs @ ys) m"
proof
  fix x
  let ?n = "length xs" and ?k = "unat (x - a)"
  have n: "unat (of_nat ?n :: u64) = ?n" using assms by (simp add: unat_of_nat)
  have "unat (x - (a + of_nat ?n)) = (if ?n \<le> ?k then ?k - ?n else ?k + 2 ^ 64 - ?n)"
    using unat_sub_if' [of "x - a" "of_nat ?n"] n by (simp only: diff_diff_eq word_size) simp
  then show "store_bytes (a + of_nat ?n) ys (store_bytes a xs m) x = store_bytes a (xs @ ys) m x"
    using assms by (auto simp: store_bytes_def in_region_def nth_append)
qed

lemma length_in_bytes [simp]: "length (fst (in_bytes n access d)) = n"
  by (simp add: in_bytes_def split: prod.splits)

lemma block_in_length:
  assumes "\<And>d. length (fst (access d)) = n"
  shows "length (fst (block_in access cnt d)) = n * cnt"
  using assms by (induction cnt arbitrary: d) (auto simp: split: prod.splits, metis fst_conv)

lemma ins_loop_block:
  assumes "\<And>d. length (fst (access d)) = n" "n * cnt < 2 ^ 64"
  shows "ins_loop access cnt a (m, d) = (store_bytes a (fst (block_in access cnt d)) m, snd (block_in access cnt d))"
  using assms(2)
proof (induction cnt arbitrary: a m d)
  case 0
  then show ?case by (simp add: store_bytes_def)
next
  case (Suc cnt)
  obtain x d' where x: "access d = (x, d')" by fastforce
  obtain r d'' where r: "block_in access cnt d' = (r, d'')" by fastforce
  have "length x = n" "length r = n * cnt" using assms(1) [of d] x block_in_length [of access n cnt d'] assms(1) r by auto
  then show ?case using Suc x r store_bytes_append [of x r a m] by simp
qed

lemma outs_loop_block: "outs_loop access 4 cnt m a d = block_out access (mem_bytes m a (4 * cnt)) d"
proof (induction cnt arbitrary: a d)
  case (Suc cnt)
  have "mem_bytes m a (4 * Suc cnt) = m a # m (a + 1) # m (a + 2) # m (a + 3) # mem_bytes m (a + 4) (4 * cnt)"
    "mem_bytes m a 4 = [m a, m (a + 1), m (a + 2), m (a + 3)]"
    by (simp_all add: mem_bytes_Suc numeral_eq_Suc add.assoc mem_bytes_def [of m _ 0])
  then show ?case using Suc by simp
qed (simp add: mem_bytes_def)

text \<open>The flags after \<open>cld\<close>.\<close>

lemma cld_simps [simp]: "ram (cld s) = ram s" "devices (cld s) = devices s"
  by (simp_all add: cld_def)

lemma count_bound: "4 * unat (cnt :: c_int) < 2 ^ 64"
  using unat_lt_2p [of cnt] by simp

text \<open>C14:
  The wrappers \<open>insl\<close> and \<open>outsl\<close> do, access by access, the whole transfers of the device that the disk driver and the boot loader are proved
  against: \<open>insl\<close> stores exactly the bytes of the transfer at its address, \<open>outsl\<close> sends exactly the bytes at its address, and
  neither changes anything else but the direction flag.
\<close>

theorem string_io_transfers:
  "insl bus p a cnt s =
     (let (bs, d) = dev_insl (bus_device bus) (ucast p) (unat cnt) (devices s) in
      (cld s)\<lparr>ram := store_bytes a bs (ram s), devices := d\<rparr>) \<and>
   outsl bus p a cnt s =
     (cld s)\<lparr>devices := dev_outsl (bus_device bus) (ucast p) (mem_bytes (ram s) a (4 * unat cnt)) (devices s)\<rparr>"
  using ins_loop_block [of "in_bytes 4 (bus_inl bus (ucast p))" 4 "unat cnt" a "ram s" "devices s", OF _ count_bound]
  by (simp add: insl_def outsl_def ins_def outs_def bus_device_def outs_loop_block split: prod.splits)

section \<open>Addresses\<close>

lemma index_word: "ucast (drop_bit k (addr :: u64)) AND 0x1FF = (of_nat (unat (drop_bit k addr AND 0x1FF)) :: c_int)"
proof -
  have "(ucast (x AND 0x1FF) :: c_int) = ucast x AND 0x1FF" for x :: u64
    by (rule bit_word_eqI) (auto simp: bit_ucast_iff bit_and_iff bit_numeral_rec split: nat.splits)
  then show ?thesis by (metis of_nat_unat)
qed

lemma split_address: "a mod 2 ^ 48 = 2 ^ 39 * (a div 2 ^ 39 mod 512) + 2 ^ 30 * (a div 2 ^ 30 mod 512) +
    2 ^ 21 * (a div 2 ^ 21 mod 512) + 2 ^ 12 * (a div 2 ^ 12 mod 512) + a mod 2 ^ 12" for a :: nat
proof -
  have step: "a mod (2 ^ k * 512) = 2 ^ k * (a div 2 ^ k mod 512) + a mod 2 ^ k" for k by (rule mod_mult2_eq)
  show ?thesis using step [of 39] step [of 30] step [of 21] step [of 12] by simp
qed

lemmas index_defs = pml4_index_def pdpt_index_def pd_index_def pt_index_def

text \<open>
  The page indices of the boot loader's header are those the kernel's page tables are walked with, level 0 the topmost; other levels fail
  the assertion. The four indices and the offset give back the 48 address bits that are translated.
\<close>

theorem page_indices:
  "pageindex addr level =
     (if level = 0 then Inr (of_nat (pml4_index addr)) else if level = 1 then Inr (of_nat (pdpt_index addr))
      else if level = 2 then Inr (of_nat (pd_index addr)) else if level = 3 then Inr (of_nat (pt_index addr))
      else Inl (Panic ''level >= 0 && level <= 3'')) \<and>
   unat addr mod 2 ^ 48 = 2 ^ 39 * pml4_index addr + 2 ^ 30 * pdpt_index addr + 2 ^ 21 * pd_index addr +
     2 ^ 12 * pt_index addr + unat (PAGEOFFSET addr)"
proof -
  have "unat (PAGEOFFSET addr) = unat addr mod 2 ^ 12"
    using and_0xFFF [of addr] by (simp add: PAGEOFFSET_def unat_mod)
  then show ?thesis
    using split_address [of "unat addr"] by (auto simp: pageindex_def index_defs index_word unat_index)
qed

section \<open>Rounding\<close>

text \<open>
  Rounding to multiples of \<open>n\<close>: down to the greatest one that is not above, up to the least one that is not below, as long as the
  addition before does not overflow. A rounding to multiples of 0 divides by 0.
\<close>

theorem rounding_bounds:
  assumes "n \<noteq> 0" "unat a + unat n \<le> 2 ^ 64"
  shows "\<exists>l u. ROUNDDOWN a n = Inr l \<and> ROUNDUP a n = Inr u \<and> unat n dvd unat l \<and> unat n dvd unat u \<and>
    unat l \<le> unat a \<and> unat a < unat l + unat n \<and> unat a \<le> unat u \<and> unat u < unat a + unat n"
proof -
  have "0 < unat n" using assms(1) by (simp add: unat_gt_0)
  have l: "unat (x - x mod n) = unat x - unat x mod unat n" for x
    by (subst unat_sub) (simp_all add: word_le_nat_alt unat_mod)
  have "unat (n - 1) = unat n - 1" using \<open>0 < unat n\<close> by (simp add: unat_sub_if')
  then have "unat (a + (n - 1)) = unat a + (unat n - 1)"
    using assms \<open>0 < unat n\<close> by (intro trans [OF unat_add_nat]) auto
  then have u: "unat (a + n - 1) = unat a + (unat n - 1)" by (simp only: add_diff_eq)
  let ?k = "unat n" and ?b = "unat a + (unat n - 1)"
  have m: "x = x - x mod ?k + x mod ?k" "x mod ?k < ?k" "?k dvd x - x mod ?k" for x
    using \<open>0 < ?k\<close> by (simp_all add: dvd_minus_mod)
  have b: "unat a < unat a - unat a mod ?k + ?k" "unat a - unat a mod ?k \<le> unat a"
    "unat a \<le> ?b - ?b mod ?k" "?b - ?b mod ?k < unat a + ?k"
    using m(2) [of "unat a"] m(2) [of ?b] \<open>0 < ?k\<close> by linarith+
  show ?thesis
    unfolding ROUNDDOWN_def ROUNDUP_def if_not_P [OF assms(1)]
    by (intro exI conjI, rule refl, rule refl) (simp_all only: l u m(3) b)
qed

theorem rounding_bounds_witness:
  "\<exists>l u. ROUNDDOWN 1000 512 = Inr l \<and> ROUNDUP 1000 512 = Inr u \<and> unat (512 :: u64) dvd unat l \<and> unat (512 :: u64) dvd unat u \<and>
    unat l \<le> unat (1000 :: u64) \<and> unat (1000 :: u64) < unat l + unat (512 :: u64) \<and>
    unat (1000 :: u64) \<le> unat u \<and> unat u < unat (1000 :: u64) + unat (512 :: u64)"
  by (rule rounding_bounds) simp_all

section \<open>Flags and tickets\<close>

lemma restore_bits:
  fixes x M I V R :: u64
  assumes "M AND V = 0" "I AND M = I" "R AND V = R" "take_bit 32 M = M"
  shows "(ucast (ucast (x AND NOT V) :: u32) AND M) OR (x AND NOT I AND NOT M AND NOT R) = x AND NOT R"
proof (rule bit_word_eqI)
  fix n assume n: "n < LENGTH(64)"
  have "bit (M AND V) n \<longleftrightarrow> bit (0 :: u64) n" "bit (I AND M) n \<longleftrightarrow> bit I n" "bit (R AND V) n \<longleftrightarrow> bit R n" "bit (take_bit 32 M) n \<longleftrightarrow> bit M n"
    by (simp_all only: assms)
  with n show "bit ((ucast (ucast (x AND NOT V) :: u32) AND M) OR (x AND NOT I AND NOT M AND NOT R)) n \<longleftrightarrow> bit (x AND NOT R) n"
    by (auto simp: bit_simps)
qed

text \<open>Saving the flags, disabling interrupts and writing the flags back restores every flag, up to RF, which \<open>popfq\<close> clears.\<close>

theorem flags_restored:
  "rflags (write_eflags (read_eflags s) (cli s)) = rflags s AND NOT 0x10000 \<and> \<not> bit (rflags (cli s)) 9 \<and> bit (rflags (sti s)) 9"
proof -
  have "bit (0x200 :: u64) 9" by (simp add: bit_numeral_rec)
  then have "\<not> bit (rflags s AND NOT 0x200) 9" "bit (rflags s OR 0x200) 9" by (simp_all only: bit_and_iff bit_or_iff bit_not_iff) simp_all
  then have "\<not> bit (rflags (cli s)) 9" "bit (rflags (sti s)) 9" by (simp_all add: cli_def sti_def)
  moreover have "rflags (write_eflags (read_eflags s) (cli s)) = rflags s AND NOT 0x10000"
    using restore_bits [of POPF_MASK "0x30000" "0x200" "0x10000" "rflags s"]
    unfolding write_eflags_def read_eflags_def cli_def cpu.simps by (simp add: and.assoc)
  ultimately show ?thesis by blast
qed

lemma load32_at_store: "load32_at (store_bytes a (le_enc 4 (unat v)) m) a = v"
proof -
  have "mem_bytes (store_bytes a (le_enc 4 (unat v)) m) a 4 = le_enc 4 (unat v)"
    by (rule nth_equalityI) (simp_all add: store_bytes_def unat_of_nat)
  then show ?thesis using unat_lt_2p [of v] by (simp add: load32_at_def le_dec_enc)
qed

lemma store_loaded: "store_bytes a (le_enc 4 (unat (load32_at m a))) m = m"
proof -
  have "unat (load32_at m a) = le_dec (mem_bytes m a 4)"
    using le_dec_bound [of "mem_bytes m a 4"] by (simp add: load32_at_def unat_of_nat)
  then have "le_enc 4 (unat (load32_at m a)) = mem_bytes m a 4" by (simp add: le_enc_dec)
  then show ?thesis by (auto simp: store_bytes_def fun_eq_iff in_region_def)
qed

lemma store_bytes_twice: "length bs = length cs \<Longrightarrow> store_bytes a bs (store_bytes a cs m) = store_bytes a bs m"
  by (simp add: store_bytes_def fun_eq_iff)

text \<open>A counter that \<open>fetch_and_addl\<close> counts up gives the numbers in order, modulo \<open>2 ^ 32\<close>, and is all that changes in memory.\<close>

theorem fetch_and_add_tickets:
  "((\<lambda>m. snd (fetch_and_addl a v m)) ^^ k) m = store_bytes a (le_enc 4 (unat (load32_at m a + of_nat k * v))) m \<and>
   fst (fetch_and_addl a v (((\<lambda>m. snd (fetch_and_addl a v m)) ^^ k) m)) = load32_at m a + of_nat k * v"
proof -
  have "((\<lambda>m. snd (fetch_and_addl a v m)) ^^ k) m = store_bytes a (le_enc 4 (unat (load32_at m a + of_nat k * v))) m"
  proof (induction k)
    case (Suc k)
    have "load32_at m a + of_nat (Suc k) * v = load32_at m a + of_nat k * v + v" by (simp add: distrib_right)
    then show ?case
      by (simp only: funpow.simps o_apply Suc) (simp add: fetch_and_addl_def load32_at_store store_bytes_twice Let_def)
  qed (simp add: store_loaded)
  then show ?thesis by (simp add: fetch_and_addl_def load32_at_store Let_def)
qed

end
