(* ===== verification/Preemption.thy ===== *)
theory Preemption
  imports Interrupts_Correct
begin

text \<open>
  Preemption across the components: the timer interrupt takes the processor from a process, the other processes run, make system calls
  and are interrupted in turn, and the scheduler comes back. The process then goes on with the registers it was interrupted
  with, and it does so within seven timer interrupts, however the traps of the others come in between.
\<close>

section \<open>Traps that leave a process alone\<close>

text \<open>A trap concerns the current process, a process that waits for the key that was pressed, and one that is started or stopped.\<close>

definition concerns :: "registers_t \<Rightarrow> kernel \<Rightarrow> nat \<Rightarrow> bool" where
  "concerns r s i \<longleftrightarrow> i = current (msys s) \<or> reg_intno r = 33 \<and> keyboard_waiting (mkb s) = Some i \<or>
     reg_intno r \<in> {0x89, 0x8A} \<and> unat (reg_rdi r) = i"

lemma concerns_enter [simp]: "concerns r (enter_kernel L r s) i = concerns r s i"
  by (simp add: concerns_def enter_kernel_def Let_def)

lemma keyboard_procs:
  assumes "keyboard_ok (mkb s)" "keyboard_handler c s = (left, s')" "keyboard_waiting (mkb s) \<noteq> Some i"
  shows "procs (msys s') ! i = procs (msys s) ! i"
  using assms scan_code_ok(2) [OF assms(1), of c] unfolding keyboard_handler_eq [OF assms(1)]
  by (auto simp: Let_def deliver_def split: option.splits if_splits)

lemma start_stop_procs:
  assumes "unat (reg_rdi r) \<noteq> i"
  shows "sys_start ramimages r y = Inr y' \<Longrightarrow> procs y' ! i = procs y ! i" "sys_stop r y = Inr y' \<Longrightarrow> procs y' ! i = procs y ! i"
  using assms by (auto simp: sys_start_def sys_stop_def load_process_def Let_def bind_eq_Inr_iff)

lemma dispatch_unconcerned:
  assumes "machine_ok L s" "dispatch ramimages c e r s = Inr (left, s')" "\<not> concerns r s i"
  shows "procs (msys s') ! i = procs (msys s) ! i"
proof -
  consider (key) "reg_intno r = 33" | (start) "reg_intno r = 0x89" | (stop) "reg_intno r = 0x8A" | (other) "reg_intno r \<notin> {33, 0x89, 0x8A}"
    by blast
  then show ?thesis
  proof cases
    case key
    then show ?thesis
      using assms keyboard_procs [of s c left s' i] by (simp add: dispatch_def Let_def concerns_def machine_ok_def)
  next
    case start
    then show ?thesis using assms(2,3) start_stop_procs(1) by (auto simp: dispatch_def Let_def concerns_def bind_eq_Inr_iff)
  next
    case stop
    then show ?thesis using assms(2,3) start_stop_procs(2) by (auto simp: dispatch_def Let_def concerns_def bind_eq_Inr_iff)
  next
    case other
    then show ?thesis using dispatch_procs(1) [OF assms(2)] assms(3) by (simp add: concerns_def)
  qed
qed

lemma exception_unconcerned:
  assumes "layout_ok L" "images_ok L ramimages len" "machine_ok L s"
    and "exception L ramimages c e r s = Inr s'" "\<not> concerns r s i"
  shows "procs (msys s') ! i = procs (msys s) ! i"
proof -
  let ?s = "enter_kernel L r s"
  obtain left t where t: "dispatch ramimages c e r ?s = Inr (left, t)" "s' = (if left then t else leave_kernel t)"
    using assms(4) by (auto simp: exception_def bind_eq_Inr_iff)
  note ok = enter_kernel_ok [OF assms(3)]
  have "machine_ok L t" using dispatch_served [OF assms(1,2) ok t(1)] by (simp add: served_def)
  moreover have "i \<noteq> current (msys s)" using assms(5) by (simp add: concerns_def)
  ultimately show ?thesis
    using dispatch_unconcerned [OF ok t(1), of i] assms(5) leave_kernel_ok(3) t(2) procs_enter(1) by simp
qed

section \<open>What the others do\<close>

text \<open>
  A run in which process \<open>p\<close> does not have the processor: the others change the programs' memory, and there are traps that
  do not concern \<open>p\<close>. The last of them may give the processor back to \<open>p\<close>.
\<close>

inductive others_run :: "layout \<Rightarrow> ramimage list \<Rightarrow> nat \<Rightarrow> kernel \<Rightarrow> kernel \<Rightarrow> bool"
  for L :: layout and ramimages :: "ramimage list" and p :: nat where
  start: "others_run L ramimages p s s"
| user: "others_run L ramimages p s s' \<Longrightarrow> current (msys s') \<noteq> p \<Longrightarrow>
    others_run L ramimages p s (user_step m s')"
| trap: "others_run L ramimages p s s' \<Longrightarrow> \<not> concerns r s' p \<Longrightarrow>
    exception L ramimages c e r s' = Inr s'' \<Longrightarrow> others_run L ramimages p s s''"

lemma others_run_keep:
  assumes "others_run L ramimages p s s'" "layout_ok L" "images_ok L ramimages len" "machine_ok L s" "in_user s"
  shows "machine_ok L s' \<and> in_user s' \<and> procs (msys s') ! p = procs (msys s) ! p"
  using assms
proof (induction rule: others_run.induct)
  case (user s s' m)
  then show ?case using user_step_ok [of L s' m] by (simp add: served_def)
next
  case (trap s s' r c e s'')
  then show ?case using exception_ok(2,3) [of L ramimages len s' c e r s''] exception_unconcerned [of L ramimages len s' c e r s'' p] by simp
qed simp

section \<open>Waiting for a turn\<close>

text \<open>
  A run of any traps in which process \<open>p\<close> waits for the processor, with the number of timer ticks: the others run, call the kernel in any way and yield,
  keys are pressed, programs are started and stopped, only not \<open>p\<close>. The last trap may give the processor back to \<open>p\<close>.
\<close>

inductive waits :: "layout \<Rightarrow> ramimage list \<Rightarrow> nat \<Rightarrow> nat \<Rightarrow> kernel \<Rightarrow> kernel \<Rightarrow> bool"
  for L :: layout and ramimages :: "ramimage list" and p :: nat where
  start: "waits L ramimages p 0 s s"
| user: "waits L ramimages p n s s' \<Longrightarrow> current (msys s') \<noteq> p \<Longrightarrow> waits L ramimages p n s (user_step m s')"
| trap: "waits L ramimages p n s s' \<Longrightarrow> current (msys s') \<noteq> p \<Longrightarrow> \<not> (reg_intno r = 0x8A \<and> unat (reg_rdi r) = p) \<Longrightarrow>
    exception L ramimages c e r s' = Inr s'' \<Longrightarrow>
    waits L ramimages p (if reg_intno r = 32 then Suc n else n) s s''"

text \<open>What a trap does to the choice of the process, and to the process that waits for a key.\<close>

lemma dispatch_current:
  assumes "layout_ok L" "images_ok L ramimages len" "machine_ok L s" "dispatch ramimages c e r s = Inr (left, s')"
  shows "\<not> left \<Longrightarrow> current (msys s') = current (msys s)"
    "keyboard_waiting (mkb s') \<in> {keyboard_waiting (mkb s), Some (current (msys s))}"
proof -
  have k: "keyboard_ok (mkb s)" "system_ok L (msys s)" using assms(3) by (simp_all add: machine_ok_def)
  have start: "current y = current (msys s)" if y: "sys_start ramimages r (msys s) = Inr y" for y
  proof -
    let ?i = "unat (reg_rdi r)"
    have i: "reg_rdi r = 2 \<or> reg_rdi r = 3" and l: "load_process ramimages ?i ?i (msys s) = Inr y"
      using y unfolding sys_start_eq Let_def by (simp_all split: if_splits)
    then have "image_ok L (ramimages ! ?i) (len ?i)" "?i < 8"
      using startable_index [OF i] assms(2) by (simp_all add: images_ok_def)
    from load_process_spec [OF assms(1) k(2) this(2,1)] l show ?thesis by auto
  qed
  have stop: "current y = current (msys s)" if "sys_stop r (msys s) = Inr y" for y
    using that by (auto simp: sys_stop_def Let_def bind_eq_Inr_iff)
  have get: "current (msys (sys_getchar_handler s)) = current (msys s)"
    "keyboard_waiting (mkb (sys_getchar_handler s)) \<in> {keyboard_waiting (mkb s), Some (current (msys s))}"
    by (simp_all add: sys_getchar_handler_def set_rax_def Let_def split_beta)
  have key: "keyboard_waiting (mkb s') = keyboard_waiting (mkb s)" "\<not> left \<Longrightarrow> current (msys s') = current (msys s)"
    if "keyboard_handler c s = (left, s')"
    using that scan_code_ok [OF k(1), of c] unfolding keyboard_handler_eq [OF k(1)]
    by (auto simp: Let_def split: option.splits if_splits)
  have put: "mkb (put_bytes a bs t) = mkb t" "mkb (set_rax v t) = mkb t" "current (msys (set_rax v t)) = current (msys t)" for a bs v t
    by (simp_all add: put_bytes_def set_rax_def Let_def)
  note cases = assms(4) [unfolded dispatch_def Let_def]
  show "\<not> left \<Longrightarrow> current (msys s') = current (msys s)"
    "keyboard_waiting (mkb s') \<in> {keyboard_waiting (mkb s), Some (current (msys s))}"
    using cases start stop get key
    by (simp_all add: bind_stay bind_eq_Inr_iff sys_write_char_handler_def sys_cursor_handler_def sys_mkdir_handler_def
        sys_cd_handler_def sys_rm_handler_def sys_list_files_handler_def time_handler_def sys_yield_def split: if_splits)
      (auto simp: bind_eq_Inr_iff copy_out_eq put)
qed

lemma exception_choice:
  assumes "layout_ok L" "images_ok L ramimages len" "machine_ok L s" "exception L ramimages c e r s = Inr s'"
  shows "current (msys s') \<in> {current (msys s), next_process (procs (msys s')) (current (msys s))}"
    "keyboard_waiting (mkb s') \<in> {keyboard_waiting (mkb s), Some (current (msys s))}"
proof -
  let ?s = "enter_kernel L r s"
  obtain left t where t: "dispatch ramimages c e r ?s = Inr (left, t)" "s' = (if left then t else leave_kernel t)"
    using assms(4) by (auto simp: exception_def bind_eq_Inr_iff)
  note ok = enter_kernel_ok [OF assms(3), of r]
  note d = dispatch_current [OF assms(1,2) ok t(1)]
  have e: "current (msys ?s) = current (msys s)" "mkb ?s = mkb s" by (simp_all add: enter_kernel_def Let_def)
  have tok: "machine_ok L t" using dispatch_served [OF assms(1,2) ok t(1)] by (simp add: served_def)
  show "keyboard_waiting (mkb s') \<in> {keyboard_waiting (mkb s), Some (current (msys s))}"
    using d(2) e leave_kernel_ok(4) [OF tok] t(2) by simp
  show "current (msys s') \<in> {current (msys s), next_process (procs (msys s')) (current (msys s))}"
  proof (cases left)
    case True
    have k: "keyboard_ok (mkb ?s)" "system_ok L (msys ?s)" using ok by (simp_all add: machine_ok_def)
    obtain p ch where y: "msys t = schedule (deliver p ch (msys ?s))"
      using dispatch_left(2) [of ramimages c e r ?s t] t(1) True unfolding keyboard_handler_eq [OF k(1)]
      by (auto simp: Let_def split: option.splits if_splits)
    have "current (deliver p ch (msys ?s)) = current (msys s)" using e(1) by (simp add: deliver_def)
    then show ?thesis using schedule_in_user(1,4) [OF deliver_ok [OF k(2)], of p ch] y t(2) True by simp
  next
    case False
    then have "s' = leave_kernel t" "current (msys t) = current (msys s)" using d(1) e(1) t(2) by simp_all
    then show ?thesis
      using schedule_in_user(1,4) [OF machine_systemD [OF tok]] by (simp add: leave_kernel_def Let_def run_def)
  qed
qed

text \<open>A trap while \<open>p\<close> waits leaves \<open>p\<close> as it is, but for the character of a key that \<open>p\<close> has asked for.\<close>

lemma waiting_kept:
  assumes "layout_ok L" "images_ok L ramimages len" "machine_ok L s" "exception L ramimages c e r s = Inr s'"
    and "current (msys s) \<noteq> p" "p < 8" "runnable (procs (msys s)) p" "\<not> (reg_intno r = 0x8A \<and> unat (reg_rdi r) = p)"
  shows "\<exists>v. procs (msys s') ! p = (procs (msys s) ! p)\<lparr>reg := (reg (procs (msys s) ! p))\<lparr>reg_rax := v\<rparr>\<rparr> \<and>
    (keyboard_waiting (mkb s) \<noteq> Some p \<longrightarrow> v = reg_rax (reg (procs (msys s) ! p)) \<and> keyboard_waiting (mkb s') \<noteq> Some p)"
proof -
  let ?s = "enter_kernel L r s" and ?q = "procs (msys s) ! p"
  have same: "?q\<lparr>reg := (reg ?q)\<lparr>reg_rax := reg_rax (reg ?q)\<rparr>\<rparr> = ?q" by simp
  have w: "keyboard_waiting (mkb s') \<noteq> Some p" if "keyboard_waiting (mkb s) \<noteq> Some p"
    using exception_choice(2) [OF assms(1-4)] that assms(5) by auto
  obtain left t where t: "dispatch ramimages c e r ?s = Inr (left, t)" "s' = (if left then t else leave_kernel t)"
    using assms(4) by (auto simp: exception_def bind_eq_Inr_iff)
  note ok = enter_kernel_ok [OF assms(3), of r]
  have q: "procs (msys ?s) ! p = ?q" using procs_enter(1) assms(5) by metis
  show ?thesis
  proof (cases "concerns r s p")
    case False
    then show ?thesis using exception_unconcerned [OF assms(1-4) False] w same by metis
  next
    case True
    have st: "pstate ?q = P_RUNNABLE" using assms(7) by (simp add: runnable_def)
    have "reg_intno r \<noteq> 0x89" if "unat (reg_rdi r) = p"
      using t(1) st q that by (auto simp: dispatch_def sys_start_eq Let_def split: if_splits)
    then have key: "reg_intno r = 33" "keyboard_waiting (mkb s) = Some p" using True assms(5,8) by (auto simp: concerns_def)
    have k: "keyboard_ok (mkb ?s)" "system_ok L (msys ?s)" using ok by (simp_all add: machine_ok_def)
    have kh: "keyboard_handler c ?s = (left, t)" using t(1) key(1) by (simp add: dispatch_def Let_def)
    have len: "p < length (procs (msys ?s))" using k(2) assms(6) by (simp add: system_ok_def procs_ok_def)
    have "\<exists>v. procs (msys t) ! p = ?q\<lparr>reg := (reg ?q)\<lparr>reg_rax := v\<rparr>\<rparr>"
    proof (cases left)
      case True
      then obtain ch where "msys t = schedule (deliver p ch (msys ?s))"
        using kh key(2) scan_code_ok(2) [OF k(1), of c] unfolding keyboard_handler_eq [OF k(1)]
        by (auto simp: Let_def enter_kernel_def split: option.splits if_splits)
      then have "procs (msys t) ! p = ?q\<lparr>reg := (reg ?q)\<lparr>reg_rax := scast ch\<rparr>, pstate := P_RUNNABLE\<rparr>"
        using schedule_in_user(4) [OF deliver_ok [OF k(2)], of p ch] q len by (simp add: deliver_def)
      moreover have "x\<lparr>reg := y, pstate := P_RUNNABLE\<rparr> = x\<lparr>reg := y\<rparr>" if "pstate x = P_RUNNABLE" for x :: proc and y
        using that by (cases x) simp
      ultimately show ?thesis using st by metis
    next
      case False
      then have "msys t = msys ?s"
        using kh unfolding keyboard_handler_eq [OF k(1)] by (auto simp: Let_def split: option.splits if_splits)
      then show ?thesis using q same by metis
    qed
    moreover have "machine_ok L t" using dispatch_served [OF assms(1,2) ok t(1)] by (simp add: served_def)
    ultimately show ?thesis using t(2) leave_kernel_ok(3) key(2) by auto
  qed
qed

text \<open>How many turns away \<open>p\<close> is; it is never further away than before, and nearer after a tick.\<close>

definition turns_away :: "nat \<Rightarrow> kernel \<Rightarrow> nat" where
  "turns_away p s = (if current (msys s) = p then 0 else distance (current (msys s)) p)"

lemma choice_nearer:
  assumes "c < 8" "1 \<le> p" "p < 8" "runnable ps p" "current (msys s) = next_process ps c"
  shows "turns_away p s < distance c p"
  using next_process_nearer [OF assms(1-4)] turn_order_nth(3) [OF assms(1-3)] assms(5) by (auto simp: turns_away_def)

text \<open>The state of \<open>p\<close> along such a run, which starts at \<open>t\<close> when \<open>p\<close> has lost the processor with the registers \<open>r\<close>.\<close>

definition waiting :: "layout \<Rightarrow> nat \<Rightarrow> registers_t \<Rightarrow> kernel \<Rightarrow> nat \<Rightarrow> kernel \<Rightarrow> bool" where
  "waiting L p r t n w \<longleftrightarrow> machine_ok L w \<and> in_user w \<and> runnable (procs (msys w)) p \<and> n + turns_away p w \<le> 6 \<and>
     (\<exists>v. reg (procs (msys w) ! p) = r\<lparr>reg_rax := v\<rparr> \<and>
       (keyboard_waiting (mkb t) \<noteq> Some p \<longrightarrow> v = reg_rax r \<and> keyboard_waiting (mkb w) \<noteq> Some p))"

lemma waiting_trap:
  assumes "layout_ok L" "images_ok L ramimages len" "1 \<le> p" "p < 8" "waiting L p q t n s" "current (msys s) \<noteq> p"
    and "\<not> (reg_intno r = 0x8A \<and> unat (reg_rdi r) = p)" "exception L ramimages c e r s = Inr s'"
  shows "waiting L p q t (if reg_intno r = 32 then Suc n else n) s'"
proof -
  let ?c = "current (msys s)"
  have w: "machine_ok L s" "runnable (procs (msys s)) p" "n + distance ?c p \<le> 6"
    using assms(5,6) by (simp_all add: waiting_def turns_away_def)
  have c: "?c < 8" using machine_systemD [OF w(1)] by (simp add: system_ok_def)
  obtain v where v: "procs (msys s') ! p = (procs (msys s) ! p)\<lparr>reg := (reg (procs (msys s) ! p))\<lparr>reg_rax := v\<rparr>\<rparr>"
      "keyboard_waiting (mkb s) \<noteq> Some p \<longrightarrow> v = reg_rax (reg (procs (msys s) ! p)) \<and> keyboard_waiting (mkb s') \<noteq> Some p"
    using waiting_kept [OF assms(1,2) w(1) assms(8,6,4) w(2) assms(7)] by blast
  have ok: "machine_ok L s'" "in_user s'" using exception_ok(2,3) [OF assms(1,2) w(1) assms(8)] .
  have run: "runnable (procs (msys s')) p" using w(2) v(1) by (simp add: runnable_def)
  have "turns_away p s' \<le> distance ?c p"
    using exception_choice(1) [OF assms(1,2) w(1) assms(8)] choice_nearer [OF c assms(3,4) run, of s'] by (auto simp: turns_away_def)
  moreover have "turns_away p s' < distance ?c p" if "reg_intno r = 32"
    using timer_preempts [OF w(1) that, of ramimages c e] choice_nearer [OF c assms(3,4) run, of s'] assms(8) by simp
  ultimately have "(if reg_intno r = 32 then Suc n else n) + turns_away p s' \<le> 6" using w(3) by auto
  moreover obtain u where "reg (procs (msys s) ! p) = q\<lparr>reg_rax := u\<rparr>"
      "keyboard_waiting (mkb t) \<noteq> Some p \<longrightarrow> u = reg_rax q \<and> keyboard_waiting (mkb s) \<noteq> Some p"
    using assms(5) by (auto simp: waiting_def)
  then have "reg (procs (msys s') ! p) = q\<lparr>reg_rax := v\<rparr>"
      "keyboard_waiting (mkb t) \<noteq> Some p \<longrightarrow> v = reg_rax q \<and> keyboard_waiting (mkb s') \<noteq> Some p"
    using v by auto
  ultimately show ?thesis using ok run by (auto simp: waiting_def)
qed

lemma waits_waiting:
  assumes "waits L ramimages p n t w" "layout_ok L" "images_ok L ramimages len" "1 \<le> p" "p < 8" "waiting L p q t 0 t"
  shows "waiting L p q t n w"
  using assms
proof (induction rule: waits.induct)
  case (user n s s' m)
  then have "waiting L p q s n s'" by simp
  moreover have "machine_ok L (user_step m s')" using user_step_ok calculation user.prems(1) by (simp add: waiting_def served_def)
  moreover have "turns_away p (user_step m s') = turns_away p s'" by (simp add: turns_away_def)
  ultimately show ?case by (simp add: waiting_def)
next
  case (trap n s s' r c e s'')
  then show ?case using waiting_trap [of L ramimages len p q s n s' r c e s''] by blast
qed simp

section \<open>Example\<close>

text \<open>A process that yields.\<close>

lemma yield_trap:
  assumes "machine_ok L s" "reg_intno r = 0x88"
  shows "\<exists>s'. exception L ramimages c e r s = Inr s' \<and>
    procs (msys s') = (procs (msys s))[current (msys s) := (procs (msys s) ! current (msys s))\<lparr>reg := r\<rparr>] \<and>
    current (msys s') = next_process (procs (msys s')) (current (msys s))"
proof -
  let ?s = "enter_kernel L r s"
  have e: "exception L ramimages c e r s = Inr (?s\<lparr>reschedule := 0, msys := schedule (msys ?s)\<rparr>)"
    using assms(2) by (simp add: exception_def dispatch_def sys_yield_def leave_kernel_def Let_def)
  show ?thesis
    using schedule_in_user(1,4) [OF machine_systemD [OF enter_kernel_ok [OF assms(1)]], of r] unfolding e
    by (simp add: enter_kernel_def Let_def)
qed

text \<open>Processes 1 and 3 take turns.\<close>

abbreviation (input) tick_regs :: "u64 \<Rightarrow> registers_t" where
  "tick_regs v \<equiv> zero_registers\<lparr>reg_intno := 32, reg_rax := v\<rparr>"

lemmas example_turns = example_kernel_def example_running_def next_process_def turn_order_def runnable_def fresh_proc_def upt_rec

section \<open>Properties\<close>

text \<open>C8:
  Preemption is invisible: when a process has lost the processor to the timer, the other processes have run, made system
  calls, been interrupted, started and stopped each other in any way, and the processor is back in the process, then its
  registers are those it was interrupted with and its page table is the active one. The traps are those that return: a call that
  writes through a pointer out of the memory of the programs, or at a position out of the screen, can reach the saved
  registers in the code, and is an error here.
\<close>

theorem preempted_context_kept:
  assumes "layout_ok L" "images_ok L ramimages len" "machine_ok L s" "reg_intno r = 32"
    and "exception L ramimages c e r s = Inr t" "others_run L ramimages (current (msys s)) t w"
    and "current (msys w) = current (msys s)"
  shows "cpu (msys w) = r \<and> cr3 (vmem (msys w)) = page_table (procs (msys s) ! current (msys s))"
proof -
  let ?p = "current (msys s)"
  have p: "?p < length (procs (msys s))" using machine_systemD [OF assms(3)] by (simp add: system_ok_def procs_ok_def)
  obtain u where "exception L ramimages c e r s = Inr u" "machine_ok L u" "in_user u"
      "procs (msys u) = (procs (msys s))[?p := (procs (msys s) ! ?p)\<lparr>reg := r\<rparr>]"
    using timer_preempts [OF assms(3,4), of ramimages c e] by auto
  then have t: "machine_ok L t" "in_user t" "procs (msys t) ! ?p = (procs (msys s) ! ?p)\<lparr>reg := r\<rparr>"
    using assms(5) p by simp_all
  then show ?thesis
    using others_run_keep [OF assms(6,1,2) t(1,2)] assms(7) by (simp add: in_user_def)
qed

theorem preempted_context_kept_witness:
  "\<exists>t w. exception example_layout (replicate 4 example_image) 0 blank_entry (tick_regs 7) example_kernel = Inr t \<and> current (msys t) = 3 \<and>
    exception example_layout (replicate 4 example_image) 0 blank_entry (tick_regs 8) t = Inr w \<and> current (msys w) = 1 \<and>
    cpu (msys w) = tick_regs 7"
proof -
  let ?im = "replicate 4 example_image"
  obtain t where t: "exception example_layout ?im 0 blank_entry (tick_regs 7) example_kernel = Inr t" "machine_ok example_layout t"
      "procs (msys t) = (procs (msys example_kernel))[1 := (procs (msys example_kernel) ! 1)\<lparr>reg := tick_regs 7\<rparr>]"
      "current (msys t) = next_process (procs (msys t)) 1"
    using timer_preempts [OF example_kernel_ok, of "tick_regs 7" ?im 0 blank_entry] example_procs(1) by auto
  have c: "current (msys t) = 3" unfolding t(4) t(3) by (simp add: example_turns)
  obtain w where w: "exception example_layout ?im 0 blank_entry (tick_regs 8) t = Inr w"
      "procs (msys w) = (procs (msys t))[3 := (procs (msys t) ! 3)\<lparr>reg := tick_regs 8\<rparr>]"
      "current (msys w) = next_process (procs (msys w)) 3"
    using timer_preempts [OF t(2), of "tick_regs 8" ?im 0 blank_entry] c by auto
  have d: "current (msys w) = 1" unfolding w(3) w(2) t(3) by (simp add: example_turns)
  have "others_run example_layout ?im 1 t w"
    using others_run.trap [OF others_run.start _ w(1)] c by (simp add: concerns_def)
  then show ?thesis
    using preempted_context_kept [OF layout_ok_example example_images example_kernel_ok _ t(1), of w] t(1) w(1) c d example_procs(1) by simp
qed

text \<open>C9:
  A preempted process comes back: a runnable process loses the processor to the timer; then the others run, make system calls, yield, are interrupted
  by the timer and the keyboard, and start and stop programs in any order, but do not stop this one. At every moment of such a run either the process has the
  processor again, after at most six further ticks, with the registers of its interruption; or there have been fewer than
  six ticks, and the next tick is taken and goes on with the run, so that the process has its turn at the sixth tick at the latest.
  Only \<open>rax\<close> can differ, and only when \<open>keyboard_waiting\<close> still names the process from an earlier call for a character.
  As in C8 the calls are those that return.
\<close>

theorem preempted_resumes:
  assumes "layout_ok L" "images_ok L ramimages len" "machine_ok L s"
    and "1 \<le> current (msys s)" "runnable (procs (msys s)) (current (msys s))"
    and "reg_intno r = 32" "exception L ramimages c e r s = Inr t" "waits L ramimages (current (msys s)) n t w"
  shows "if current (msys w) = current (msys s)
    then n \<le> 6 \<and> (\<exists>v. cpu (msys w) = r\<lparr>reg_rax := v\<rparr> \<and> (keyboard_waiting (mkb s) \<noteq> Some (current (msys s)) \<longrightarrow> v = reg_rax r))
    else n < 6 \<and> (\<forall>c' e' r'. reg_intno r' = 32 \<longrightarrow>
      (\<exists>w'. exception L ramimages c' e' r' w = Inr w' \<and> waits L ramimages (current (msys s)) (Suc n) t w'))"
proof -
  let ?p = "current (msys s)"
  have p: "?p < 8" "?p < length (procs (msys s))" using machine_systemD [OF assms(3)] by (simp_all add: system_ok_def procs_ok_def)
  obtain u where "exception L ramimages c e r s = Inr u" "machine_ok L u" "in_user u" "mkb u = mkb s"
      "procs (msys u) = (procs (msys s))[?p := (procs (msys s) ! ?p)\<lparr>reg := r\<rparr>]"
      "current (msys u) = next_process (procs (msys u)) ?p"
    using timer_preempts [OF assms(3,6), of ramimages c e] by auto
  then have t: "machine_ok L t" "in_user t" "mkb t = mkb s" "procs (msys t) ! ?p = (procs (msys s) ! ?p)\<lparr>reg := r\<rparr>"
      "current (msys t) = next_process (procs (msys t)) ?p"
    using assms(7) p by simp_all
  have run: "runnable (procs (msys t)) ?p" using assms(5) t(4) by (simp add: runnable_def)
  have "turns_away ?p t \<le> 6" using choice_nearer [OF p(1) assms(4) p(1) run t(5)] by (simp add: distance_def)
  moreover have "r\<lparr>reg_rax := reg_rax r\<rparr> = r" by simp
  ultimately have "waiting L ?p r t 0 t" unfolding waiting_def using t(1,2,4) run by (auto intro: exI [of _ "reg_rax r"])
  then have w: "waiting L ?p r t n w" by (rule waits_waiting [OF assms(8,1,2,4) p(1)])
  show ?thesis
  proof (cases "current (msys w) = ?p")
    case True
    then show ?thesis using w t(3) by (auto simp: waiting_def in_user_def)
  next
    case False
    have "n + distance (current (msys w)) ?p \<le> 6" "machine_ok L w" using w False by (simp_all add: waiting_def turns_away_def)
    moreover have "\<exists>w'. exception L ramimages c' e' r' w = Inr w' \<and> waits L ramimages ?p (Suc n) t w'" if r': "reg_intno r' = 32" for c' e' r'
    proof -
      obtain w' where "exception L ramimages c' e' r' w = Inr w'" using timer_preempts [OF calculation(2) r'] by metis
      then show ?thesis using waits.trap [OF assms(8) False, of r' c' e' w'] r' by auto
    qed
    moreover have "current (msys w) < 8" using machine_systemD [OF calculation(2)] by (simp add: system_ok_def)
    ultimately show ?thesis using False turn_order_nth(3) [OF _ assms(4) p(1), of "current (msys w)"] by simp
  qed
qed

theorem preempted_resumes_witness:
  "\<exists>t w. exception example_layout (replicate 4 example_image) 0 blank_entry (tick_regs 7) example_kernel = Inr t \<and> current (msys t) = 3 \<and>
    exception example_layout (replicate 4 example_image) 0 blank_entry (trap_regs 0x88) t = Inr w \<and> current (msys w) = 1 \<and>
    cpu (msys w) = tick_regs 7"
proof -
  let ?im = "replicate 4 example_image"
  obtain t where t: "exception example_layout ?im 0 blank_entry (tick_regs 7) example_kernel = Inr t" "machine_ok example_layout t"
      "procs (msys t) = (procs (msys example_kernel))[1 := (procs (msys example_kernel) ! 1)\<lparr>reg := tick_regs 7\<rparr>]"
      "current (msys t) = next_process (procs (msys t)) 1"
    using timer_preempts [OF example_kernel_ok, of "tick_regs 7" ?im 0 blank_entry] example_procs(1) by auto
  have c: "current (msys t) = 3" unfolding t(4) t(3) by (simp add: example_turns)
  obtain w where w: "exception example_layout ?im 0 blank_entry (trap_regs 0x88) t = Inr w"
      "procs (msys w) = (procs (msys t))[3 := (procs (msys t) ! 3)\<lparr>reg := trap_regs 0x88\<rparr>]"
      "current (msys w) = next_process (procs (msys w)) 3"
    using yield_trap [OF t(2), of "trap_regs 0x88" ?im 0 blank_entry] c by auto
  have d: "current (msys w) = 1" unfolding w(3) w(2) t(3) by (simp add: example_turns)
  have wait: "waits example_layout ?im 1 0 t w"
    using waits.trap [OF waits.start _ _ w(1), of 1] c by simp
  have "runnable (procs (msys example_kernel)) (current (msys example_kernel))" "keyboard_waiting (mkb example_kernel) = None"
    using example_procs by (simp_all add: example_kernel_def example_running_def runnable_def keyboard_init_def del: upt_Suc)
  then have "cpu (msys w) = tick_regs 7"
    using preempted_resumes [OF layout_ok_example example_images example_kernel_ok _ _ _ t(1), of 0 w] example_procs(1) wait d by simp
  then show ?thesis using t(1) w(1) c d by blast
qed

end
