(* ===== verification/Spec2Isabelle.thy ===== *)
theory Spec2Isabelle
  imports Shell_Calls Boot_Correct User_Programs Fat32_Confined Processor Preemption
begin

text \<open>
  gyozOs is a small operating system for x86-64: a boot loader, a kernel with a FAT32 file system and preemptive processes, a
  command shell and three other user programs, and the tool that makes the boot disk. This library models the C code of the
  repository and proves what makes it correct.

  \<^bold>\<open>The program and its parts.\<close> The tool \<^verbatim>\<open>_build/mkbootdisk.c\<close> writes a boot sector and the kernel's ELF file to a disk. The boot
  sector, \<^verbatim>\<open>bootloader/boot.c\<close>, loads the kernel and jumps to it. \<^verbatim>\<open>kernel/kernel.c\<close> sets up the serial port, the screen
  (\<^verbatim>\<open>io.c\<close>), segments, frames and page tables (\<^verbatim>\<open>virtual_memory.c\<close>), the interrupt table and its controllers
  (\<^verbatim>\<open>interrupt_handlers.c\<close>), the drive and its FAT32 partition (\<^verbatim>\<open>disk.c\<close>, \<^verbatim>\<open>fat32.c\<close>) and the process table (\<^verbatim>\<open>process.c\<close>), and
  launches the shell. From then on the kernel runs only in traps: \<open>exception\<close> saves the registers of the current process,
  handles a timer tick, a key (\<^verbatim>\<open>shell.c\<close>) or a system call, and goes on with a runnable process. The shell,
  \<^verbatim>\<open>userspace/p_shell.c\<close>, reads keys and works on the screen, the files and the other processes through system calls.

  \<^bold>\<open>Theories and sources.\<close>
  \<^item> \<open>Kernel_Prelude\<close>: words for C's integers, results with errors as values, little-endian loads and stores in byte lists;
    \<open>C_Lib\<close>: the flat byte memory and \<^verbatim>\<open>kernel/lib.c\<close>, with the meaning of \<open>memset\<close>, \<open>memcpy\<close>, \<open>strlen\<close>, \<open>strcpy\<close>.
  \<^item> \<open>Console\<close>: \<^verbatim>\<open>kernel/io.c\<close>. The state \<open>io\<close> is the VGA buffer and the bytes sent to ports.
  \<^item> \<open>Sector_Store\<close>: what the file system uses of the disk, as the locale \<open>sector_device\<close>, and the state \<open>fs\<close> of all drives and
    the sector buffer. \<open>Fat32\<close>: every function of \<^verbatim>\<open>kernel/fat32.c\<close>. \<open>Fat32_Table\<close> abstracts a disk to a \<open>volume\<close>, a table and
    the contents of clusters, and proves allocation; \<open>Fat32_Chain\<close>, \<open>Fat32_Dir\<close>, \<open>Fat32_File\<close> and \<open>Fat32_Ops\<close> prove chains,
    directories as lists of records, file contents and the whole operations; \<open>Fat32_Correct\<close> states the properties and has
    the example volume; \<open>Fat32_Confined\<close> runs the operations in any order.
  \<^item> \<open>Disk_Driver\<close>: the port accesses of \<^verbatim>\<open>kernel/disk.c\<close>, proved against the locale \<open>ata_channel\<close>, and that they implement the
    sector store; \<open>Disk_Commands\<close>: the set-up of the drive and the file commands of the same file. \<open>Processor\<close>: the wrappers
    of \<^verbatim>\<open>kernel/x86-64.h\<close> and \<^verbatim>\<open>bootloader/x86-64.h\<close>, among them the string instructions whose loops are the transfers of the
    driver, and the rounding macros of \<^verbatim>\<open>bootloader/lib.h\<close>.
  \<^item> \<open>Virtual_Memory\<close>: \<^verbatim>\<open>kernel/virtual_memory.c\<close>; page tables lie in the byte memory, and \<open>translate\<close> is the walk of the
    processor. \<open>Process\<close>, \<open>Process_Load\<close>, \<open>Process_Correct\<close>: \<^verbatim>\<open>kernel/process.c\<close>, the loader, the round-robin scheduler, the
    requests to start and stop, and the invariant of the process table.
  \<^item> \<open>Keyboard\<close>: \<^verbatim>\<open>kernel/shell.c\<close>; the ring buffer implements the locale \<open>bounded_queue\<close>. \<open>Interrupts\<close>, \<open>Interrupts_Correct\<close>:
    \<^verbatim>\<open>kernel/interrupt_handlers.c\<close>, the dispatcher and the handlers, the gates, and the runs of the kernel as the step relation
    \<open>kernel_runs\<close> of traps and user code. \<open>Preemption\<close>: the timer, the scheduler and all traps together, seen from a process that
    loses the processor. \<open>Kernel_Boot\<close>: \<open>kernel()\<close>.
  \<^item> \<open>User_Shell\<close>: \<^verbatim>\<open>userspace/p_shell.c\<close>. \<open>Shell_Screen\<close>, \<open>Shell_Line\<close>, \<open>Shell_Files\<close>, \<open>Shell_Invariant\<close>: its output, the editing
    and parsing of a line, its commands on files and an invariant of all commands; \<open>Shell_Correct\<close>: the properties of the
    shell and of whole command lines; \<open>Shell_Calls\<close>: all its system calls through the trap. \<open>User_Programs\<close>:
    \<^verbatim>\<open>userspace/p_dummy1.c\<close>, \<^verbatim>\<open>p_dummy2.c\<close>, \<^verbatim>\<open>p_idle.c\<close> and \<^verbatim>\<open>kernel/system_library.c\<close>.
  \<^item> \<open>Boot_Loader\<close>: \<^verbatim>\<open>bootloader/boot.c\<close> and \<^verbatim>\<open>elf.h\<close>; \<open>Boot_Disk\<close>: \<^verbatim>\<open>_build/mkbootdisk.c\<close>; \<open>Boot_Correct\<close>: the image that the tool
    writes, that it boots, and that a partition is not left.

  \<^bold>\<open>How code becomes definitions.\<close> Structures are records with the fields of the source, functions keep their names, global
  variables are fields of the component's state, which every operation returns updated. A C \<open>int\<close> is a 32-bit word compared
  with \<open>sint\<close>, unless its range is shown to be small. Pointers into an array are indices; pointers of
  user programs are addresses of the byte memory. \<open>fail\<close>, an assertion, a division by zero and an access outside an array are
  errors of the type \<open>kerror\<close>. A loop that ends for every argument is a recursive function with a termination proof; a
  loop that may run for ever is a partial function whose value \<open>None\<close> means that it does not end (inside a sequence of
  calls, the error \<open>Diverges\<close>). There is no fuel: theorems that an operation returns are proved as such.

  \<^bold>\<open>What the lemmas show.\<close>
  \<^item> The way from the disk tool to the shell: the image, the boot loader on it, the start of the kernel.
  \<^item> The file system refines operations on volumes and lists of records; writing and reading back, making and
    entering directories, removing; the driver refines the store below it; every operation keeps sizes and other drives.
  \<^item> Page tables translate as intended, a loaded program is isolated, the scheduler is a fair round robin, every trap
    keeps the invariant of the kernel and ends in a runnable process; system calls touch no other process, and a process
    that is preempted goes on with its own registers, within seven ticks of the timer.
  \<^item> The keyboard is a queue of 15 characters; a process that asks for a key gets the oldest one, or
    sleeps until there is one.
  \<^item> The shell edits a line like an overwriting editor, splits it into words, shows on the display what its copy of the
    screen holds, and its commands do what they say, down to the traps they raise.
  \<^item> Where the code does not do what it means to, a lemma states what it does: reading allocates a cluster at the end of
    a chain, a removal can diverge, sector numbers have 28 bits, the shell can leave three of its arrays.

  \<^bold>\<open>Interfaces.\<close> The locales are \<open>sector_device\<close> (interpreted by the store), \<open>ata_channel\<close> (by a controller with any latency),
  \<open>indexed_store\<close> (by page table entries and the frame table), \<open>bounded_queue\<close> (by the ring buffer), \<open>bar\<close> (by the two example
  programs) and \<open>write_invariant\<close> (by the confinement to a partition).

  \<^bold>\<open>Parameters.\<close> What the repository does not contain is an argument: the devices behind the ports, the addresses that
  the linker chooses (\<open>layout\<close>, \<open>wrappers\<close>), the program images in memory (\<open>ramimages\<close>), the keys that are pressed, the files on
  the host and the outcome of each of its write calls, and the answers of \<open>cpuid\<close>.

  \<^bold>\<open>Not modelled.\<close> The assembly files \<^verbatim>\<open>kernel/interrupt_handlers.s\<close> and \<^verbatim>\<open>bootloader/bootentry.S\<close>: what they hand over is an
  argument of the models of \<open>exception\<close> and \<open>boot\<close>. Of the processor wrappers those that nothing calls and that act only
  inside the processor (\<open>invlpg\<close>, \<open>lidt\<close>, \<open>lldt\<close>, \<open>ltr\<close>, \<open>rcr2\<close>, \<open>rcr3\<close>, \<open>lcr4\<close> and the like), \<open>rcr4\<close> and \<open>tlbflush\<close>, which do not assemble in 64-bit mode,
  and \<open>read_cycle_counter\<close>, whose register is the choice of the compiler. The declarations in headers without a definition in the repository, and the makefile and linker scripts.
  The code of \<^verbatim>\<open>disk.c\<close> that is commented out. Caches and the translation buffer of the processor are not part of the state.
\<close>

end
